(* ===== verification/Axess_Prelude.thy ===== *)
theory Axess_Prelude
  imports Main "HOL-Library.Word" "HOL-Library.Char_ord" "HOL-Library.List_Lexorder"
    "HOL-Library.Sublist" "HOL-Library.Multiset"
begin

section \<open>Shared types, ordered maps, time and identifiers\<close>

text \<open>
  What every component of the development uses.

  \<^item> Identifiers: the ids of users, tenants, sessions, devices and refresh tokens are UUID
    newtypes (\<^verbatim>\<open>define_id!\<close> of \<^verbatim>\<open>axess-identity\<close>), modelled as 128-bit words.
  \<^item> Time: an instant is an integer number of nanoseconds, a \<^verbatim>\<open>std::time::Duration\<close> is a
    natural number of nanoseconds. What the time library refuses (a duration or an instant out
    of its range) is a parameter, the record \<open>time_limits\<close>.
  \<^item> Results of fallible calls: \<open>'e + 'a\<close>, \<open>Inl\<close> the error.
  \<^item> Ordered maps with string keys (\<^verbatim>\<open>BTreeMap\<close>): association lists sorted by key.
  \<^item> The collections \<open>state_simps\<close> (unfolding of state transitions) and \<open>store_simps\<close>
    (unfolding of store operations), which the component theories fill.
\<close>

named_theorems state_simps "equations of the session state transitions"
named_theorems store_simps "equations of the store operations"
named_theorems time_simps "equations of the time arithmetic"

type_synonym uuid = "128 word"
type_synonym user_id = uuid
type_synonym tenant_id = uuid
type_synonym device_id = uuid
type_synonym session_id = uuid

type_synonym u8 = "8 word"
type_synonym u32 = "32 word"
type_synonym u64 = "64 word"

type_synonym datetime = int
type_synonym duration = nat

subsection \<open>Time\<close>

text \<open>
  The bounds of the time library: the earliest and the latest instant it represents, and the
  longest signed duration. An operation that would leave them answers \<open>None\<close>.
\<close>

record time_limits =
  min_utc :: datetime
  max_utc :: datetime
  max_delta :: int

definition from_std :: "time_limits \<Rightarrow> duration \<Rightarrow> int option" where
  "from_std lim d = (if int d \<le> max_delta lim then Some (int d) else None)"

definition checked_add_signed :: "time_limits \<Rightarrow> datetime \<Rightarrow> int \<Rightarrow> datetime option" where
  "checked_add_signed lim t d =
     (if min_utc lim \<le> t + d \<and> t + d \<le> max_utc lim then Some (t + d) else None)"

definition checked_sub_signed :: "time_limits \<Rightarrow> datetime \<Rightarrow> int \<Rightarrow> datetime option" where
  "checked_sub_signed lim t d =
     (if min_utc lim \<le> t - d \<and> t - d \<le> max_utc lim then Some (t - d) else None)"

lemmas time_defs [time_simps] = from_std_def checked_add_signed_def checked_sub_signed_def

text \<open>Whether an instant lies in the range the time library represents.\<close>

definition in_time :: "time_limits \<Rightarrow> datetime \<Rightarrow> bool" where
  "in_time lim t \<longleftrightarrow> min_utc lim \<le> t \<and> t \<le> max_utc lim"

text \<open>\<^verbatim>\<open>Option<DateTime>::max\<close>: \<open>None\<close> is below every instant.\<close>

fun opt_max :: "'a::linorder option \<Rightarrow> 'a option \<Rightarrow> 'a option" where
  "opt_max None b = b"
| "opt_max a None = a"
| "opt_max (Some a) (Some b) = Some (max a b)"

lemma opt_max_None_right [simp]: "opt_max a None = a"
  by (cases a) simp_all

lemma opt_max_same [simp]: "opt_max a a = a"
  by (cases a) simp_all

text \<open>\<^verbatim>\<open>Iterator::max\<close>: the greatest element, \<open>None\<close> for an empty iterator.\<close>

definition list_max :: "'a::linorder list \<Rightarrow> 'a option" where
  "list_max xs = foldl (\<lambda>m x. opt_max m (Some x)) None xs"

lemma foldl_opt_max:
  "foldl (\<lambda>m x. opt_max m (Some x)) (Some a) xs = Some (foldl max a xs)"
  by (induction xs arbitrary: a) simp_all

lemma foldl_max_ge: "a \<le> foldl max a xs" "x \<in> set xs \<Longrightarrow> x \<le> foldl max (a::'a::linorder) xs"
  by (induction xs arbitrary: a)
     (auto intro: order_trans [OF max.cobounded1] order_trans [OF max.cobounded2])

lemma foldl_max_mem: "foldl max (a::'a::linorder) xs \<in> insert a (set xs)"
proof (induction xs arbitrary: a)
  case (Cons x xs)
  have "foldl max (max a x) xs \<in> insert (max a x) (set xs)" by (rule Cons.IH)
  moreover have "max a x = a \<or> max a x = x" by (simp add: max_def)
  ultimately show ?case by auto
qed simp

lemma list_max_Nil [simp]: "list_max [] = None"
  by (simp add: list_max_def)

lemma list_max_Cons: "list_max (x # xs) = Some (foldl max x xs)"
  by (simp add: list_max_def foldl_opt_max)

lemma list_max_eq_None [simp]: "list_max xs = None \<longleftrightarrow> xs = []"
  by (cases xs) (simp_all add: list_max_Cons)

lemma list_max_mem: "list_max xs = Some m \<Longrightarrow> m \<in> set xs"
  using foldl_max_mem by (cases xs) (fastforce simp: list_max_Cons)+

lemma list_max_ge: "list_max xs = Some m \<Longrightarrow> x \<in> set xs \<Longrightarrow> x \<le> m"
  by (cases xs) (auto simp: list_max_Cons intro: foldl_max_ge)

subsection \<open>Positions in a list\<close>

text \<open>\<^verbatim>\<open>Iterator::position\<close> and \<^verbatim>\<open>Vec::remove\<close> at a position in range.\<close>

fun position :: "('a \<Rightarrow> bool) \<Rightarrow> 'a list \<Rightarrow> nat option" where
  "position P [] = None"
| "position P (x # xs) = (if P x then Some 0 else map_option Suc (position P xs))"

definition vec_remove :: "nat \<Rightarrow> 'a list \<Rightarrow> 'a list" where
  "vec_remove i xs = take i xs @ drop (Suc i) xs"

lemma position_None: "position P xs = None \<longleftrightarrow> (\<forall>x \<in> set xs. \<not> P x)"
  by (induction xs) auto

lemma position_Some: "position P xs = Some i \<Longrightarrow> i < length xs \<and> P (xs ! i)"
  by (induction xs arbitrary: i) (auto split: if_splits)

lemma position_Some_split:
  "position P xs = Some i \<Longrightarrow>
     \<exists>ys x zs. xs = ys @ x # zs \<and> P x \<and> vec_remove i xs = ys @ zs \<and> (\<forall>y \<in> set ys. \<not> P y)"
proof (induction xs arbitrary: i)
  case (Cons a xs)
  show ?case
  proof (cases "P a")
    case True
    with Cons.prems have "a # xs = [] @ a # xs \<and> P a \<and> vec_remove i (a # xs) = [] @ xs"
      by (simp add: vec_remove_def)
    then show ?thesis by (metis emptyE list.set(1))
  next
    case False
    with Cons.prems obtain j where j: "position P xs = Some j" "i = Suc j" by auto
    from Cons.IH [OF j(1)] obtain ys x zs where
      "xs = ys @ x # zs" "P x" "vec_remove j xs = ys @ zs" "\<forall>y \<in> set ys. \<not> P y" by blast
    with False j(2) have "a # xs = (a # ys) @ x # zs \<and> P x \<and>
        vec_remove i (a # xs) = (a # ys) @ zs \<and> (\<forall>y \<in> set (a # ys). \<not> P y)"
      by (simp add: vec_remove_def)
    then show ?thesis by blast
  qed
qed simp

subsection \<open>Minted identifiers\<close>

text \<open>
  A secure random source, as far as identifiers are concerned: the ids it hands out in turn.
  \<open>drawn\<close> counts the ids already handed out.
\<close>

record rng =
  uuids :: "nat \<Rightarrow> uuid"
  drawn :: nat

definition mint :: "rng \<Rightarrow> uuid \<times> rng" where
  "mint r = (uuids r (drawn r), r\<lparr>drawn := Suc (drawn r)\<rparr>)"

text \<open>What is relied on of the source: no id is handed out twice.\<close>

definition rng_fresh :: "rng \<Rightarrow> bool" where
  "rng_fresh r \<longleftrightarrow> inj (uuids r)"

subsection \<open>Ordered maps with string keys\<close>

text \<open>
  \<^verbatim>\<open>BTreeMap<String, V>\<close> as an association list sorted by key, which also stands for
  \<^verbatim>\<open>serde_json::Map\<close>: whichever of its two representations is built in, two such maps are equal
  exactly when they hold the same entries, and the sorted list is the normal form of that.
\<close>

type_synonym 'v btree = "(string \<times> 'v) list"

definition bt_wf :: "'v btree \<Rightarrow> bool" where
  "bt_wf m \<longleftrightarrow> sorted_wrt (<) (map fst m)"

abbreviation bt_get :: "'v btree \<Rightarrow> string \<Rightarrow> 'v option" where
  "bt_get m k \<equiv> map_of m k"

fun bt_insert :: "string \<Rightarrow> 'v \<Rightarrow> 'v btree \<Rightarrow> 'v btree" where
  "bt_insert k v [] = [(k, v)]"
| "bt_insert k v (kv # rest) =
     (if k < fst kv then (k, v) # kv # rest
      else if k = fst kv then (k, v) # rest
      else kv # bt_insert k v rest)"

definition bt_remove :: "string \<Rightarrow> 'v btree \<Rightarrow> 'v btree" where
  "bt_remove k m = filter (\<lambda>kv. fst kv \<noteq> k) m"

definition bt_retain :: "(string \<Rightarrow> bool) \<Rightarrow> 'v btree \<Rightarrow> 'v btree" where
  "bt_retain P m = filter (\<lambda>kv. P (fst kv)) m"

definition bt_keys :: "'v btree \<Rightarrow> string list" where
  "bt_keys m = map fst m"

lemma bt_wf_Nil [simp]: "bt_wf []"
  by (simp add: bt_wf_def)

lemma bt_wf_Cons: "bt_wf (kv # m) \<longleftrightarrow> (\<forall>k \<in> fst ` set m. fst kv < k) \<and> bt_wf m"
  by (auto simp: bt_wf_def)

lemma bt_get_insert [simp]: "bt_get (bt_insert k v m) j = (if j = k then Some v else bt_get m j)"
  by (induction m) auto

lemma set_bt_insert: "fst ` set (bt_insert k v m) = insert k (fst ` set m)"
  by (induction m) auto

lemma bt_wf_insert [simp]: "bt_wf m \<Longrightarrow> bt_wf (bt_insert k v m)"
proof (induction m)
  case (Cons kv m)
  then show ?case
    by (auto simp: bt_wf_Cons set_bt_insert intro: less_trans)
qed (simp add: bt_wf_def)

lemma bt_get_remove [simp]: "bt_get (bt_remove k m) j = (if j = k then None else bt_get m j)"
  by (induction m) (auto simp: bt_remove_def)

lemma bt_wf_filter [simp]: "bt_wf m \<Longrightarrow> bt_wf (filter P m)"
  by (induction m) (auto simp: bt_wf_Cons)

lemma bt_wf_remove [simp]: "bt_wf m \<Longrightarrow> bt_wf (bt_remove k m)"
  by (simp add: bt_remove_def)

lemma bt_get_retain [simp]: "bt_get (bt_retain P m) j = (if P j then bt_get m j else None)"
  by (induction m) (auto simp: bt_retain_def)

lemma bt_wf_retain [simp]: "bt_wf m \<Longrightarrow> bt_wf (bt_retain P m)"
  by (simp add: bt_retain_def)

lemma set_bt_keys: "k \<in> set (bt_keys m) \<longleftrightarrow> bt_get m k \<noteq> None"
  by (auto simp: bt_keys_def map_of_eq_None_iff)

lemma bt_get_None_least: "bt_wf ((a, v) # m) \<Longrightarrow> k \<le> a \<Longrightarrow> k \<noteq> a \<Longrightarrow> bt_get ((a, v) # m) k = None"
  by (auto simp: bt_wf_Cons map_of_eq_None_iff dest: less_le_trans)

lemma bt_wf_head_None: "bt_wf ((a, v) # m) \<Longrightarrow> bt_get m a = None"
  by (auto simp: bt_wf_Cons map_of_eq_None_iff)

text \<open>The normal form: a map is determined by what it answers.\<close>

lemma bt_ext:
  assumes "bt_wf m" and "bt_wf n" and "\<And>k. bt_get m k = bt_get n k"
  shows "m = n"
  using assms
proof (induction m arbitrary: n)
  case Nil
  then have "bt_get n k = None" for k by simp
  then show ?case by (metis fst_conv list.exhaust map_of_Cons_code(2) option.distinct(1) surj_pair)
next
  case (Cons av m)
  obtain a v where av: "av = (a, v)" by (cases av)
  from Cons.prems(3) [of a] have "bt_get n a = Some v" by (simp add: av)
  then obtain b w n' where n: "n = (b, w) # n'" by (cases n) auto
  have "a = b"
  proof (rule ccontr)
    assume ne: "a \<noteq> b"
    have b_in: "bt_get ((a, v) # m) b = Some w"
      using Cons.prems(3) [of b] by (simp add: av n)
    show False
    proof (cases "a < b")
      case True
      then have "bt_get ((b, w) # n') a = None"
        using Cons.prems(2) n ne by (intro bt_get_None_least) auto
      with \<open>bt_get n a = Some v\<close> n show False by simp
    next
      case False
      with ne have "b < a" by simp
      then have "bt_get ((a, v) # m) b = None"
        using Cons.prems(1) av ne by (intro bt_get_None_least) auto
      with b_in show False by simp
    qed
  qed
  with \<open>bt_get n a = Some v\<close> n have w: "w = v" by simp
  have "bt_get m k = bt_get n' k" for k
  proof (cases "k = a")
    case True
    with Cons.prems(1,2) av n \<open>a = b\<close> show ?thesis by (simp add: bt_wf_head_None)
  next
    case False
    with Cons.prems(3) [of k] av n \<open>a = b\<close> show ?thesis by simp
  qed
  moreover have "bt_wf m" "bt_wf n'"
    using Cons.prems(1,2) n by (simp_all add: bt_wf_Cons)
  ultimately have "m = n'" by (intro Cons.IH) auto
  with av n w \<open>a = b\<close> show ?case by simp
qed

subsection \<open>JSON values\<close>

text \<open>
  The JSON values the session and the factor credentials carry. A number is kept by its
  text. An object is an ordered map with string keys.
\<close>

datatype json =
    JNull
  | JBool bool
  | JNumber string
  | JString string
  | JArray "json list"
  | JObject "json btree"

fun as_object :: "json \<Rightarrow> json btree option" where
  "as_object (JObject m) = Some m"
| "as_object _ = None"

definition is_object :: "json \<Rightarrow> bool" where
  "is_object v \<longleftrightarrow> as_object v \<noteq> None"

text \<open>The entries of a bag: those of an object, none for any other value.\<close>

definition obj_map :: "json \<Rightarrow> json btree" where
  "obj_map v = (case as_object v of Some m \<Rightarrow> m | None \<Rightarrow> [])"

text \<open>\<^verbatim>\<open>Value::get\<close> with a string index.\<close>

definition json_get :: "json \<Rightarrow> string \<Rightarrow> json option" where
  "json_get v k = (case as_object v of Some m \<Rightarrow> bt_get m k | None \<Rightarrow> None)"

text \<open>The map of an object is ordered, as every \<^verbatim>\<open>BTreeMap\<close> is.\<close>

definition json_wf :: "json \<Rightarrow> bool" where
  "json_wf v \<longleftrightarrow> bt_wf (obj_map v)"

lemma is_object_simps [simp]:
  "is_object (JObject m)" "\<not> is_object JNull" "\<not> is_object (JBool b)" "\<not> is_object (JNumber s)"
  "\<not> is_object (JString s)" "\<not> is_object (JArray vs)"
  by (simp_all add: is_object_def)

lemma obj_map_simps [simp]:
  "obj_map (JObject m) = m" "obj_map JNull = []"
  by (simp_all add: obj_map_def)

lemma obj_map_not_object: "\<not> is_object v \<Longrightarrow> obj_map v = []"
  by (cases v) (simp_all add: obj_map_def)

lemma is_object_JObject: "is_object v \<Longrightarrow> v = JObject (obj_map v)"
  by (cases v) simp_all

lemma json_get_simps [simp]:
  "json_get (JObject m) k = bt_get m k" "json_get JNull k = None"
  by (simp_all add: json_get_def)

lemma json_get_obj_map: "json_get v k = bt_get (obj_map v) k"
  by (cases v) (simp_all add: json_get_def obj_map_def)

lemma json_get_Some_object: "json_get v k = Some x \<Longrightarrow> is_object v"
  by (cases v) (simp_all add: json_get_def)

lemma json_wf_simps [simp]: "json_wf (JObject m) = bt_wf m" "json_wf JNull"
  by (simp_all add: json_wf_def)

end
