(* ===== verification/Factors.thy ===== *)
theory Factors
  imports Axess_Prelude
begin

section \<open>Factor kinds, steps and credentials\<close>

text \<open>
  \<^verbatim>\<open>axess-core/src/authn/factor.rs\<close>: the kinds of authentication factors with their stable
  tags, the steps of an authentication method (a required factor or a choice), and which
  credential shapes fit which kind.
\<close>

datatype federated_provider = Github | Google | Microsoft | CustomProvider string

fun federated_provider_as_str :: "federated_provider \<Rightarrow> string" where
  "federated_provider_as_str Github = ''github''"
| "federated_provider_as_str Google = ''google''"
| "federated_provider_as_str Microsoft = ''microsoft''"
| "federated_provider_as_str (CustomProvider s) = s"

datatype factor_kind =
    Password
  | Totp
  | Hotp
  | EmailOtp
  | Fido2
  | LdapBind
  | RecoveryCode
  | Federated federated_provider

fun factor_kind_as_str :: "factor_kind \<Rightarrow> string" where
  "factor_kind_as_str Password = ''password''"
| "factor_kind_as_str Totp = ''totp''"
| "factor_kind_as_str Hotp = ''hotp''"
| "factor_kind_as_str EmailOtp = ''email_otp''"
| "factor_kind_as_str Fido2 = ''fido2''"
| "factor_kind_as_str LdapBind = ''ldap_bind''"
| "factor_kind_as_str RecoveryCode = ''recovery_code''"
| "factor_kind_as_str (Federated p) = federated_provider_as_str p"

datatype factor_step =
    Required factor_kind
  | AnyOf "factor_kind list"

datatype factor_credential =
    PasswordCredential string
  | OtpCode string
  | RecoveryCodeCredential string
  | Fido2Assertion json

fun as_required :: "factor_step \<Rightarrow> factor_kind option" where
  "as_required (Required k) = Some k"
| "as_required (AnyOf _) = None"

fun accepts :: "factor_step \<Rightarrow> factor_kind \<Rightarrow> bool" where
  "accepts (Required k) kind = (k = kind)"
| "accepts (AnyOf choices) kind = (kind \<in> set choices)"

fun primary :: "factor_step \<Rightarrow> factor_kind option" where
  "primary (Required k) = Some k"
| "primary (AnyOf choices) = (case choices of [] \<Rightarrow> None | k # _ \<Rightarrow> Some k)"

fun fits :: "factor_credential \<Rightarrow> factor_kind \<Rightarrow> bool" where
  "fits (PasswordCredential _) kind = (kind = Password \<or> kind = LdapBind)"
| "fits (OtpCode _) kind = (kind = Totp \<or> kind = Hotp \<or> kind = EmailOtp)"
| "fits (RecoveryCodeCredential _) kind = (kind = RecoveryCode)"
| "fits (Fido2Assertion _) kind = (kind = Fido2)"

fun kind_for :: "factor_step \<Rightarrow> factor_credential \<Rightarrow> factor_kind option" where
  "kind_for (Required k) credential = Some k"
| "kind_for (AnyOf choices) credential = List.find (\<lambda>kind. fits credential kind) choices"

text \<open>The factor a credential is verified as at a step is one the step accepts.\<close>

lemma kind_for_accepts: "kind_for step cred = Some k \<Longrightarrow> accepts step k"
  by (cases step) (auto simp: find_Some_iff)

text \<open>At a choice, the credential is verified as a kind its shape fits.\<close>

lemma kind_for_fits: "kind_for (AnyOf choices) cred = Some k \<Longrightarrow> fits cred k"
  by (auto simp: find_Some_iff)

lemma primary_accepts: "primary step = Some k \<Longrightarrow> accepts step k"
  by (cases step) (auto split: list.splits)

lemma as_required_primary: "as_required step = Some k \<Longrightarrow> primary step = Some k"
  by (cases step) auto

text \<open>No credential fits a federated kind: a federated login carries no local credential.\<close>

lemma fits_not_federated: "\<not> fits cred (Federated p)"
  by (cases cred) auto

end
