(* ===== verification/Auth_State.thy ===== *)
theory Auth_State
  imports Factors
begin

section \<open>The authentication state machine\<close>

text \<open>
  \<^verbatim>\<open>axess-core/src/session/data.rs\<close>: the enum \<^verbatim>\<open>AuthState\<close>, its readers and its pure
  transitions. A struct-like variant with many fields carries a record of them. The attempt
  counter is a \<^verbatim>\<open>u32\<close> that wraps, as the release build's addition does.
\<close>

subsection \<open>The state\<close>

record impersonation =
  admin :: user_id
  since :: datetime

datatype workflow_kind = Signup | PasswordReset | EmailVerification | CustomWorkflow string

record workflow_state =
  workflow_kind :: workflow_kind
  current_step :: u32
  total_steps :: u32
  initiated_at :: datetime
  verification_digest :: "string option"
  verification_expires_at :: "datetime option"

definition workflow_new :: "workflow_kind \<Rightarrow> u32 \<Rightarrow> datetime \<Rightarrow> workflow_state" where
  "workflow_new kind steps now =
     \<lparr>workflow_kind = kind, current_step = 0, total_steps = steps, initiated_at = now,
      verification_digest = None, verification_expires_at = None\<rparr>"

definition with_verification :: "string \<Rightarrow> datetime \<Rightarrow> workflow_state \<Rightarrow> workflow_state" where
  "with_verification digest expires_at w =
     w\<lparr>verification_digest := Some digest, verification_expires_at := Some expires_at\<rparr>"

type_synonym completed_factor = "factor_kind \<times> datetime"

record authenticating =
  ag_user_id :: user_id
  ag_tenant_id :: tenant_id
  method_name :: string
  remaining :: "factor_step list"
  completed :: "completed_factor list"
  attempt_count :: u32
  last_attempt :: "datetime option"
  ag_ldap_groups :: "string list option"
  ag_impersonator :: "impersonation option"

record authenticated =
  ad_user_id :: user_id
  ad_tenant_id :: tenant_id
  authn_time :: datetime
  factors_completed :: "completed_factor list"
  ad_impersonator :: "impersonation option"
  ad_ldap_groups :: "string list option"

datatype auth_state =
    Guest
  | Identifying user_id tenant_id
  | Authenticating authenticating
  | Authenticated authenticated
  | PendingWorkflow user_id tenant_id workflow_state

subsection \<open>Readers\<close>

fun pending_user_id :: "auth_state \<Rightarrow> user_id option" where
  "pending_user_id Guest = None"
| "pending_user_id (Identifying u _) = Some u"
| "pending_user_id (Authenticating a) = Some (ag_user_id a)"
| "pending_user_id (Authenticated d) = Some (ad_user_id d)"
| "pending_user_id (PendingWorkflow u _ _) = Some u"

fun authenticated_user_id :: "auth_state \<Rightarrow> user_id option" where
  "authenticated_user_id (Authenticated d) = Some (ad_user_id d)"
| "authenticated_user_id _ = None"

fun state_tenant_id :: "auth_state \<Rightarrow> tenant_id option" where
  "state_tenant_id Guest = None"
| "state_tenant_id (Identifying _ t) = Some t"
| "state_tenant_id (Authenticating a) = Some (ag_tenant_id a)"
| "state_tenant_id (Authenticated d) = Some (ad_tenant_id d)"
| "state_tenant_id (PendingWorkflow _ t _) = Some t"

fun factor_completed_at :: "factor_kind \<Rightarrow> auth_state \<Rightarrow> datetime option" where
  "factor_completed_at kind (Authenticated d) =
     list_max (map snd (filter (\<lambda>kt. fst kt = kind) (factors_completed d)))"
| "factor_completed_at kind _ = None"

fun is_authenticated :: "auth_state \<Rightarrow> bool" where
  "is_authenticated (Authenticated _) = True"
| "is_authenticated _ = False"

fun impersonation_of :: "auth_state \<Rightarrow> impersonation option" where
  "impersonation_of (Authenticated d) = ad_impersonator d"
| "impersonation_of _ = None"

fun ldap_groups_of :: "auth_state \<Rightarrow> string list option" where
  "ldap_groups_of (Authenticated d) = ad_ldap_groups d"
| "ldap_groups_of _ = None"

fun is_guest :: "auth_state \<Rightarrow> bool" where
  "is_guest Guest = True"
| "is_guest _ = False"

fun is_authenticating :: "auth_state \<Rightarrow> bool" where
  "is_authenticating (Authenticating _) = True"
| "is_authenticating _ = False"

subsection \<open>Transitions\<close>

definition set_identifying :: "user_id \<Rightarrow> tenant_id \<Rightarrow> auth_state \<Rightarrow> auth_state" where
  "set_identifying u t st = Identifying u t"

definition begin_authenticating ::
  "user_id \<Rightarrow> tenant_id \<Rightarrow> string \<Rightarrow> factor_step list \<Rightarrow> auth_state \<Rightarrow> auth_state" where
  "begin_authenticating u t m steps st = Authenticating
     \<lparr>ag_user_id = u, ag_tenant_id = t, method_name = m, remaining = steps, completed = [],
      attempt_count = 0, last_attempt = None, ag_ldap_groups = None, ag_impersonator = None\<rparr>"

text \<open>The Boolean result says whether the transition applied.\<close>

fun begin_step_up :: "factor_step list \<Rightarrow> auth_state \<Rightarrow> auth_state \<times> bool" where
  "begin_step_up steps (Authenticated d) = (Authenticating
     \<lparr>ag_user_id = ad_user_id d, ag_tenant_id = ad_tenant_id d, method_name = ''step-up'',
      remaining = steps, completed = factors_completed d, attempt_count = 0,
      last_attempt = None, ag_ldap_groups = ad_ldap_groups d,
      ag_impersonator = ad_impersonator d\<rparr>, True)"
| "begin_step_up steps st = (st, False)"

definition set_authenticated :: "user_id \<Rightarrow> tenant_id \<Rightarrow> datetime \<Rightarrow> auth_state \<Rightarrow> auth_state" where
  "set_authenticated u t time st = Authenticated
     \<lparr>ad_user_id = u, ad_tenant_id = t, authn_time = time, factors_completed = [],
      ad_impersonator = None, ad_ldap_groups = None\<rparr>"

fun set_impersonator :: "user_id \<Rightarrow> datetime \<Rightarrow> auth_state \<Rightarrow> auth_state \<times> bool" where
  "set_impersonator adm at (Authenticated d) =
     (Authenticated (d\<lparr>ad_impersonator := Some \<lparr>admin = adm, since = at\<rparr>\<rparr>), True)"
| "set_impersonator adm at st = (st, False)"

fun set_ldap_groups :: "string list \<Rightarrow> auth_state \<Rightarrow> auth_state" where
  "set_ldap_groups groups (Authenticating a) = Authenticating (a\<lparr>ag_ldap_groups := Some groups\<rparr>)"
| "set_ldap_groups groups st = st"

definition set_pending_workflow ::
  "user_id \<Rightarrow> tenant_id \<Rightarrow> workflow_state \<Rightarrow> auth_state \<Rightarrow> auth_state" where
  "set_pending_workflow u t w st = PendingWorkflow u t w"

datatype advance_outcome = NotApplicable | StillAuthenticating | Completed

text \<open>The step the factor satisfies, if any, leaves the remaining list; the factor is recorded.\<close>

definition take_step :: "factor_kind \<Rightarrow> datetime \<Rightarrow> authenticating \<Rightarrow> authenticating" where
  "take_step kind time a =
     (case position (\<lambda>step. accepts step kind) (remaining a) of
        Some pos \<Rightarrow> a\<lparr>remaining := vec_remove pos (remaining a),
                     completed := completed a @ [(kind, time)]\<rparr>
      | None \<Rightarrow> a)"

text \<open>The state an emptied remaining list becomes.\<close>

definition finish_login :: "datetime \<Rightarrow> authenticating \<Rightarrow> authenticated" where
  "finish_login time a =
     \<lparr>ad_user_id = ag_user_id a, ad_tenant_id = ag_tenant_id a, authn_time = time,
      factors_completed = completed a, ad_impersonator = ag_impersonator a,
      ad_ldap_groups = ag_ldap_groups a\<rparr>"

fun advance_factor :: "factor_kind \<Rightarrow> datetime \<Rightarrow> auth_state \<Rightarrow> auth_state \<times> advance_outcome" where
  "advance_factor kind time (Authenticating a) =
     (let a' = take_step kind time a in
      if remaining a' = [] then (Authenticated (finish_login time a'), Completed)
      else (Authenticating a', StillAuthenticating))"
| "advance_factor kind time st = (st, NotApplicable)"

fun record_attempt_at :: "datetime \<Rightarrow> auth_state \<Rightarrow> auth_state" where
  "record_attempt_at now (Authenticating a) =
     Authenticating (a\<lparr>attempt_count := attempt_count a + 1, last_attempt := Some now\<rparr>)"
| "record_attempt_at now st = st"

lemmas auth_transition_defs [state_simps] =
  set_identifying_def begin_authenticating_def set_authenticated_def set_pending_workflow_def

fun_cases begin_step_up_True: "begin_step_up steps st = (st', True)"
fun_cases set_impersonator_True: "set_impersonator adm at st = (st', True)"
fun_cases advance_factor_Completed: "advance_factor kind time st = (st', Completed)"
fun_cases advance_factor_Still: "advance_factor kind time st = (st', StillAuthenticating)"

subsection \<open>One factor at a time\<close>

text \<open>
  A step relation of one accepted factor: \<^term>\<open>take_step\<close> either leaves the login as it is or
  moves exactly one remaining step to the completed list.
\<close>

lemma take_step_cases:
  obtains (ignored) "take_step kind time a = a" "\<forall>s \<in> set (remaining a). \<not> accepts s kind"
  | (taken) ys s zs where "remaining a = ys @ s # zs" "accepts s kind"
      "\<forall>y \<in> set ys. \<not> accepts y kind"
      "take_step kind time a =
         a\<lparr>remaining := ys @ zs, completed := completed a @ [(kind, time)]\<rparr>"
proof (cases "position (\<lambda>step. accepts step kind) (remaining a)")
  case None
  then have "take_step kind time a = a" by (simp add: take_step_def)
  then show thesis using ignored None by (simp add: position_None)
next
  case (Some pos)
  then show thesis
    using position_Some_split [OF Some] taken by (auto simp: take_step_def)
qed

lemma take_step_keeps [simp]:
  "ag_user_id (take_step kind time a) = ag_user_id a"
  "ag_tenant_id (take_step kind time a) = ag_tenant_id a"
  "method_name (take_step kind time a) = method_name a"
  "attempt_count (take_step kind time a) = attempt_count a"
  "last_attempt (take_step kind time a) = last_attempt a"
  "ag_ldap_groups (take_step kind time a) = ag_ldap_groups a"
  "ag_impersonator (take_step kind time a) = ag_impersonator a"
  by (simp_all add: take_step_def split: option.split)

subsection \<open>Presenting a sequence of factors\<close>

definition advance_all :: "completed_factor list \<Rightarrow> auth_state \<Rightarrow> auth_state" where
  "advance_all kts st = fold (\<lambda>(k, t) s. fst (advance_factor k t s)) kts st"

lemma advance_all_simps [simp]:
  "advance_all [] st = st"
  "advance_all ((k, t) # kts) st = advance_all kts (fst (advance_factor k t st))"
  by (simp_all add: advance_all_def)

lemma advance_all_Authenticated [simp]: "advance_all kts (Authenticated d) = Authenticated d"
  by (induction kts) auto

text \<open>
  What a finished login owes the steps it began with: every step is answered by one recorded
  factor it accepts, and the recorded factors are a subsequence of those presented.
\<close>

definition answers :: "factor_step list \<Rightarrow> completed_factor list \<Rightarrow> bool" where
  "answers steps kts \<longleftrightarrow>
     (\<exists>matched. mset matched = mset steps \<and> list_all2 (\<lambda>s kt. accepts s (fst kt)) matched kts)"

lemma answers_Nil [simp]: "answers [] kts \<longleftrightarrow> kts = []"
  by (auto simp: answers_def)

lemma answers_Cons:
  assumes "accepts s k" "answers (ys @ zs) kts"
  shows "answers (ys @ s # zs) ((k, t) # kts)"
proof -
  from assms(2) obtain matched where
    "mset matched = mset (ys @ zs)" "list_all2 (\<lambda>s kt. accepts s (fst kt)) matched kts"
    by (auto simp: answers_def)
  with assms(1) have "mset (s # matched) = mset (ys @ s # zs)"
    "list_all2 (\<lambda>s kt. accepts s (fst kt)) (s # matched) ((k, t) # kts)" by auto
  then show ?thesis unfolding answers_def by blast
qed

lemma answers_length: "answers steps kts \<Longrightarrow> length kts = length steps"
  unfolding answers_def by (metis list_all2_lengthD mset_eq_length)

lemma advance_all_finished:
  assumes "remaining a \<noteq> []" "advance_all kts (Authenticating a) = Authenticated d"
  shows "\<exists>taken. answers (remaining a) taken \<and> subseq taken kts \<and> taken \<noteq> [] \<and>
    d = \<lparr>ad_user_id = ag_user_id a, ad_tenant_id = ag_tenant_id a,
         authn_time = snd (last taken), factors_completed = completed a @ taken,
         ad_impersonator = ag_impersonator a, ad_ldap_groups = ag_ldap_groups a\<rparr>"
  using assms
proof (induction kts arbitrary: a)
  case Nil
  then show ?case by simp
next
  case (Cons kt kts)
  obtain k t where kt: "kt = (k, t)" by (cases kt)
  show ?case
  proof (cases rule: take_step_cases [of k t a])
    case ignored
    with Cons.prems kt have "advance_all kts (Authenticating a) = Authenticated d" by simp
    from Cons.IH [OF Cons.prems(1) this] show ?thesis by auto
  next
    case (taken ys s zs)
    show ?thesis
    proof (cases "ys @ zs = []")
      case True
      with taken Cons.prems(2) kt have d: "d = finish_login t (take_step k t a)" by simp
      have "answers (remaining a) [(k, t)]" using answers_Cons [of s k ys zs "[]" t] taken True by simp
      with d taken True kt show ?thesis
        by (intro exI [of _ "[(k, t)]"]) (simp add: finish_login_def)
    next
      case False
      with taken Cons.prems(2) kt
      have run: "advance_all kts (Authenticating (take_step k t a)) = Authenticated d" by auto
      have rem: "remaining (take_step k t a) = ys @ zs" using taken by simp
      with False have "remaining (take_step k t a) \<noteq> []" by simp
      from Cons.IH [OF this run] obtain w where
        w: "answers (ys @ zs) w" "subseq w kts" "w \<noteq> []" and
        d: "d = \<lparr>ad_user_id = ag_user_id a, ad_tenant_id = ag_tenant_id a,
             authn_time = snd (last w), factors_completed = completed a @ (k, t) # w,
             ad_impersonator = ag_impersonator a, ad_ldap_groups = ag_ldap_groups a\<rparr>"
        using rem taken by auto
      have "answers (remaining a) ((k, t) # w)" using answers_Cons w(1) taken by simp
      with w d kt show ?thesis by (intro exI [of _ "(k, t) # w"]) simp
    qed
  qed
qed

lemma advance_all_in_order:
  assumes "list_all2 (\<lambda>s kt. accepts s (fst kt)) (remaining a) kts" "kts \<noteq> []"
  shows "advance_all kts (Authenticating a) =
    Authenticated (finish_login (snd (last kts)) (a\<lparr>completed := completed a @ kts\<rparr>))"
  using assms
proof (induction kts arbitrary: a rule: list.induct)
  case (Cons kt kts)
  obtain k t where kt: "kt = (k, t)" by (cases kt)
  from Cons.prems(1) obtain s steps where rem: "remaining a = s # steps" "accepts s k"
    "list_all2 (\<lambda>s kt. accepts s (fst kt)) steps kts"
    by (auto simp: kt list_all2_Cons2)
  then have take: "take_step k t a = a\<lparr>remaining := steps, completed := completed a @ [(k, t)]\<rparr>"
    by (simp add: take_step_def vec_remove_def)
  show ?case
  proof (cases "kts = []")
    case True
    with take rem kt show ?thesis by (simp add: finish_login_def)
  next
    case False
    with rem(3) have "steps \<noteq> []" by auto
    with take Cons.IH [of "take_step k t a"] rem(3) False kt
    show ?thesis by (simp add: finish_login_def)
  qed
qed simp

subsection \<open>The transition system\<close>

text \<open>
  Everything that moves an \<^verbatim>\<open>AuthState\<close>: the transitions above, and the reset to
  \<open>Guest\<close> by which \<^verbatim>\<open>AuthSession::clear\<close> ends a session. A label records the transition
  and its arguments.
\<close>

datatype auth_op =
    OpIdentify user_id tenant_id
  | OpBegin user_id tenant_id string "factor_step list"
  | OpStepUp "factor_step list"
  | OpSetAuthenticated user_id tenant_id datetime
  | OpImpersonate user_id datetime
  | OpLdapGroups "string list"
  | OpWorkflow user_id tenant_id workflow_state
  | OpAdvance factor_kind datetime
  | OpAttempt datetime
  | OpClear

inductive auth_step :: "auth_state \<Rightarrow> auth_op \<Rightarrow> auth_state \<Rightarrow> bool" where
  step_identify: "auth_step st (OpIdentify u t) (set_identifying u t st)"
| step_begin: "auth_step st (OpBegin u t m steps) (begin_authenticating u t m steps st)"
| step_step_up: "begin_step_up steps st = (st', r) \<Longrightarrow> auth_step st (OpStepUp steps) st'"
| step_authenticated: "auth_step st (OpSetAuthenticated u t time) (set_authenticated u t time st)"
| step_impersonate: "set_impersonator adm at st = (st', r) \<Longrightarrow> auth_step st (OpImpersonate adm at) st'"
| step_groups: "auth_step st (OpLdapGroups gs) (set_ldap_groups gs st)"
| step_workflow: "auth_step st (OpWorkflow u t w) (set_pending_workflow u t w st)"
| step_advance: "advance_factor k time st = (st', r) \<Longrightarrow> auth_step st (OpAdvance k time) st'"
| step_attempt: "auth_step st (OpAttempt now) (record_attempt_at now st)"
| step_clear: "auth_step st OpClear Guest"

inductive auth_trace :: "auth_state \<Rightarrow> auth_op list \<Rightarrow> auth_state \<Rightarrow> bool" where
  trace_Nil: "auth_trace st [] st"
| trace_snoc: "auth_trace st ops st' \<Longrightarrow> auth_step st' op st'' \<Longrightarrow> auth_trace st (ops @ [op]) st''"

code_pred auth_step .

inductive_simps auth_step_simps [state_simps]:
  "auth_step st (OpIdentify u t) st'"
  "auth_step st (OpBegin u t m steps) st'"
  "auth_step st (OpStepUp steps) st'"
  "auth_step st (OpSetAuthenticated u t time) st'"
  "auth_step st (OpImpersonate adm at) st'"
  "auth_step st (OpLdapGroups gs) st'"
  "auth_step st (OpWorkflow u t w) st'"
  "auth_step st (OpAdvance k time) st'"
  "auth_step st (OpAttempt now) st'"
  "auth_step st OpClear st'"

inductive_cases auth_trace_NilE: "auth_trace st [] st'"

lemma auth_trace_append:
  "auth_trace st' ops' st'' \<Longrightarrow> auth_trace st ops st' \<Longrightarrow> auth_trace st (ops @ ops') st''"
proof (induction rule: auth_trace.induct)
  case trace_Nil
  then show ?case by simp
next
  case (trace_snoc st1 ops1 st2 op st3)
  then show ?case using auth_trace.trace_snoc by (metis append.assoc)
qed

lemma auth_trace_single: "auth_step st op st' \<Longrightarrow> auth_trace st [op] st'"
  using auth_trace.trace_snoc [OF auth_trace.trace_Nil] by fastforce

lemma auth_trace_Cons: "auth_step st op st' \<Longrightarrow> auth_trace st' ops st'' \<Longrightarrow> auth_trace st (op # ops) st''"
  using auth_trace_append auth_trace_single by fastforce

text \<open>Every state has exactly one successor per label.\<close>

lemma auth_step_total: "\<exists>st'. auth_step st op st'"
  by (cases op) (metis surj_pair auth_step.intros)+

lemma auth_step_det: "auth_step st op st1 \<Longrightarrow> auth_step st op st2 \<Longrightarrow> st1 = st2"
  by (cases op) (auto simp: state_simps)

text \<open>The factors a state records, finished or not.\<close>

fun recorded_factors :: "auth_state \<Rightarrow> completed_factor list" where
  "recorded_factors (Authenticating a) = completed a"
| "recorded_factors (Authenticated d) = factors_completed d"
| "recorded_factors _ = []"

lemma recorded_take_step:
  "completed (take_step k t a) = completed a \<or> completed (take_step k t a) = completed a @ [(k, t)]"
  by (cases rule: take_step_cases [of k t a]) simp_all

lemma recorded_advance:
  assumes "advance_factor k t st = (st', r)"
  shows "recorded_factors st' = recorded_factors st \<or>
    recorded_factors st' = recorded_factors st @ [(k, t)]"
proof (cases st)
  case (Authenticating a)
  with assms recorded_take_step [of k t a] show ?thesis
    by (auto simp: Let_def finish_login_def split: if_splits)
qed (use assms in auto)

lemma recorded_step:
  assumes "auth_step st op st'"
  shows "set (recorded_factors st') \<subseteq>
    set (recorded_factors st) \<union> {(k, t). op = OpAdvance k t}"
  using assms
proof (cases rule: auth_step.cases)
  case (step_step_up steps r)
  then show ?thesis by (cases st) auto
next
  case (step_impersonate adm at r)
  then show ?thesis by (cases st) auto
next
  case (step_groups gs)
  then show ?thesis by (cases st) auto
next
  case (step_advance k time r)
  from recorded_advance [OF step_advance(2)] step_advance(1) show ?thesis by auto
next
  case (step_attempt now)
  then show ?thesis by (cases st) auto
qed (simp_all add: state_simps)

lemma recorded_trace:
  "auth_trace st ops st' \<Longrightarrow>
     set (recorded_factors st') \<subseteq> set (recorded_factors st) \<union> {(k, t). OpAdvance k t \<in> set ops}"
proof (induction rule: auth_trace.induct)
  case (trace_snoc st ops st' op st'')
  from recorded_step [OF trace_snoc.hyps(2)] trace_snoc.IH show ?case by auto
qed simp

text \<open>The admin an impersonated session answers for, also while a step-up is in flight.\<close>

fun impersonator_in :: "auth_state \<Rightarrow> impersonation option" where
  "impersonator_in (Authenticating a) = ag_impersonator a"
| "impersonator_in (Authenticated d) = ad_impersonator d"
| "impersonator_in _ = None"

text \<open>The transitions that replace whoever the session belongs to, or who impersonates them.\<close>

fun replaces_identity :: "auth_op \<Rightarrow> bool" where
  "replaces_identity (OpIdentify _ _) = True"
| "replaces_identity (OpBegin _ _ _ _) = True"
| "replaces_identity (OpSetAuthenticated _ _ _) = True"
| "replaces_identity (OpImpersonate _ _) = True"
| "replaces_identity (OpWorkflow _ _ _) = True"
| "replaces_identity OpClear = True"
| "replaces_identity _ = False"

lemma identity_step:
  assumes "auth_step st op st'" "\<not> replaces_identity op"
  shows "impersonator_in st' = impersonator_in st \<and> pending_user_id st' = pending_user_id st \<and>
    state_tenant_id st' = state_tenant_id st"
  using assms
proof (cases rule: auth_step.cases)
  case (step_step_up steps r)
  then show ?thesis by (cases st) auto
next
  case (step_groups gs)
  then show ?thesis by (cases st) auto
next
  case (step_advance k time r)
  then show ?thesis by (cases st) (auto simp: Let_def finish_login_def split: if_splits)
next
  case (step_attempt now)
  then show ?thesis by (cases st) auto
qed simp_all

lemma identity_trace:
  "auth_trace st ops st' \<Longrightarrow> \<forall>op \<in> set ops. \<not> replaces_identity op \<Longrightarrow>
     impersonator_in st' = impersonator_in st \<and> pending_user_id st' = pending_user_id st \<and>
     state_tenant_id st' = state_tenant_id st"
proof (induction rule: auth_trace.induct)
  case (trace_snoc st ops st' op st'')
  then show ?case using identity_step [OF trace_snoc.hyps(2)] by simp
qed simp

subsection \<open>The stored shape\<close>

text \<open>
  \<^verbatim>\<open>session/data/wire.rs\<close>: what a stored state is read from. A list of steps or of completed
  factors may be in the earlier plain shape, a list of kinds; a field with a serde default may be
  missing (\<open>None\<close>). The earliest instant \<^verbatim>\<open>MIN_UTC\<close> marks a factor with no time of its own
  until the conversion stamps it.
\<close>

datatype step_or_kind = WireStep factor_step | WireKind factor_kind

datatype completed_entry = TimedEntry factor_kind datetime | KindEntry factor_kind

fun read_step :: "step_or_kind \<Rightarrow> factor_step" where
  "read_step (WireStep step) = step"
| "read_step (WireKind kind) = Required kind"

definition deserialize_remaining_steps :: "step_or_kind list \<Rightarrow> factor_step list" where
  "deserialize_remaining_steps items = map read_step items"

abbreviation legacy_factor_time :: "time_limits \<Rightarrow> datetime" where
  "legacy_factor_time \<equiv> min_utc"

fun read_entry :: "time_limits \<Rightarrow> completed_entry \<Rightarrow> completed_factor" where
  "read_entry lim (TimedEntry kind time) = (kind, time)"
| "read_entry lim (KindEntry kind) = (kind, legacy_factor_time lim)"

definition deserialize_completed ::
  "time_limits \<Rightarrow> completed_entry list option \<Rightarrow> completed_factor list" where
  "deserialize_completed lim items =
     (case items of None \<Rightarrow> [] | Some es \<Rightarrow> map (read_entry lim) es)"

record authenticating_wire =
  agw_user_id :: user_id
  agw_tenant_id :: tenant_id
  agw_method_name :: string
  agw_remaining :: "step_or_kind list"
  agw_completed :: "completed_entry list option"
  agw_attempt_count :: u32
  agw_last_attempt :: "datetime option"
  agw_ldap_groups :: "string list option"
  agw_impersonator :: "impersonation option"

record authenticated_wire =
  adw_user_id :: user_id
  adw_tenant_id :: tenant_id
  adw_authn_time :: datetime
  adw_factors_completed :: "completed_entry list option"
  adw_impersonator :: "impersonation option"
  adw_ldap_groups :: "string list option"

datatype auth_state_wire =
    WGuest
  | WIdentifying user_id tenant_id
  | WAuthenticating authenticating_wire
  | WAuthenticated authenticated_wire
  | WPendingWorkflow user_id tenant_id workflow_state

definition stamp_legacy ::
  "time_limits \<Rightarrow> datetime \<Rightarrow> completed_factor list \<Rightarrow> completed_factor list" where
  "stamp_legacy lim time factors =
     map (\<lambda>(k, at). (k, if at = legacy_factor_time lim then time else at)) factors"

fun from_wire :: "time_limits \<Rightarrow> auth_state_wire \<Rightarrow> auth_state" where
  "from_wire lim WGuest = Guest"
| "from_wire lim (WIdentifying u t) = Identifying u t"
| "from_wire lim (WAuthenticating w) = Authenticating
     \<lparr>ag_user_id = agw_user_id w, ag_tenant_id = agw_tenant_id w,
      method_name = agw_method_name w,
      remaining = deserialize_remaining_steps (agw_remaining w),
      completed = stamp_legacy lim 0 (deserialize_completed lim (agw_completed w)),
      attempt_count = agw_attempt_count w, last_attempt = agw_last_attempt w,
      ag_ldap_groups = agw_ldap_groups w, ag_impersonator = agw_impersonator w\<rparr>"
| "from_wire lim (WAuthenticated w) = Authenticated
     \<lparr>ad_user_id = adw_user_id w, ad_tenant_id = adw_tenant_id w,
      authn_time = adw_authn_time w,
      factors_completed =
        stamp_legacy lim (adw_authn_time w) (deserialize_completed lim (adw_factors_completed w)),
      ad_impersonator = adw_impersonator w, ad_ldap_groups = adw_ldap_groups w\<rparr>"
| "from_wire lim (WPendingWorkflow u t w) = PendingWorkflow u t w"

text \<open>The shape the derived \<^verbatim>\<open>Serialize\<close> of \<^verbatim>\<open>AuthState\<close> writes: steps, and factors with times.\<close>

fun to_wire :: "auth_state \<Rightarrow> auth_state_wire" where
  "to_wire Guest = WGuest"
| "to_wire (Identifying u t) = WIdentifying u t"
| "to_wire (Authenticating a) = WAuthenticating
     \<lparr>agw_user_id = ag_user_id a, agw_tenant_id = ag_tenant_id a,
      agw_method_name = method_name a, agw_remaining = map WireStep (remaining a),
      agw_completed = Some (map (\<lambda>(k, t). TimedEntry k t) (completed a)),
      agw_attempt_count = attempt_count a, agw_last_attempt = last_attempt a,
      agw_ldap_groups = ag_ldap_groups a, agw_impersonator = ag_impersonator a\<rparr>"
| "to_wire (Authenticated d) = WAuthenticated
     \<lparr>adw_user_id = ad_user_id d, adw_tenant_id = ad_tenant_id d,
      adw_authn_time = authn_time d,
      adw_factors_completed = Some (map (\<lambda>(k, t). TimedEntry k t) (factors_completed d)),
      adw_impersonator = ad_impersonator d, adw_ldap_groups = ad_ldap_groups d\<rparr>"
| "to_wire (PendingWorkflow u t w) = WPendingWorkflow u t w"

text \<open>The time a wire state's conversion stamps the factors without one with.\<close>

fun stamp_time :: "auth_state_wire \<Rightarrow> datetime" where
  "stamp_time (WAuthenticated w) = adw_authn_time w"
| "stamp_time _ = 0"

fun wire_entries :: "auth_state_wire \<Rightarrow> completed_entry list" where
  "wire_entries (WAuthenticating w) = (case agw_completed w of None \<Rightarrow> [] | Some es \<Rightarrow> es)"
| "wire_entries (WAuthenticated w) = (case adw_factors_completed w of None \<Rightarrow> [] | Some es \<Rightarrow> es)"
| "wire_entries _ = []"

lemma read_steps_back [simp]: "deserialize_remaining_steps (map WireStep steps) = steps"
  by (induction steps) (simp_all add: deserialize_remaining_steps_def)

lemma read_completed_back [simp]:
  "deserialize_completed lim (Some (map (\<lambda>(k, t). TimedEntry k t) kts)) = kts"
  by (induction kts) (auto simp: deserialize_completed_def)

lemma stamp_legacy_id:
  "\<forall>(k, t) \<in> set kts. t \<noteq> legacy_factor_time lim \<Longrightarrow> stamp_legacy lim time kts = kts"
  by (induction kts) (auto simp: stamp_legacy_def)

subsection \<open>Properties\<close>

text \<open>
  C1. No factor is bypassed. A login begun with a non-empty list of steps that ends
  \<open>Authenticated\<close> records, in the order they were presented, one accepted factor for every step
  of the method and nothing else, for the user and tenant it began with, no impersonator, and the
  authentication time of the last accepted factor.
\<close>

theorem login_needs_every_factor:
  assumes "steps \<noteq> []"
    and "advance_all kts (begin_authenticating u t m steps st) = Authenticated d"
  shows "answers steps (factors_completed d) \<and> subseq (factors_completed d) kts \<and>
    ad_user_id d = u \<and> ad_tenant_id d = t \<and> ad_impersonator d = None \<and>
    authn_time d = snd (last (factors_completed d))"
  using advance_all_finished [OF _ assms(2) [unfolded begin_authenticating_def]] assms(1) by auto

theorem login_needs_every_factor_witness:
  "answers [Required Password, AnyOf [Totp, Fido2]] [(Password, 10), (Fido2, 30)]"
  using login_needs_every_factor [of "[Required Password, AnyOf [Totp, Fido2]]"
      "[(EmailOtp, 5), (Password, 10), (Password, 20), (Fido2, 30)]" 1 2 "''mfa''" Guest
      "\<lparr>ad_user_id = 1, ad_tenant_id = 2, authn_time = 30,
        factors_completed = [(Password, 10), (Fido2, 30)],
        ad_impersonator = None, ad_ldap_groups = None\<rparr>"]
  by (simp add: begin_authenticating_def take_step_def vec_remove_def finish_login_def)

text \<open>
  C6. Presenting, in the order of the method's steps, one factor each step accepts completes the
  login: no further factor is asked for, and the session is authenticated with exactly those
  factors and the time of the last of them.
\<close>

theorem login_completes_in_order:
  assumes "list_all2 (\<lambda>s kt. accepts s (fst kt)) steps kts" and "steps \<noteq> []"
  shows "advance_all kts (begin_authenticating u t m steps st) = Authenticated
    \<lparr>ad_user_id = u, ad_tenant_id = t, authn_time = snd (last kts), factors_completed = kts,
     ad_impersonator = None, ad_ldap_groups = None\<rparr>"
proof -
  from assms have "kts \<noteq> []" by auto
  with assms(1) show ?thesis
    by (simp add: begin_authenticating_def advance_all_in_order finish_login_def)
qed

theorem login_completes_in_order_witness:
  "is_authenticated (advance_all [(Password, 10), (Totp, 20)]
     (begin_authenticating 1 2 ''mfa'' [Required Password, Required Totp] Guest))"
  using login_completes_in_order [of "[Required Password, Required Totp]"
      "[(Password, 10), (Totp, 20)]" 1 2 "''mfa''" Guest]
  by simp

text \<open>
  C3. A step-up that completes keeps the session's user, tenant, impersonator and directory
  groups, keeps every factor the session held as a prefix and adds one accepted factor per asked
  step, so the time at which any factor was last completed never moves back.
\<close>

theorem step_up_keeps_session:
  assumes "steps \<noteq> []"
    and "advance_all kts (fst (begin_step_up steps (Authenticated d))) = Authenticated d'"
  shows "\<exists>extra. answers steps extra \<and> subseq extra kts \<and>
    d' = d\<lparr>authn_time := snd (last extra), factors_completed := factors_completed d @ extra\<rparr> \<and>
    (\<forall>kind time. factor_completed_at kind (Authenticated d) = Some time \<longrightarrow>
       (\<exists>time' \<ge> time. factor_completed_at kind (Authenticated d') = Some time'))"
proof -
  from advance_all_finished [OF _ assms(2) [unfolded begin_step_up.simps fst_conv]] assms(1)
  obtain extra where extra: "answers steps extra" "subseq extra kts"
    "d' = d\<lparr>authn_time := snd (last extra), factors_completed := factors_completed d @ extra\<rparr>"
    by (cases d) auto
  have "\<exists>time' \<ge> time. factor_completed_at kind (Authenticated d') = Some time'"
    if "factor_completed_at kind (Authenticated d) = Some time" for kind time
  proof -
    let ?times = "\<lambda>e. map snd (filter (\<lambda>kt. fst kt = kind) (factors_completed e))"
    from that have mem: "time \<in> set (?times d')" using list_max_mem extra(3) by fastforce
    then have "list_max (?times d') \<noteq> None" by (metis list_max_eq_None emptyE list.set(1))
    then obtain time' where max: "list_max (?times d') = Some time'" by blast
    from list_max_ge [OF max mem] max show ?thesis by auto
  qed
  with extra show ?thesis by blast
qed

theorem step_up_keeps_session_witness:
  "\<exists>extra. answers [Required Totp] extra \<and> subseq extra [(Totp, 90)]"
proof -
  let ?d = "\<lparr>ad_user_id = 1, ad_tenant_id = 2, authn_time = 10,
    factors_completed = [(Password, 10)],
    ad_impersonator = Some \<lparr>admin = 7, since = 10\<rparr>, ad_ldap_groups = None\<rparr>"
  have "advance_all [(Totp, 90)] (fst (begin_step_up [Required Totp] (Authenticated ?d))) =
      Authenticated (?d\<lparr>authn_time := 90, factors_completed := [(Password, 10), (Totp, 90)]\<rparr>)"
    by (simp add: take_step_def vec_remove_def finish_login_def)
  from step_up_keeps_session [OF _ this] show ?thesis by blast
qed

text \<open>
  C2. An impersonated session cannot shed its impersonator, change its user or its tenant, other
  than by a transition that starts a new identity, marks another impersonation or ends the
  session: step-ups (completed or not), factors, directory groups and failed attempts keep them.
\<close>

theorem impersonation_is_kept:
  assumes "auth_trace (Authenticated d) ops (Authenticated d')"
    and "\<forall>op \<in> set ops. \<not> replaces_identity op"
  shows "ad_impersonator d' = ad_impersonator d \<and> ad_user_id d' = ad_user_id d \<and>
    ad_tenant_id d' = ad_tenant_id d"
  using identity_trace [OF assms] by simp

theorem impersonation_is_kept_witness:
  "ad_impersonator \<lparr>ad_user_id = 1, ad_tenant_id = 2, authn_time = 90,
     factors_completed = [(Totp, 90)], ad_impersonator = Some \<lparr>admin = 7, since = 10\<rparr>,
     ad_ldap_groups = None\<rparr> = Some \<lparr>admin = 7, since = 10\<rparr>"
proof -
  let ?d = "\<lparr>ad_user_id = 1, ad_tenant_id = 2, authn_time = 10, factors_completed = [],
    ad_impersonator = Some \<lparr>admin = 7, since = 10\<rparr>, ad_ldap_groups = None\<rparr>"
  have "auth_trace (Authenticated ?d) [OpStepUp [Required Totp], OpAttempt 80, OpAdvance Totp 90]
      (Authenticated (?d\<lparr>authn_time := 90, factors_completed := [(Totp, 90)]\<rparr>))"
    by (intro auth_trace_Cons [OF step_step_up [OF surjective_pairing]]
          auth_trace_Cons [OF step_attempt] auth_trace_Cons [OF step_advance [OF surjective_pairing]])
       (simp add: take_step_def vec_remove_def finish_login_def auth_trace.trace_Nil)
  from impersonation_is_kept [OF this] show ?thesis by simp
qed

text \<open>
  A factor a session records as completed was presented: in every state reachable from a
  guest, each recorded factor with its time is one that a successful verification advanced the
  session with.
\<close>

lemma recorded_factors_were_presented:
  assumes "auth_trace Guest ops st" and "(kind, time) \<in> set (recorded_factors st)"
  shows "OpAdvance kind time \<in> set ops"
  using recorded_trace [OF assms(1)] assms(2) by auto

text \<open>
  C7. A stored state reads back as it was written, whatever the time library's earliest instant
  is, as long as no recorded factor carries that instant.
\<close>

theorem wire_round_trip:
  assumes "\<forall>(k, t) \<in> set (recorded_factors st). t \<noteq> min_utc lim"
  shows "from_wire lim (to_wire st) = st"
  using assms by (cases st) (simp_all add: stamp_legacy_id)

theorem wire_round_trip_witness:
  "from_wire \<lparr>min_utc = -100, max_utc = 100, max_delta = 100\<rparr>
     (to_wire (set_authenticated 1 2 50 Guest)) = set_authenticated 1 2 50 Guest"
  using wire_round_trip [of "set_authenticated 1 2 50 Guest" "\<lparr>min_utc = -100, max_utc = 100, max_delta = 100\<rparr>"]
  by (simp add: set_authenticated_def)

text \<open>
  A state written by an earlier release, whose factors have no times, is read with every
  factor kept in order and each factor without a time stamped with the session's authentication
  time (or the epoch, mid-login): the marking instant never survives the read, so such a factor
  counts as no fresher than the login itself.
\<close>

lemma legacy_factors_are_stamped:
  assumes "stamp_time w \<noteq> min_utc lim"
  shows "recorded_factors (from_wire lim w) = map (\<lambda>e. case e of
      TimedEntry k t \<Rightarrow> (k, if t = min_utc lim then stamp_time w else t)
    | KindEntry k \<Rightarrow> (k, stamp_time w)) (wire_entries w) \<and>
    min_utc lim \<notin> snd ` set (recorded_factors (from_wire lim w))"
proof -
  have "recorded_factors (from_wire lim w) = map (\<lambda>e. case e of
      TimedEntry k t \<Rightarrow> (k, if t = min_utc lim then stamp_time w else t)
    | KindEntry k \<Rightarrow> (k, stamp_time w)) (wire_entries w)"
    by (cases w) (auto simp: stamp_legacy_def deserialize_completed_def
        split: option.split completed_entry.split)
  then show ?thesis using assms by (auto split: completed_entry.splits if_splits)
qed

end
