(* ===== verification/Session_Data.thy ===== *)
theory Session_Data
  imports Auth_State
begin

section \<open>The session payload and its three-way merge\<close>

text \<open>
  \<^verbatim>\<open>axess-core/src/session/data.rs\<close> (the record \<^verbatim>\<open>SessionData\<close>, its migration, what a login keeps
  of the custom bag, the size cap) and \<^verbatim>\<open>session/data/merge.rs\<close> (the merge of two concurrent
  writes). The compact JSON serializer is a third-party function, the parameter \<open>ser\<close>; only the
  length of what it writes is used.
\<close>

subsection \<open>The record\<close>

abbreviation SESSION_DATA_VERSION :: u8 where
  "SESSION_DATA_VERSION \<equiv> 2"

record session_data =
  version :: u8
  auth_state :: auth_state
  fingerprint :: "string option"
  data_device_id :: "device_id option"
  custom :: json
  revision :: u64
  touched_at :: "datetime option"

definition default_version :: u8 where
  "default_version = 1"

definition session_data_default :: session_data where
  "session_data_default =
     \<lparr>version = SESSION_DATA_VERSION, auth_state = Guest, fingerprint = None,
      data_device_id = None, custom = JNull, revision = 0, touched_at = None\<rparr>"

text \<open>The second component says whether the session should be saved again.\<close>

definition migrate :: "session_data \<Rightarrow> session_data \<times> bool" where
  "migrate d =
     (if SESSION_DATA_VERSION \<le> version d then (d, False)
      else (if version d = 1 then d\<lparr>version := 2\<rparr> else d, True))"

definition LOGIN_FLOW_KEY :: string where
  "LOGIN_FLOW_KEY = ''axess.login.flow''"

definition retain_across_login :: "string list \<Rightarrow> json \<Rightarrow> json" where
  "retain_across_login preserved bag =
     (case bag of
        JObject m \<Rightarrow> JObject (bt_retain (\<lambda>key. key = LOGIN_FLOW_KEY \<or> key \<in> set preserved) m)
      | _ \<Rightarrow> JNull)"

type_synonym json_ser = "json \<Rightarrow> string"

definition json_byte_len :: "json_ser \<Rightarrow> json \<Rightarrow> nat" where
  "json_byte_len ser v = length (ser v)"

definition cap_custom :: "json_ser \<Rightarrow> nat \<Rightarrow> json \<Rightarrow> json" where
  "cap_custom ser max_bytes bag =
     (if max_bytes = 0 then bag
      else if json_byte_len ser bag > max_bytes then JNull else bag)"

subsection \<open>The merge\<close>

definition pick :: "'a \<Rightarrow> 'a \<Rightarrow> 'a \<Rightarrow> 'a" where
  "pick base loc fresh = (if loc \<noteq> base then loc else fresh)"

text \<open>One pass of the loop of \<^verbatim>\<open>merge_bags\<close>, for one key.\<close>

definition merge_key :: "json btree \<Rightarrow> json btree \<Rightarrow> string \<Rightarrow> json btree \<Rightarrow> json btree" where
  "merge_key base loc key merged =
     (if bt_get base key = bt_get loc key then merged
      else case bt_get loc key of
             Some v \<Rightarrow> bt_insert key v merged
           | None \<Rightarrow> bt_remove key merged)"

definition collect_held :: "json btree \<Rightarrow> json btree \<Rightarrow> json btree" where
  "collect_held loc fresh =
     fold (\<lambda>key m. case bt_get fresh key of Some v \<Rightarrow> bt_insert key v m | None \<Rightarrow> m)
       (bt_keys loc) []"

definition merge_bags :: "json btree \<Rightarrow> json btree \<Rightarrow> json btree \<Rightarrow> bool \<Rightarrow> json btree" where
  "merge_bags base loc fresh keep_additions =
     fold (merge_key base loc) (bt_keys base @ bt_keys loc)
       (if keep_additions then fresh else collect_held loc fresh)"

definition merge_custom :: "json \<Rightarrow> json \<Rightarrow> json \<Rightarrow> bool \<Rightarrow> json" where
  "merge_custom base loc fresh keep_additions =
     (if \<not> (is_object base \<or> is_object loc \<or> is_object fresh) then pick base loc fresh
      else JObject (merge_bags (obj_map base) (obj_map loc) (obj_map fresh) keep_additions))"

definition merge_data :: "session_data \<Rightarrow> session_data \<Rightarrow> session_data \<Rightarrow> bool \<Rightarrow> session_data" where
  "merge_data base loc fresh keep_additions =
     \<lparr>version = pick (version base) (version loc) (version fresh),
      auth_state = pick (auth_state base) (auth_state loc) (auth_state fresh),
      fingerprint = pick (fingerprint base) (fingerprint loc) (fingerprint fresh),
      data_device_id = pick (data_device_id base) (data_device_id loc) (data_device_id fresh),
      custom = merge_custom (custom base) (custom loc) (custom fresh) keep_additions,
      revision = revision fresh,
      touched_at = touched_at fresh\<rparr>"

definition merge_concurrent :: "session_data \<Rightarrow> session_data \<Rightarrow> session_data \<Rightarrow> session_data" where
  "merge_concurrent base loc fresh = merge_data base loc fresh True"

definition merge_rotating :: "session_data \<Rightarrow> session_data \<Rightarrow> session_data \<Rightarrow> session_data" where
  "merge_rotating base loc fresh =
     merge_data base loc fresh (auth_state loc = auth_state base)"

lemmas merge_defs [state_simps] = merge_concurrent_def merge_rotating_def merge_data_def

subsection \<open>What a merged bag holds\<close>

lemma bt_get_merge_key [simp]:
  "bt_get (merge_key base loc key m) k =
     (if k = key \<and> bt_get base k \<noteq> bt_get loc k then bt_get loc k else bt_get m k)"
  by (auto simp: merge_key_def split: option.split)

lemma bt_wf_merge_key [simp]: "bt_wf m \<Longrightarrow> bt_wf (merge_key base loc key m)"
  by (auto simp: merge_key_def split: option.split)

lemma bt_get_fold_merge_key:
  "bt_get (fold (merge_key base loc) ks m) k =
     (if k \<in> set ks \<and> bt_get base k \<noteq> bt_get loc k then bt_get loc k else bt_get m k)"
  by (induction ks arbitrary: m) auto

lemma bt_wf_fold_merge_key: "bt_wf m \<Longrightarrow> bt_wf (fold (merge_key base loc) ks m)"
  by (induction ks arbitrary: m) auto

lemma bt_get_fold_collect:
  "bt_get (fold (\<lambda>key m. case bt_get fresh key of Some v \<Rightarrow> bt_insert key v m | None \<Rightarrow> m) ks m) k =
     (if k \<in> set ks \<and> bt_get fresh k \<noteq> None then bt_get fresh k else bt_get m k)"
  by (induction ks arbitrary: m) (auto split: option.split)

lemma bt_get_collect_held [simp]:
  "bt_get (collect_held loc fresh) k = (if bt_get loc k = None then None else bt_get fresh k)"
  by (auto simp: collect_held_def bt_get_fold_collect set_bt_keys)

lemma bt_wf_collect_held [simp]: "bt_wf (collect_held loc fresh)"
proof -
  have "bt_wf m \<Longrightarrow> bt_wf (fold (\<lambda>key m. case bt_get fresh key of Some v \<Rightarrow> bt_insert key v m
      | None \<Rightarrow> m) ks m)" for ks m
    by (induction ks arbitrary: m) (auto split: option.split)
  then show ?thesis by (simp add: collect_held_def)
qed

lemma bt_get_merge_bags:
  "bt_get (merge_bags base loc fresh keep) k =
     (if bt_get loc k \<noteq> bt_get base k then bt_get loc k
      else if keep \<or> bt_get loc k \<noteq> None then bt_get fresh k else None)"
  by (auto simp: merge_bags_def bt_get_fold_merge_key set_bt_keys)

lemma bt_wf_merge_bags [simp]: "bt_wf fresh \<Longrightarrow> bt_wf (merge_bags base loc fresh keep)"
  by (simp add: merge_bags_def bt_wf_fold_merge_key)

lemma json_get_merge_custom:
  "json_get (merge_custom base loc fresh keep) k =
     (if json_get loc k \<noteq> json_get base k then json_get loc k
      else if keep \<or> json_get loc k \<noteq> None then json_get fresh k else None)"
  by (auto simp: merge_custom_def json_get_obj_map bt_get_merge_bags obj_map_not_object pick_def)

lemma json_wf_merge_custom [simp]:
  "json_wf base \<Longrightarrow> json_wf loc \<Longrightarrow> json_wf fresh \<Longrightarrow> json_wf (merge_custom base loc fresh keep)"
  by (auto simp: merge_custom_def pick_def json_wf_def)

lemma merge_bags_unchanged: "bt_wf fresh \<Longrightarrow> merge_bags m m fresh True = fresh"
  by (rule bt_ext) (simp_all add: bt_get_merge_bags)

lemma merge_bags_no_conflict:
  "bt_wf loc \<Longrightarrow> bt_wf base \<Longrightarrow> merge_bags base loc base keep = loc"
  by (rule bt_ext) (auto simp: bt_get_merge_bags)

subsection \<open>Migration, retention and the cap\<close>

lemma u8_below_2: "\<not> (2 :: u8) \<le> v \<Longrightarrow> v = 0 \<or> v = 1"
  by (simp add: word_le_nat_alt not_le less_2_cases_iff unat_eq_zero)
     (metis One_nat_def unat_1 word_unat_eq_iff)

lemma migrate_version: "version d \<noteq> 0 \<Longrightarrow> 2 \<le> version (fst (migrate d))"
  using u8_below_2 [of "version d"] by (auto simp: migrate_def)

lemma migrate_keeps [simp]:
  "auth_state (fst (migrate d)) = auth_state d"
  "fingerprint (fst (migrate d)) = fingerprint d"
  "data_device_id (fst (migrate d)) = data_device_id d"
  "custom (fst (migrate d)) = custom d"
  "revision (fst (migrate d)) = revision d"
  "touched_at (fst (migrate d)) = touched_at d"
  by (simp_all add: migrate_def)

text \<open>A second migration has nothing to do, except for the version no release wrote.\<close>

lemma migrate_again: "snd (migrate (fst (migrate d))) \<longleftrightarrow> version d = 0"
  using u8_below_2 [of "version d"] by (auto simp: migrate_def)

lemma json_get_retain [simp]:
  "json_get (retain_across_login preserved bag) k =
     (if k = LOGIN_FLOW_KEY \<or> k \<in> set preserved then json_get bag k else None)"
  by (cases bag) (simp_all add: retain_across_login_def json_get_def)

lemma json_wf_retain [simp]: "json_wf bag \<Longrightarrow> json_wf (retain_across_login preserved bag)"
  by (cases bag) (simp_all add: retain_across_login_def)

lemma cap_custom_bound:
  "0 < max_bytes \<Longrightarrow>
     json_byte_len ser (cap_custom ser max_bytes bag) \<le> max max_bytes (json_byte_len ser JNull)"
  by (auto simp: cap_custom_def)

lemma cap_custom_cases: "cap_custom ser n bag = bag \<or> cap_custom ser n bag = JNull"
  by (simp add: cap_custom_def)

lemma json_get_cap_custom: "json_get (cap_custom ser n bag) k = Some v \<Longrightarrow> json_get bag k = Some v"
  using cap_custom_cases [of ser n bag] by auto

lemma json_wf_cap_custom [simp]: "json_wf bag \<Longrightarrow> json_wf (cap_custom ser n bag)"
  using cap_custom_cases [of ser n bag] by auto

subsection \<open>Properties\<close>


text \<open>
  Two requests that changed different keys of the bag they both loaded end in the same bag
  whichever of them is written first, and that bag has every change of both.
\<close>

lemma merge_order_irrelevant:
  assumes "\<forall>k. json_get (custom a) k = json_get (custom base) k \<or>
               json_get (custom b) k = json_get (custom base) k"
  shows "json_get (custom (merge_concurrent base a b)) k = json_get (custom (merge_concurrent base b a)) k \<and>
    (json_get (custom a) k \<noteq> json_get (custom base) k \<longrightarrow>
       json_get (custom (merge_concurrent base b a)) k = json_get (custom a) k) \<and>
    (json_get (custom b) k \<noteq> json_get (custom base) k \<longrightarrow>
       json_get (custom (merge_concurrent base b a)) k = json_get (custom b) k)"
  using assms [rule_format, of k]
  by (auto simp: merge_concurrent_def merge_data_def json_get_merge_custom)

text \<open>
  C5. A rotation that changed the authentication state (a login, a logout, a step-up) takes no
  key from the retired row that its own bag does not hold, so a value planted before the login
  cannot ride into the authenticated session; and a key another request took meanwhile stays
  taken unless this request set it anew.
\<close>

theorem rotating_merge_plants_nothing:
  assumes "auth_state loc \<noteq> auth_state base"
  shows "auth_state (merge_rotating base loc fresh) = auth_state loc \<and>
    (json_get (custom loc) k = None \<longrightarrow> json_get (custom (merge_rotating base loc fresh)) k = None) \<and>
    (json_get (custom loc) k = json_get (custom base) k \<longrightarrow> json_get (custom fresh) k = None \<longrightarrow>
       json_get (custom (merge_rotating base loc fresh)) k = None)"
  using assms by (auto simp: merge_rotating_def merge_data_def json_get_merge_custom pick_def)

theorem rotating_merge_plants_nothing_witness:
  "json_get (custom (merge_rotating session_data_default
     (session_data_default\<lparr>auth_state := set_authenticated 1 2 50 Guest\<rparr>)
     (session_data_default\<lparr>custom := JObject [(''planted'', JNull)]\<rparr>))) ''planted'' = None"
  using rotating_merge_plants_nothing [of "session_data_default\<lparr>auth_state := set_authenticated 1 2 50 Guest\<rparr>"
      session_data_default "session_data_default\<lparr>custom := JObject [(''planted'', JNull)]\<rparr>" "''planted''"]
  by (simp add: session_data_default_def set_authenticated_def)

end
