(* ===== verification/Kv_Store.thy ===== *)
theory Kv_Store
  imports Axess_Prelude "HOL-Library.AList"
begin

section \<open>The in-memory key-stored store with deadlines\<close>

text \<open>
  \<^verbatim>\<open>axess-core/src/store/memory.rs\<close>: \<^verbatim>\<open>MemoryStore<K, V>\<close>, which the in-memory session store and
  the in-memory refresh-token store wrap. The hash map is an association list with distinct keys;
  its iteration order stands for the unspecified order of the hash map. Every operation of the
  source is one step under the map's lock, so each is one function of the state here. The clock
  is shared: its reading is a field, which the environment advances.
\<close>

subsection \<open>State and operations\<close>

record 'v entry =
  stored :: 'v
  expires_at :: datetime

record ('k, 'v) memory_store =
  inner :: "('k \<times> 'v entry) list"
  clock_now :: datetime
  limits :: time_limits

definition kv_new :: "time_limits \<Rightarrow> datetime \<Rightarrow> ('k, 'v) memory_store" where
  "kv_new lim t = \<lparr>inner = [], clock_now = t, limits = lim\<rparr>"

text \<open>The entry under a key while its deadline is in the future.\<close>

definition live_entry :: "('k, 'v) memory_store \<Rightarrow> 'k \<Rightarrow> 'v entry option" where
  "live_entry s k =
     (case map_of (inner s) k of
        Some e \<Rightarrow> if clock_now s < expires_at e then Some e else None
      | None \<Rightarrow> None)"

definition snapshot :: "('k, 'v) memory_store \<Rightarrow> ('k \<times> 'v) list" where
  "snapshot s =
     map (\<lambda>(k, e). (k, stored e)) (filter (\<lambda>(_, e). clock_now s < expires_at e) (inner s))"

definition deadline :: "time_limits \<Rightarrow> datetime \<Rightarrow> duration \<Rightarrow> datetime" where
  "deadline lim t ttl =
     (case Option.bind (from_std lim ttl) (checked_add_signed lim t) of
        Some d \<Rightarrow> d
      | None \<Rightarrow> max_utc lim)"

definition kv_get :: "'k \<Rightarrow> ('k, 'v) memory_store \<Rightarrow> 'v option" where
  "kv_get k s = map_option stored (live_entry s k)"

definition kv_put :: "'k \<Rightarrow> 'v \<Rightarrow> duration \<Rightarrow> ('k, 'v) memory_store \<Rightarrow> ('k, 'v) memory_store" where
  "kv_put k v ttl s =
     s\<lparr>inner := AList.update k \<lparr>stored = v, expires_at = deadline (limits s) (clock_now s) ttl\<rparr>
        (inner s)\<rparr>"

definition kv_delete :: "'k \<Rightarrow> ('k, 'v) memory_store \<Rightarrow> ('k, 'v) memory_store" where
  "kv_delete k s = s\<lparr>inner := AList.delete k (inner s)\<rparr>"

definition kv_update ::
  "'k \<Rightarrow> ('v \<Rightarrow> 'v) \<Rightarrow> ('k, 'v) memory_store \<Rightarrow> bool \<times> ('k, 'v) memory_store" where
  "kv_update k f s =
     (case live_entry s k of
        Some e \<Rightarrow> (True, s\<lparr>inner := AList.update k (e\<lparr>stored := f (stored e)\<rparr>) (inner s)\<rparr>)
      | None \<Rightarrow> (False, s))"

definition replace_live ::
  "'k \<Rightarrow> 'v \<Rightarrow> duration \<Rightarrow> ('k, 'v) memory_store \<Rightarrow> bool \<times> ('k, 'v) memory_store" where
  "replace_live k v ttl s =
     (case live_entry s k of
        Some e \<Rightarrow> (True, kv_put k v ttl s)
      | None \<Rightarrow> (False, s))"

definition replace_live_if ::
  "'k \<Rightarrow> 'v \<Rightarrow> duration \<Rightarrow> ('v \<Rightarrow> bool) \<Rightarrow> ('k, 'v) memory_store \<Rightarrow>
     bool option \<times> ('k, 'v) memory_store" where
  "replace_live_if k v ttl matches s =
     (case live_entry s k of
        Some e \<Rightarrow> if \<not> matches (stored e) then (Some False, s) else (Some True, kv_put k v ttl s)
      | None \<Rightarrow> (None, s))"

definition remove_live_if ::
  "'k \<Rightarrow> ('v \<Rightarrow> bool) \<Rightarrow> ('k, 'v) memory_store \<Rightarrow> bool option \<times> ('k, 'v) memory_store" where
  "remove_live_if k matches s =
     (case live_entry s k of
        Some e \<Rightarrow> if \<not> matches (stored e) then (Some False, s) else (Some True, kv_delete k s)
      | None \<Rightarrow> (None, s))"

definition remove_live :: "'k \<Rightarrow> ('k, 'v) memory_store \<Rightarrow> bool \<times> ('k, 'v) memory_store" where
  "remove_live k s = (live_entry s k \<noteq> None, kv_delete k s)"

definition prune_expired_sync :: "('k, 'v) memory_store \<Rightarrow> u64 \<times> ('k, 'v) memory_store" where
  "prune_expired_sync s =
     (of_nat (length (filter (\<lambda>(_, e). \<not> clock_now s < expires_at e) (inner s))),
      s\<lparr>inner := filter (\<lambda>(_, e). clock_now s < expires_at e) (inner s)\<rparr>)"

definition kv_len :: "('k, 'v) memory_store \<Rightarrow> nat" where
  "kv_len s = length (inner s)"

definition kv_is_empty :: "('k, 'v) memory_store \<Rightarrow> bool" where
  "kv_is_empty s \<longleftrightarrow> inner s = []"

definition physically_contains_key :: "'k \<Rightarrow> ('k, 'v) memory_store \<Rightarrow> bool" where
  "physically_contains_key k s \<longleftrightarrow> map_of (inner s) k \<noteq> None"

text \<open>Time passes: the only thing the environment of a store does to it.\<close>

definition kv_tick :: "duration \<Rightarrow> ('k, 'v) memory_store \<Rightarrow> ('k, 'v) memory_store" where
  "kv_tick d s = s\<lparr>clock_now := clock_now s + int d\<rparr>"

subsection \<open>Invariant and abstraction\<close>

text \<open>
  A hash map has one entry per key, and the clock reads an instant before the last one the time
  library represents. The abstraction of a store is the map of its live values.
\<close>

definition kv_wf :: "('k, 'v) memory_store \<Rightarrow> bool" where
  "kv_wf s \<longleftrightarrow> distinct (map fst (inner s)) \<and> in_time (limits s) (clock_now s) \<and>
     clock_now s < max_utc (limits s)"

definition live :: "('k, 'v) memory_store \<Rightarrow> 'k \<Rightarrow> 'v option" where
  "live s k = kv_get k s"

lemma live_entry_live: "live s k = map_option stored (live_entry s k)"
  by (simp add: live_def kv_get_def)

lemma live_None: "live_entry s k = None \<longleftrightarrow> live s k = None"
  by (simp add: live_entry_live)

lemma deadline_after:
  assumes "in_time lim t" "t < max_utc lim" "0 < ttl"
  shows "t < deadline lim t ttl"
  using assms by (auto simp: deadline_def in_time_def time_simps split: option.splits if_splits)

lemma deadline_zero: "in_time lim t \<Longrightarrow> 0 \<le> max_delta lim \<Longrightarrow> deadline lim t 0 = t"
  by (simp add: deadline_def in_time_def time_simps)

lemma live_kv_put_other [simp]: "j \<noteq> k \<Longrightarrow> live (kv_put k v ttl s) j = live s j"
  by (simp add: live_def kv_get_def live_entry_def kv_put_def update_conv' split: option.split)

lemma live_kv_put_same:
  "kv_wf s \<Longrightarrow> 0 < ttl \<Longrightarrow> live (kv_put k v ttl s) k = Some v"
  by (simp add: live_def kv_get_def live_entry_def kv_put_def update_conv' deadline_after kv_wf_def)

lemma live_kv_put [simp]:
  "kv_wf s \<Longrightarrow> 0 < ttl \<Longrightarrow> live (kv_put k v ttl s) = (live s)(k \<mapsto> v)"
  by (rule ext) (simp add: live_kv_put_same)

lemma live_kv_delete [simp]: "live (kv_delete k s) = (live s)(k := None)"
  by (rule ext) (simp add: live_def kv_get_def live_entry_def kv_delete_def delete_conv' split: option.split)

lemma map_of_filter_distinct:
  "distinct (map fst xs) \<Longrightarrow>
     map_of (filter (\<lambda>(k, e). P e) xs) k =
       (case map_of xs k of Some e \<Rightarrow> if P e then Some e else None | None \<Rightarrow> None)"
proof (induction xs)
  case (Cons x xs)
  obtain j e where x: "x = (j, e)" by (cases x)
  show ?case
  proof (cases "k = j")
    case True
    with Cons.prems x have "map_of xs k = None" by (simp add: map_of_eq_None_iff)
    with Cons x True show ?thesis by simp
  next
    case False
    with Cons x show ?thesis by simp
  qed
qed simp

lemma live_prune [simp]: "kv_wf s \<Longrightarrow> live (snd (prune_expired_sync s)) = live s"
  by (rule ext)
     (simp add: live_def kv_get_def live_entry_def prune_expired_sync_def kv_wf_def
        map_of_filter_distinct split: option.split)

lemma kv_wf_put [simp]: "kv_wf s \<Longrightarrow> kv_wf (kv_put k v ttl s)"
  by (simp add: kv_wf_def kv_put_def distinct_update)

lemma kv_wf_delete [simp]: "kv_wf s \<Longrightarrow> kv_wf (kv_delete k s)"
  by (simp add: kv_wf_def kv_delete_def distinct_delete)

lemma kv_wf_prune [simp]: "kv_wf s \<Longrightarrow> kv_wf (snd (prune_expired_sync s))"
  by (simp add: kv_wf_def prune_expired_sync_def distinct_map_filter)

lemma kv_wf_new [simp]: "in_time lim t \<Longrightarrow> t < max_utc lim \<Longrightarrow> kv_wf (kv_new lim t)"
  by (simp add: kv_wf_def kv_new_def)

lemma live_new [simp]: "live (kv_new lim t) = Map.empty"
  by (rule ext) (simp add: live_def kv_get_def live_entry_def kv_new_def)

lemma kv_get_live [simp]: "kv_get k s = live s k"
  by (simp add: live_def)

text \<open>The compound operations, on the abstraction.\<close>

lemma replace_live_spec:
  "replace_live k v ttl s = (if live s k = None then (False, s) else (True, kv_put k v ttl s))"
  by (auto simp: replace_live_def live_entry_live split: option.split)

lemma replace_live_if_spec:
  "replace_live_if k v ttl P s =
     (case live s k of None \<Rightarrow> (None, s)
      | Some x \<Rightarrow> if P x then (Some True, kv_put k v ttl s) else (Some False, s))"
  by (auto simp: replace_live_if_def live_entry_live split: option.split)

lemma remove_live_if_spec:
  "remove_live_if k P s =
     (case live s k of None \<Rightarrow> (None, s)
      | Some x \<Rightarrow> if P x then (Some True, kv_delete k s) else (Some False, s))"
  by (auto simp: remove_live_if_def live_entry_live split: option.split)

lemma remove_live_spec: "remove_live k s = (live s k \<noteq> None, kv_delete k s)"
  by (simp add: remove_live_def live_None)

lemma snapshot_live_entry:
  "kv_wf s \<Longrightarrow> map_of (filter (\<lambda>(_, e). clock_now s < expires_at e) (inner s)) k = live_entry s k"
  by (simp add: map_of_filter_distinct live_entry_def kv_wf_def)

lemma map_of_snapshot: "kv_wf s \<Longrightarrow> map_of (snapshot s) k = live s k"
  using snapshot_live_entry [of s k]
  by (simp add: snapshot_def live_entry_live map_of_map)

lemma distinct_snapshot: "kv_wf s \<Longrightarrow> distinct (map fst (snapshot s))"
  by (simp add: snapshot_def kv_wf_def distinct_map_filter comp_def case_prod_beta)

subsection \<open>The interface of a store with conditional writes\<close>

text \<open>
  What the wrappers of the store rely on, on the map \<open>view\<close> of what a reader sees: a write with a
  positive lifetime is seen, a removal is seen, and the two conditional operations test and act
  in one step. The laws say nothing about how expired rows are kept.
\<close>

locale conditional_store =
  fixes view :: "'s \<Rightarrow> 'k \<Rightarrow> 'v option"
    and good :: "'s \<Rightarrow> bool"
    and put :: "'k \<Rightarrow> 'v \<Rightarrow> duration \<Rightarrow> 's \<Rightarrow> 's"
    and del :: "'k \<Rightarrow> 's \<Rightarrow> 's"
    and swap_if :: "'k \<Rightarrow> 'v \<Rightarrow> duration \<Rightarrow> ('v \<Rightarrow> bool) \<Rightarrow> 's \<Rightarrow> bool option \<times> 's"
    and take_if :: "'k \<Rightarrow> ('v \<Rightarrow> bool) \<Rightarrow> 's \<Rightarrow> bool option \<times> 's"
  assumes view_put: "good s \<Longrightarrow> 0 < ttl \<Longrightarrow> view (put k v ttl s) = (view s)(k \<mapsto> v)"
    and wf_put: "good s \<Longrightarrow> good (put k v ttl s)"
    and view_del: "good s \<Longrightarrow> view (del k s) = (view s)(k := None)"
    and wf_del: "good s \<Longrightarrow> good (del k s)"
    and swap_if_step: "swap_if k v ttl P s =
      (case view s k of None \<Rightarrow> (None, s)
       | Some x \<Rightarrow> if P x then (Some True, put k v ttl s) else (Some False, s))"
    and take_if_step: "take_if k P s =
      (case view s k of None \<Rightarrow> (None, s)
       | Some x \<Rightarrow> if P x then (Some True, del k s) else (Some False, s))"
begin

lemma swap_if_view:
  assumes "good s" "0 < ttl" "swap_if k v ttl P s = (r, s')"
  shows "good s' \<and> view s' = (if r = Some True then (view s)(k \<mapsto> v) else view s) \<and>
    (r = Some True \<longleftrightarrow> (\<exists>x. view s k = Some x \<and> P x)) \<and> (r = None \<longleftrightarrow> view s k = None)"
  using assms by (auto simp: swap_if_step view_put wf_put split: option.splits if_splits)

lemma take_if_view:
  assumes "good s" "take_if k P s = (r, s')"
  shows "good s' \<and> view s' = (if r = Some True then (view s)(k := None) else view s) \<and>
    (r = Some True \<longleftrightarrow> (\<exists>x. view s k = Some x \<and> P x)) \<and> (r = None \<longleftrightarrow> view s k = None)"
  using assms by (auto simp: take_if_step view_del wf_del split: option.splits if_splits)

text \<open>Of two swaps on the same test the second loses, when what the first wrote fails the test.\<close>

lemma swap_once:
  assumes "good s" "0 < ttl" "swap_if k v ttl P s = (Some True, s')" "\<not> P v"
  shows "fst (swap_if k v' ttl' P s') = Some False"
proof -
  from swap_if_view [OF assms(1-3)] have "view s' k = Some v" by simp
  with assms(4) show ?thesis by (simp add: swap_if_step)
qed

text \<open>Of two removals the second finds nothing.\<close>

lemma take_once:
  assumes "good s" "take_if k P s = (Some True, s')"
  shows "fst (take_if k Q s') = None"
proof -
  from take_if_view [OF assms] have "view s' k = None" by simp
  then show ?thesis by (simp add: take_if_step)
qed

end

interpretation mem: conditional_store live kv_wf kv_put kv_delete replace_live_if remove_live_if
  by unfold_locales (simp_all add: replace_live_if_spec remove_live_if_spec)

end
