(* ===== verification/Effects.thy ===== *)
theory Effects
  imports Axess_Prelude
begin

section \<open>Fallible operations on shared state\<close>

text \<open>
  An \<^verbatim>\<open>async\<close> call on a store is a function of the store's state that answers an error or a
  value and leaves a new state. Between two such calls the task may be suspended: other requests,
  other nodes and the clock move the state, and a call may fail, with or without having taken
  effect. The record \<open>disturbance\<close> is one such event and \<open>disturbed\<close> lets one event happen
  before each call, so that a statement about an arbitrary list of disturbances is a statement
  about every interleaving and every failure.
\<close>

type_synonym ('s, 'e, 'a) act = "'s \<Rightarrow> ('e + 'a) \<times> 's"

named_theorems act_simps "equations of the sequencing combinators"

definition act_ok :: "'a \<Rightarrow> ('s, 'e, 'a) act" where
  "act_ok x = (\<lambda>s. (Inr x, s))"

definition act_err :: "'e \<Rightarrow> ('s, 'e, 'a) act" where
  "act_err e = (\<lambda>s. (Inl e, s))"

text \<open>Sequencing with the \<^verbatim>\<open>?\<close> operator: an error ends the caller.\<close>

definition act_bind :: "('s, 'e, 'a) act \<Rightarrow> ('a \<Rightarrow> ('s, 'e, 'b) act) \<Rightarrow> ('s, 'e, 'b) act" where
  "act_bind m f = (\<lambda>s. case m s of (Inl e, s') \<Rightarrow> (Inl e, s') | (Inr x, s') \<Rightarrow> f x s')"

text \<open>Sequencing with a \<^verbatim>\<open>match\<close> on the result: the caller sees the error.\<close>

definition act_try :: "('s, 'e, 'a) act \<Rightarrow> ('e + 'a \<Rightarrow> ('s, 'f, 'b) act) \<Rightarrow> ('s, 'f, 'b) act" where
  "act_try m f = (\<lambda>s. case m s of (r, s') \<Rightarrow> f r s')"

lemma act_ok_apply [act_simps, simp]: "act_ok x s = (Inr x, s)"
  by (simp add: act_ok_def)

lemma act_err_apply [act_simps, simp]: "act_err e s = (Inl e, s)"
  by (simp add: act_err_def)

lemma act_bind_apply [act_simps]:
  "act_bind m f s = (case m s of (Inl e, s') \<Rightarrow> (Inl e, s') | (Inr x, s') \<Rightarrow> f x s')"
  by (simp add: act_bind_def)

lemma act_try_apply [act_simps]: "act_try m f s = (case m s of (r, s') \<Rightarrow> f r s')"
  by (simp add: act_try_def)

lemma act_bind_ok [simp]: "act_bind (act_ok x) f = f x"
  by (rule ext) (simp add: act_bind_def)

lemma act_bind_err [simp]: "act_bind (act_err e) f = act_err e"
  by (rule ext) (simp add: act_bind_def act_err_def)

lemma act_bind_assoc: "act_bind (act_bind m f) g = act_bind m (\<lambda>x. act_bind (f x) g)"
  by (rule ext) (auto simp: act_bind_def split: prod.split sum.split)

lemma act_bind_Inr: "m s = (Inr x, s') \<Longrightarrow> act_bind m f s = f x s'"
  by (simp add: act_bind_def)

lemma act_bind_Inl: "m s = (Inl e, s') \<Longrightarrow> act_bind m f s = (Inl e, s')"
  by (simp add: act_bind_def)

lemma act_bind_eq_Inr:
  "act_bind m f s = (Inr y, t) \<longleftrightarrow> (\<exists>x s'. m s = (Inr x, s') \<and> f x s' = (Inr y, t))"
  by (auto simp: act_bind_def split: prod.splits sum.splits)

subsection \<open>Disturbances\<close>

text \<open>
  What may happen to a call: the environment moves the state before it, it may answer an error,
  and a call that answered an error may or may not have landed.
\<close>

record ('s, 'e) disturbance =
  before :: "'s \<Rightarrow> 's"
  fault :: "'e option"
  landed :: bool

definition calm :: "('s, 'e) disturbance" where
  "calm = \<lparr>before = id, fault = None, landed = True\<rparr>"

text \<open>
  The world a request runs in: the shared state, the disturbances still to come (calm once they
  are used up), and the effects of the request's own calls so far, the latest first, each as the
  state it found and the state it left.
\<close>

record ('s, 'e) world =
  current :: 's
  ahead :: "('s, 'e) disturbance list"
  effects :: "('s \<times> 's) list"

definition disturbed :: "('s, 'e, 'a) act \<Rightarrow> (('s, 'e) world, 'e, 'a) act" where
  "disturbed m w =
     (let d = (case ahead w of [] \<Rightarrow> calm | d # _ \<Rightarrow> d);
          s = before d (current w);
          r = fst (m s);
          s' = (if fault d = None \<or> landed d then snd (m s) else s)
      in (case fault d of None \<Rightarrow> r | Some e \<Rightarrow> Inl e,
          \<lparr>current = s', ahead = tl (ahead w), effects = (s, s') # effects w\<rparr>))"

definition quiet :: "'s \<Rightarrow> ('s, 'e) world" where
  "quiet s = \<lparr>current = s, ahead = [], effects = []\<rparr>"

lemma disturbed_quiet:
  "ahead w = [] \<Longrightarrow> disturbed m w = (fst (m (current w)),
     \<lparr>current = snd (m (current w)), ahead = [], effects = (current w, snd (m (current w))) # effects w\<rparr>)"
  by (simp add: disturbed_def calm_def Let_def)

text \<open>The state as the first \<open>k\<close> disturbances alone move it.\<close>

definition moved :: "nat \<Rightarrow> ('s, 'e) world \<Rightarrow> 's" where
  "moved k w = foldl (\<lambda>s d. before d s) (current w) (take k (ahead w))"

lemma moved_0 [simp]: "moved 0 w = current w"
  by (simp add: moved_def)

lemma moved_add:
  "current w1 = moved j w \<Longrightarrow> ahead w1 = drop j (ahead w) \<Longrightarrow> moved k w1 = moved (j + k) w"
  by (simp add: moved_def take_add)

lemma moved_keeps:
  assumes "P (current w)" "\<forall>d \<in> set (ahead w). \<forall>s. P s \<longrightarrow> P (before d s)"
  shows "P (moved k w)"
proof -
  have "P s \<Longrightarrow> \<forall>d \<in> set ds. \<forall>s. P s \<longrightarrow> P (before d s) \<Longrightarrow> P (foldl (\<lambda>s d. before d s) s ds)"
    for ds :: "('a, 'b) disturbance list" and s
    by (induction ds arbitrary: s) auto
  with assms show ?thesis unfolding moved_def by (meson in_set_takeD)
qed

lemma disturbed_at:
  "disturbed m w =
     (let d = (case ahead w of [] \<Rightarrow> calm | d # _ \<Rightarrow> d);
          s' = (if fault d = None \<or> landed d then snd (m (moved 1 w)) else moved 1 w)
      in (case fault d of None \<Rightarrow> fst (m (moved 1 w)) | Some e \<Rightarrow> Inl e,
          \<lparr>current = s', ahead = drop 1 (ahead w), effects = (moved 1 w, s') # effects w\<rparr>))"
  by (cases "ahead w") (simp_all add: disturbed_def moved_def calm_def Let_def split: option.split)

lemma disturbed_cases:
  assumes "disturbed m w = (r, w')"
  obtains (ran) "r = fst (m (moved 1 w))"
      "w' = \<lparr>current = snd (m (moved 1 w)), ahead = drop 1 (ahead w),
             effects = (moved 1 w, snd (m (moved 1 w))) # effects w\<rparr>"
  | (failed) s' e where "r = Inl e" "s' = moved 1 w \<or> s' = snd (m (moved 1 w))"
      "w' = \<lparr>current = s', ahead = drop 1 (ahead w), effects = (moved 1 w, s') # effects w\<rparr>"
  using assms by (auto simp: disturbed_at Let_def split: option.splits if_splits)

text \<open>A call that left the state as it found it.\<close>

definition silent_call :: "('s, 'e) world \<Rightarrow> ('s, 'e) world \<Rightarrow> bool" where
  "silent_call w w' \<longleftrightarrow>
     w' = \<lparr>current = moved 1 w, ahead = drop 1 (ahead w), effects = (moved 1 w, moved 1 w) # effects w\<rparr>"

text \<open>
  A run of several calls that amounts to the single step \<open>f\<close>: its last call acts as \<open>f\<close> does, on
  the state that the disturbances alone led to, and its earlier calls leave the state as they
  find it. The last call of a failed run acts as \<open>f\<close> or not at all.
\<close>

definition acts_once ::
  "('s \<Rightarrow> 'a \<times> 's) \<Rightarrow> ('s, 'e) world \<Rightarrow> ('e + 'a) \<Rightarrow> ('s, 'e) world \<Rightarrow> bool" where
  "acts_once f w r w' \<longleftrightarrow>
     (\<exists>k es. effects w' = (moved k w, current w') # es @ effects w \<and>
        ahead w' = drop k (ahead w) \<and> (\<forall>(a, b) \<in> set es. b = a) \<and>
        (case r of
           Inr x \<Rightarrow> f (moved k w) = (x, current w')
         | Inl e \<Rightarrow> current w' = moved k w \<or> current w' = snd (f (moved k w))))"

lemma acts_once_after_silent:
  assumes "silent_call w w1" "acts_once f w1 r w2"
  shows "acts_once f w r w2"
proof -
  have w1: "effects w1 = (moved 1 w, moved 1 w) # effects w" "current w1 = moved 1 w"
    "ahead w1 = drop 1 (ahead w)"
    using assms(1) by (simp_all add: silent_call_def)
  from assms(2) obtain k es where run: "effects w2 = (moved k w1, current w2) # es @ effects w1"
    "ahead w2 = drop k (ahead w1)" "\<forall>(a, b) \<in> set es. b = a"
    "case r of Inr x \<Rightarrow> f (moved k w1) = (x, current w2)
     | Inl e \<Rightarrow> current w2 = moved k w1 \<or> current w2 = snd (f (moved k w1))"
    by (auto simp: acts_once_def)
  with w1 moved_add [OF w1(2,3), of k] show ?thesis
    unfolding acts_once_def
    by (intro exI [of _ "1 + k"] exI [of _ "es @ [(moved 1 w, moved 1 w)]"]) (simp split: sum.splits)
qed

lemma acts_once_single:
  assumes "disturbed m w = (r, w')" "\<And>s. snd (m s) = snd (f s)"
    "\<And>s x. fst (m s) = Inr x \<Longrightarrow> fst (f s) = g x"
  shows "acts_once f w (map_sum id g r) w'"
  using assms(1)
proof (cases rule: disturbed_cases)
  case ran
  have "case map_sum id g r of Inr x \<Rightarrow> f (moved 1 w) = (x, current w')
    | Inl e \<Rightarrow> current w' = moved 1 w \<or> current w' = snd (f (moved 1 w))"
    using ran assms(2,3) [of "moved 1 w"] by (cases "fst (m (moved 1 w))") (simp_all add: prod_eq_iff)
  with ran assms(2) show ?thesis
    unfolding acts_once_def by (intro exI [of _ 1] exI [of _ "[]"]) simp
next
  case (failed s' e)
  then show ?thesis using assms(2)
    by (auto simp: acts_once_def intro!: exI [of _ 1])
qed

text \<open>The environment's moves keep the invariant of the state.\<close>

definition env_keeps :: "('s \<Rightarrow> bool) \<Rightarrow> ('s, 'e) world \<Rightarrow> bool" where
  "env_keeps good w \<longleftrightarrow> good (current w) \<and> (\<forall>d \<in> set (ahead w). \<forall>s. good s \<longrightarrow> good (before d s))"

lemma env_keeps_quiet [simp]: "env_keeps good (quiet s) \<longleftrightarrow> good s"
  by (simp add: env_keeps_def quiet_def)

text \<open>A predicate that the environment keeps holds where the next call finds the state.\<close>

lemma env_keeps_moved: "env_keeps P w \<Longrightarrow> P (moved k w)"
  by (rule moved_keeps) (simp_all add: env_keeps_def)

lemma env_keeps_step:
  assumes "env_keeps P w" "ahead w' = drop 1 (ahead w)" "P (current w')"
  shows "env_keeps P w'"
proof -
  have "set (ahead w') \<subseteq> set (ahead w)" using assms(2) by (simp add: set_drop_subset)
  with assms show ?thesis by (auto simp: env_keeps_def)
qed

subsection \<open>Refinement of an abstract step\<close>

text \<open>
  A call implements an abstract step on the view of the state: when it answers, the answer and
  the new view are the step's; when it fails, the view is the old one or the step's.
\<close>

definition implements ::
  "('s \<Rightarrow> bool) \<Rightarrow> ('s \<Rightarrow> 'm) \<Rightarrow> ('s, 'e, 'a) act \<Rightarrow> ('m \<Rightarrow> 'a \<times> 'm) \<Rightarrow> bool" where
  "implements good view m f \<longleftrightarrow> (\<forall>s. good s \<longrightarrow> good (snd (m s)) \<and>
     (case fst (m s) of
        Inr x \<Rightarrow> (x, view (snd (m s))) = f (view s)
      | Inl e \<Rightarrow> view (snd (m s)) = view s \<or> view (snd (m s)) = snd (f (view s))))"

lemma implementsI:
  assumes "\<And>s. good s \<Longrightarrow> good (snd (m s)) \<and> (\<exists>x. fst (m s) = Inr x \<and> (x, view (snd (m s))) = f (view s))"
  shows "implements good view m f"
  using assms unfolding implements_def by fastforce

lemma implements_runI:
  assumes "\<And>s. good s \<Longrightarrow> \<exists>x s'. m s = (Inr x, s') \<and> good s' \<and> (x, view s') = f (view s)"
  shows "implements good view m f"
  by (rule implementsI) (use assms in fastforce)

text \<open>A guard on the view in front of an implementation.\<close>

lemma implements_guard:
  assumes "implements good view m f"
  shows "implements good view (\<lambda>s. if P (view s) then (Inr x, s) else m s)
    (\<lambda>v. if P v then (x, v) else f v)"
  using assms by (auto simp: implements_def)

text \<open>One disturbed call of an implementation, seen through the view.\<close>

lemma implementsD:
  assumes "implements good view m f" "good s"
  shows "good (snd (m s)) \<and>
    (\<forall>x. fst (m s) = Inr x \<longrightarrow> (x, view (snd (m s))) = f (view s)) \<and>
    (view (snd (m s)) = view s \<or> view (snd (m s)) = snd (f (view s)))"
proof -
  from assms have run: "good (snd (m s))" "case fst (m s) of
      Inr x \<Rightarrow> (x, view (snd (m s))) = f (view s)
    | Inl e \<Rightarrow> view (snd (m s)) = view s \<or> view (snd (m s)) = snd (f (view s))"
    unfolding implements_def by blast+
  show ?thesis
  proof (cases "fst (m s)")
    case (Inl e)
    with run show ?thesis by simp
  next
    case (Inr x)
    with run(2) have "(x, view (snd (m s))) = f (view s)" by simp
    moreover from this have "view (snd (m s)) = snd (f (view s))" by (metis snd_conv)
    ultimately show ?thesis using run(1) Inr by auto
  qed
qed

lemma implements_outcome:
  assumes "implements good view m f" "good s"
    and "r = fst (m s) \<and> c = snd (m s) \<or> (\<exists>e. r = Inl e) \<and> (c = s \<or> c = snd (m s))"
  shows "good c \<and> (\<forall>x. r = Inr x \<longrightarrow> (x, view c) = f (view s)) \<and>
    (\<forall>e. r = Inl e \<longrightarrow> view c = view s \<or> view c = snd (f (view s)))"
  using assms(3)
proof
  assume eqs: "r = fst (m s) \<and> c = snd (m s)"
  show ?thesis using implementsD [OF assms(1,2)] unfolding conjunct1 [OF eqs] conjunct2 [OF eqs] by blast
next
  assume "(\<exists>e. r = Inl e) \<and> (c = s \<or> c = snd (m s))"
  with implementsD [OF assms(1,2)] assms(2) show ?thesis by blast
qed

lemma disturbed_shape:
  assumes "disturbed m w = (r, w')"
  shows "effects w' = (moved 1 w, current w') # effects w \<and> ahead w' = drop 1 (ahead w) \<and>
    (r = fst (m (moved 1 w)) \<and> current w' = snd (m (moved 1 w)) \<or>
     (\<exists>e. r = Inl e) \<and> (current w' = moved 1 w \<or> current w' = snd (m (moved 1 w))))"
  using assms by (cases rule: disturbed_cases) auto

lemma disturbed_implements:
  assumes "implements good view m f" "env_keeps good w" "disturbed m w = (r, w')"
  shows "effects w' = (moved 1 w, current w') # effects w \<and> ahead w' = drop 1 (ahead w) \<and>
    env_keeps good w' \<and> good (moved 1 w) \<and>
    (\<forall>x. r = Inr x \<longrightarrow> (x, view (current w')) = f (view (moved 1 w))) \<and>
    (\<forall>e. r = Inl e \<longrightarrow> view (current w') = view (moved 1 w) \<or>
       view (current w') = snd (f (view (moved 1 w))))"
proof -
  note shape = disturbed_shape [OF assms(3)]
  have good: "good (moved 1 w)" by (rule env_keeps_moved [OF assms(2)])
  note outcome = implements_outcome [OF assms(1) good, of r "current w'"]
  from shape outcome have "good (current w')" by blast
  with shape have "env_keeps good w'" by (intro env_keeps_step [OF assms(2)]) blast+
  with shape outcome good show ?thesis by blast
qed

subsection \<open>Runs of several calls under a condition\<close>

text \<open>
  A run of calls that begins with the condition \<open>P\<close> on what is seen of the state: each of its
  effects relates what was seen before to what is seen after by \<open>R\<close>, and the condition, which the
  environment keeps, still holds at the end.
\<close>

definition traced ::
  "('s \<Rightarrow> bool) \<Rightarrow> ('s \<Rightarrow> 'm) \<Rightarrow> ('m \<Rightarrow> bool) \<Rightarrow> ('m \<Rightarrow> 'm \<Rightarrow> bool) \<Rightarrow>
     ('s, 'e) world \<Rightarrow> ('s, 'e) world \<Rightarrow> bool" where
  "traced good seen P R w w' \<longleftrightarrow>
     env_keeps (\<lambda>s. good s \<and> P (seen s)) w' \<and>
     (\<exists>es. effects w' = es @ effects w \<and> (\<forall>(a, b) \<in> set es. R (seen a) (seen b)))"

lemma traced_refl: "env_keeps (\<lambda>s. good s \<and> P (seen s)) w \<Longrightarrow> traced good seen P R w w"
  by (simp add: traced_def)

lemma traced_trans: "traced good seen P R w w1 \<Longrightarrow> traced good seen P R w1 w2 \<Longrightarrow> traced good seen P R w w2"
  unfolding traced_def by (elim conjE exE) (intro conjI exI, assumption, simp, auto)

lemma traced_env: "traced good seen P R w w' \<Longrightarrow> env_keeps (\<lambda>s. good s \<and> P (seen s)) w'"
  by (simp add: traced_def)

lemma traced_mono:
  "traced good seen P R w w' \<Longrightarrow> (\<And>a b. R a b \<Longrightarrow> R' a b) \<Longrightarrow> traced good seen P R' w w'"
  unfolding traced_def by blast

lemma traced_effects:
  assumes "traced good seen P R w w'"
  obtains es where "effects w' = es @ effects w" "\<forall>(a, b) \<in> set es. R (seen a) (seen b)"
  using assms unfolding traced_def by blast

lemma env_keeps_conjI: "env_keeps P w \<Longrightarrow> env_keeps Q w \<Longrightarrow> env_keeps (\<lambda>s. P s \<and> Q s) w"
  by (simp add: env_keeps_def)

lemma env_keeps_mono: "env_keeps P w \<Longrightarrow> (\<And>s. P s = Q s) \<Longrightarrow> env_keeps Q w"
  by (simp add: env_keeps_def)

text \<open>
  One call: when the abstract step keeps the condition and its effect is allowed, the call is
  traced, and what it answers is what the step answers somewhere under the condition.
\<close>

lemma disturbed_traced:
  assumes "implements good seen m f" "env_keeps (\<lambda>s. good s \<and> P (seen s)) w" "disturbed m w = (r, w')"
    and "\<And>v. P v \<Longrightarrow> P (snd (f v)) \<and> R v v \<and> R v (snd (f v))"
  shows "traced good seen P R w w' \<and> (\<forall>x. r = Inr x \<longrightarrow> (\<exists>v. P v \<and> f v = (x, seen (current w'))))"
proof -
  let ?s = "moved 1 w"
  have s: "good ?s" "P (seen ?s)" using env_keeps_moved [OF assms(2)] by simp_all
  note shape = disturbed_shape [OF assms(3)]
  have out: "good (current w') \<and> (\<forall>x. r = Inr x \<longrightarrow> (x, seen (current w')) = f (seen ?s)) \<and>
      (\<forall>e. r = Inl e \<longrightarrow> seen (current w') = seen ?s \<or> seen (current w') = snd (f (seen ?s)))"
    using shape by (intro implements_outcome [OF assms(1) s(1)]) blast
  have after: "seen (current w') = seen ?s \<or> seen (current w') = snd (f (seen ?s))"
  proof (cases r)
    case (Inr x)
    with out have "f (seen ?s) = (x, seen (current w'))" by simp
    then show ?thesis by simp
  qed (use out in blast)
  with assms(4) [OF s(2)] s(2) have "P (seen (current w'))" and R: "R (seen ?s) (seen (current w'))"
    by auto
  with out shape have "env_keeps (\<lambda>s. good s \<and> P (seen s)) w'"
    by (intro env_keeps_step [OF assms(2)]) blast+
  with shape R have "traced good seen P R w w'"
    unfolding traced_def by (intro conjI exI [of _ "[(?s, current w')]"]) auto
  with out s(2) show ?thesis by metis
qed

subsection \<open>Steps with a choice\<close>

text \<open>
  A call whose abstract step leaves something open (which of several rows is found, in which order
  rows come) fulfils a relation between the view before, the answer and the view after.
\<close>

definition fulfils ::
  "('s \<Rightarrow> bool) \<Rightarrow> ('s \<Rightarrow> 'm) \<Rightarrow> ('s, 'e, 'a) act \<Rightarrow> ('m \<Rightarrow> 'a \<Rightarrow> 'm \<Rightarrow> bool) \<Rightarrow> bool" where
  "fulfils good seen m F \<longleftrightarrow> (\<forall>s. good s \<longrightarrow> good (snd (m s)) \<and>
     (case fst (m s) of
        Inr x \<Rightarrow> F (seen s) x (seen (snd (m s)))
      | Inl e \<Rightarrow> seen (snd (m s)) = seen s \<or> (\<exists>x. F (seen s) x (seen (snd (m s))))))"

lemma fulfilsI:
  assumes "\<And>s. good s \<Longrightarrow> \<exists>x s'. m s = (Inr x, s') \<and> good s' \<and> F (seen s) x (seen s')"
  shows "fulfils good seen m F"
  unfolding fulfils_def
proof (intro allI impI)
  fix s assume "good s"
  from assms [OF this] obtain x s' where "m s = (Inr x, s')" "good s'" "F (seen s) x (seen s')" by blast
  then show "good (snd (m s)) \<and> (case fst (m s) of Inr x \<Rightarrow> F (seen s) x (seen (snd (m s)))
      | Inl e \<Rightarrow> seen (snd (m s)) = seen s \<or> (\<exists>x. F (seen s) x (seen (snd (m s)))))"
    by simp
qed

lemma fulfilsD:
  assumes "fulfils good seen m F" "good s" "m s = (r, s')"
  shows "good s' \<and> (\<forall>x. r = Inr x \<longrightarrow> F (seen s) x (seen s')) \<and>
    (\<forall>e. r = Inl e \<longrightarrow> seen s' = seen s \<or> (\<exists>x. F (seen s) x (seen s')))"
  using assms unfolding fulfils_def by (cases r) force+

text \<open>One disturbed call: what it found, and what it left.\<close>

lemma disturbed_found:
  assumes "fulfils good seen m F" "env_keeps (\<lambda>s. good s \<and> P (seen s)) w" "disturbed m w = (r, w')"
  obtains s where "P (seen s)" "good s" "good (current w')" "effects w' = (s, current w') # effects w"
    "ahead w' = drop 1 (ahead w)"
    "\<And>x. r = Inr x \<Longrightarrow> F (seen s) x (seen (current w'))"
    "seen (current w') = seen s \<or> (\<exists>x. F (seen s) x (seen (current w')))"
proof -
  let ?s = "moved 1 w"
  have s: "good ?s" "P (seen ?s)" using env_keeps_moved [OF assms(2)] by simp_all
  note shape = disturbed_shape [OF assms(3)]
  have run: "good (snd (m ?s))" "\<forall>x. fst (m ?s) = Inr x \<longrightarrow> F (seen ?s) x (seen (snd (m ?s)))"
    "seen (snd (m ?s)) = seen ?s \<or> (\<exists>x. F (seen ?s) x (seen (snd (m ?s))))"
    using fulfilsD [OF assms(1) s(1), of "fst (m ?s)" "snd (m ?s)"] by (cases "fst (m ?s)"; auto)+
  show thesis
  proof (rule that [of ?s])
    show "good (current w')" using shape run(1) s(1) by auto
    show "F (seen ?s) x (seen (current w'))" if "r = Inr x" for x using that shape run(2) by auto
    show "seen (current w') = seen ?s \<or> (\<exists>x. F (seen ?s) x (seen (current w')))"
      using shape run(3) by auto
  qed (use s shape in auto)
qed

lemma disturbed_fulfils:
  assumes "fulfils good seen m F" "env_keeps (\<lambda>s. good s \<and> P (seen s)) w" "disturbed m w = (r, w')"
    and "\<And>v x v'. P v \<Longrightarrow> F v x v' \<Longrightarrow> P v' \<and> R v v'" and "\<And>v. P v \<Longrightarrow> R v v"
  shows "traced good seen P R w w' \<and> (\<forall>x. r = Inr x \<longrightarrow> (\<exists>v. P v \<and> F v x (seen (current w'))))"
proof -
  obtain s where s: "P (seen s)" "good (current w')" "effects w' = (s, current w') # effects w"
    "ahead w' = drop 1 (ahead w)" "\<And>x. r = Inr x \<Longrightarrow> F (seen s) x (seen (current w'))"
    "seen (current w') = seen s \<or> (\<exists>x. F (seen s) x (seen (current w')))"
    by (rule disturbed_found [OF assms(1-3)]) blast
  with assms(4,5) have "P (seen (current w'))" "R (seen s) (seen (current w'))" by auto
  with s have "env_keeps (\<lambda>s. good s \<and> P (seen s)) w'"
    by (intro env_keeps_step [OF assms(2)]) simp_all
  with s \<open>R (seen s) (seen (current w'))\<close> have "traced good seen P R w w'"
    unfolding traced_def by (intro conjI exI [of _ "[(s, current w')]"]) auto
  with s show ?thesis by blast
qed

text \<open>Without faults a disturbed call is the call, on the state it finds.\<close>

definition faultless :: "('s, 'e) world \<Rightarrow> bool" where
  "faultless w \<longleftrightarrow> (\<forall>d \<in> set (ahead w). fault d = None)"

lemma faultless_quiet [simp]: "faultless (quiet s)"
  by (simp add: faultless_def quiet_def)

lemma disturbed_faultless:
  assumes "faultless w" "disturbed m w = (r, w')"
  shows "m (moved 1 w) = (r, current w')" "effects w' = (moved 1 w, current w') # effects w" "faultless w'"
proof -
  have "fault (case ahead w of [] \<Rightarrow> calm | d # _ \<Rightarrow> d) = None"
    using assms(1) by (cases "ahead w") (simp_all add: faultless_def calm_def)
  with assms(2) show "m (moved 1 w) = (r, current w')" "effects w' = (moved 1 w, current w') # effects w"
    by (auto simp: disturbed_at Let_def)
  have "ahead w' = drop 1 (ahead w)" using disturbed_shape [OF assms(2)] by blast
  with assms(1) show "faultless w'" by (auto simp: faultless_def dest: in_set_dropD)
qed

end
