(* ===== verification/Session_Store.thy ===== *)
theory Session_Store
  imports Session_Data Kv_Store Effects "HOL-Library.Product_Lexorder"
begin

section \<open>Session stores and the compare-and-swap on a revision\<close>

text \<open>
  \<^verbatim>\<open>axess-core/src/session/store.rs\<close> (the trait \<^verbatim>\<open>SessionStore\<close> and the in-memory store) and
  \<^verbatim>\<open>session/store/cas.rs\<close> (the compare-and-swap the stores share). A trait is a record of the
  operations an implementation supplies, over the implementation's state and error types.
\<close>

subsection \<open>The trait\<close>

datatype cycle_outcome = Rotated | SessionGone | CycleConflict

datatype conditional_update = Written | Conflict | Gone

text \<open>
  The operations a store writes itself, and, extending them, the two conditional ones, which the
  compare-and-swap below builds from the former.
\<close>

record ('s, 'e) base_store =
  load :: "session_id \<Rightarrow> ('s, 'e, session_data option) act"
  save :: "session_id \<Rightarrow> session_data \<Rightarrow> duration \<Rightarrow> ('s, 'e, unit) act"
  delete :: "session_id \<Rightarrow> ('s, 'e, unit) act"
  update :: "session_id \<Rightarrow> session_data \<Rightarrow> duration \<Rightarrow> ('s, 'e, bool) act"
  cycle :: "session_id \<Rightarrow> session_id \<Rightarrow> session_data \<Rightarrow> duration \<Rightarrow> bool \<Rightarrow> ('s, 'e, cycle_outcome) act"
  prune_expired :: "('s, 'e, u64) act"
  find_sessions_for_user :: "user_id \<Rightarrow> nat \<Rightarrow> ('s, 'e, (session_id \<times> session_data) list) act"

record ('s, 'e) session_store = "('s, 'e) base_store" +
  update_if_revision ::
    "session_id \<Rightarrow> u64 \<Rightarrow> session_data \<Rightarrow> duration \<Rightarrow> ('s, 'e, conditional_update) act"
  cycle_if_revision ::
    "session_id \<Rightarrow> session_id \<Rightarrow> session_data \<Rightarrow> duration \<Rightarrow> bool \<Rightarrow> u64 \<Rightarrow> ('s, 'e, cycle_outcome) act"

text \<open>The default body of \<^verbatim>\<open>cycle_if_revision\<close>: a read, then the unconditional rotation.\<close>

definition cycle_if_revision_default ::
  "('s, 'e, 'more) base_store_scheme \<Rightarrow> session_id \<Rightarrow> session_id \<Rightarrow> session_data \<Rightarrow> duration \<Rightarrow> bool \<Rightarrow> u64 \<Rightarrow>
     ('s, 'e, cycle_outcome) act" where
  "cycle_if_revision_default st old_id new_id data ttl require_old expected =
     act_bind (load st old_id) (\<lambda>row.
       if \<exists>r. row = Some r \<and> revision r \<noteq> expected then act_ok CycleConflict
       else cycle st old_id new_id data ttl require_old)"

subsection \<open>Compare-and-swap\<close>

abbreviation CAS_ATTEMPTS :: nat where
  "CAS_ATTEMPTS \<equiv> 2"

datatype cas_write = CasDone | CasMissed | CasGone

record ('s, 'e, 'seen) cas_row =
  cas_read :: "session_id \<Rightarrow> ('s, 'e, (u64 \<times> 'seen) option) act"
  delete_if :: "session_id \<Rightarrow> 'seen \<Rightarrow> ('s, 'e, cas_write) act"
  replace_if :: "session_id \<Rightarrow> 'seen \<Rightarrow> session_data \<Rightarrow> duration \<Rightarrow> ('s, 'e, cas_write) act"

fun cas_attempts ::
  "nat \<Rightarrow> ('s, 'e, 'seen) cas_row \<Rightarrow> session_id \<Rightarrow> u64 \<Rightarrow> session_data \<Rightarrow> duration \<Rightarrow>
     ('s, 'e, conditional_update) act" where
  "cas_attempts 0 row sid expected data ttl = act_ok Conflict"
| "cas_attempts (Suc n) row sid expected data ttl =
     act_bind (cas_read row sid) (\<lambda>found.
       case found of
         None \<Rightarrow> act_ok Gone
       | Some (found_rev, seen) \<Rightarrow>
           if found_rev \<noteq> expected then act_ok Conflict
           else
             act_bind
               (if ttl = 0
                then act_bind (delete_if row sid seen)
                       (\<lambda>w. act_ok (if w = CasDone then CasGone else w))
                else replace_if row sid seen data ttl)
               (\<lambda>written.
                 case written of
                   CasDone \<Rightarrow> act_ok Written
                 | CasGone \<Rightarrow> act_ok Gone
                 | CasMissed \<Rightarrow> cas_attempts n row sid expected data ttl))"

definition cas_by_revision ::
  "('s, 'e, 'seen) cas_row \<Rightarrow> session_id \<Rightarrow> u64 \<Rightarrow> session_data \<Rightarrow> duration \<Rightarrow>
     ('s, 'e, conditional_update) act" where
  "cas_by_revision = cas_attempts CAS_ATTEMPTS"

fun cycle_attempts ::
  "nat \<Rightarrow> ('s, 'e, 'more) base_store_scheme \<Rightarrow> ('s, 'e, 'seen) cas_row \<Rightarrow> session_id \<Rightarrow> session_id \<Rightarrow>
     session_data \<Rightarrow> duration \<Rightarrow> bool \<Rightarrow> u64 \<Rightarrow> ('s, 'e, cycle_outcome) act" where
  "cycle_attempts 0 st row old_id new_id data ttl require_old expected = act_ok CycleConflict"
| "cycle_attempts (Suc n) st row old_id new_id data ttl require_old expected =
     (let next = (\<lambda>step.
            case step of
              CasDone \<Rightarrow> act_ok Rotated
            | CasMissed \<Rightarrow> cycle_attempts n st row old_id new_id data ttl require_old expected
            | CasGone \<Rightarrow>
                if require_old then act_ok SessionGone
                else act_bind (if old_id \<noteq> new_id then delete st old_id else act_ok ())
                       (\<lambda>_. act_bind (save st new_id data ttl) (\<lambda>_. act_ok Rotated)))
      in act_bind (cas_read row old_id) (\<lambda>found.
           case found of
             None \<Rightarrow> next CasGone
           | Some (found_rev, seen) \<Rightarrow>
               if found_rev \<noteq> expected then act_ok CycleConflict
               else if old_id = new_id then act_bind (replace_if row new_id seen data ttl) next
               else act_bind (delete_if row old_id seen) (\<lambda>w.
                      if w = CasDone
                      then act_bind (save st new_id data ttl) (\<lambda>_. act_ok Rotated)
                      else next w)))"

definition cycle_by_revision ::
  "('s, 'e, 'more) base_store_scheme \<Rightarrow> ('s, 'e, 'seen) cas_row \<Rightarrow> session_id \<Rightarrow> session_id \<Rightarrow>
     session_data \<Rightarrow> duration \<Rightarrow> bool \<Rightarrow> u64 \<Rightarrow> ('s, 'e, cycle_outcome) act" where
  "cycle_by_revision st row old_id new_id data ttl require_old expected =
     (if ttl = 0
      then act_bind (cas_read row old_id) (\<lambda>found.
             if \<exists>found_rev seen. found = Some (found_rev, seen) \<and> found_rev \<noteq> expected then act_ok CycleConflict
             else cycle st old_id new_id data ttl require_old)
      else cycle_attempts CAS_ATTEMPTS st row old_id new_id data ttl require_old expected)"

subsection \<open>The in-memory store\<close>

record memory_session_store =
  rows :: "(session_id, session_data) memory_store"
  write_count :: u64

definition purge_expired :: "memory_session_store \<Rightarrow> memory_session_store" where
  "purge_expired s = s\<lparr>rows := snd (prune_expired_sync (rows s))\<rparr>"

definition maybe_auto_purge :: "memory_session_store \<Rightarrow> memory_session_store" where
  "maybe_auto_purge s =
     (let s' = s\<lparr>write_count := write_count s + 1\<rparr> in
      if write_count s mod 1024 = 0 \<and> \<not> kv_is_empty (rows s) then purge_expired s' else s')"

definition mem_load :: "session_id \<Rightarrow> (memory_session_store, 'e, session_data option) act" where
  "mem_load sid s = (Inr (kv_get sid (rows s)), s)"

definition mem_save ::
  "session_id \<Rightarrow> session_data \<Rightarrow> duration \<Rightarrow> (memory_session_store, 'e, unit) act" where
  "mem_save sid data ttl s =
     (if ttl = 0 then (Inr (), s\<lparr>rows := kv_delete sid (rows s)\<rparr>)
      else (Inr (), maybe_auto_purge (s\<lparr>rows := kv_put sid data ttl (rows s)\<rparr>)))"

definition mem_delete :: "session_id \<Rightarrow> (memory_session_store, 'e, unit) act" where
  "mem_delete sid s = (Inr (), s\<lparr>rows := kv_delete sid (rows s)\<rparr>)"

text \<open>Newest first, rows that were never stamped last; the sort is stable.\<close>

definition reverse_touched :: "datetime option \<Rightarrow> int \<times> int" where
  "reverse_touched t = (case t of Some x \<Rightarrow> (0, - x) | None \<Rightarrow> (1, 0))"

definition mem_find_sessions_for_user ::
  "user_id \<Rightarrow> nat \<Rightarrow> (memory_session_store, 'e, (session_id \<times> session_data) list) act" where
  "mem_find_sessions_for_user user limit s =
     (Inr (take limit (sort_key (\<lambda>found. reverse_touched (touched_at (snd found)))
        (filter (\<lambda>(_, d). pending_user_id (auth_state d) = Some user) (snapshot (rows s))))), s)"

definition mem_update ::
  "session_id \<Rightarrow> session_data \<Rightarrow> duration \<Rightarrow> (memory_session_store, 'e, bool) act" where
  "mem_update sid data ttl s =
     (if ttl = 0 then (Inr False, s\<lparr>rows := snd (remove_live sid (rows s))\<rparr>)
      else case replace_live sid data ttl (rows s) of
             (replaced, r) \<Rightarrow>
               (Inr replaced, if replaced then maybe_auto_purge (s\<lparr>rows := r\<rparr>) else s\<lparr>rows := r\<rparr>))"

definition cas_outcome :: "bool option \<Rightarrow> cas_write" where
  "cas_outcome step =
     (case step of None \<Rightarrow> CasGone | Some b \<Rightarrow> if b then CasDone else CasMissed)"

definition mem_cas_read :: "session_id \<Rightarrow> (memory_session_store, 'e, (u64 \<times> u64) option) act" where
  "mem_cas_read sid s = (Inr (map_option (\<lambda>d. (revision d, revision d)) (kv_get sid (rows s))), s)"

definition mem_delete_if :: "session_id \<Rightarrow> u64 \<Rightarrow> (memory_session_store, 'e, cas_write) act" where
  "mem_delete_if sid seen s =
     (case remove_live_if sid (\<lambda>d. revision d = seen) (rows s) of
        (r, rs) \<Rightarrow> (Inr (cas_outcome r), s\<lparr>rows := rs\<rparr>))"

definition mem_replace_if ::
  "session_id \<Rightarrow> u64 \<Rightarrow> session_data \<Rightarrow> duration \<Rightarrow> (memory_session_store, 'e, cas_write) act" where
  "mem_replace_if sid seen data ttl s =
     (case replace_live_if sid data ttl (\<lambda>d. revision d = seen) (rows s) of
        (r, rs) \<Rightarrow>
          (let w = cas_outcome r; s' = s\<lparr>rows := rs\<rparr> in
           (Inr w, if w = CasDone then maybe_auto_purge s' else s')))"

definition mem_row :: "(memory_session_store, 'e, u64) cas_row" where
  "mem_row = \<lparr>cas_read = mem_cas_read, delete_if = mem_delete_if, replace_if = mem_replace_if\<rparr>"

definition mem_cycle ::
  "session_id \<Rightarrow> session_id \<Rightarrow> session_data \<Rightarrow> duration \<Rightarrow> bool \<Rightarrow>
     (memory_session_store, 'e, cycle_outcome) act" where
  "mem_cycle old_id new_id data ttl require_old s =
     (let put = (\<lambda>s. (Inr Rotated, maybe_auto_purge (s\<lparr>rows := kv_put new_id data ttl (rows s)\<rparr>)))
      in if ttl = 0
         then (Inr SessionGone,
               s\<lparr>rows := snd (remove_live new_id (snd (remove_live old_id (rows s))))\<rparr>)
         else if old_id = new_id
         then (if require_old
               then (case replace_live new_id data ttl (rows s) of
                       (ok, r) \<Rightarrow> (Inr (if ok then Rotated else SessionGone), s\<lparr>rows := r\<rparr>))
               else put s)
         else (case remove_live old_id (rows s) of
                 (was_live, r) \<Rightarrow>
                   if require_old \<and> \<not> was_live then (Inr SessionGone, s\<lparr>rows := r\<rparr>)
                   else put (s\<lparr>rows := r\<rparr>)))"

definition mem_prune_expired :: "(memory_session_store, 'e, u64) act" where
  "mem_prune_expired s =
     (case prune_expired_sync (rows s) of (n, r) \<Rightarrow> (Inr n, s\<lparr>rows := r\<rparr>))"

definition mem_base :: "(memory_session_store, 'e) base_store" where
  "mem_base =
     \<lparr>load = mem_load, save = mem_save, delete = mem_delete, update = mem_update,
      cycle = mem_cycle, prune_expired = mem_prune_expired,
      find_sessions_for_user = mem_find_sessions_for_user\<rparr>"

definition mem_store :: "(memory_session_store, 'e) session_store" where
  "mem_store =
     \<lparr>load = mem_load, save = mem_save, delete = mem_delete, update = mem_update,
      cycle = mem_cycle, prune_expired = mem_prune_expired,
      find_sessions_for_user = mem_find_sessions_for_user,
      update_if_revision = cas_by_revision mem_row,
      cycle_if_revision = cycle_by_revision mem_base mem_row\<rparr>"

lemmas mem_defs [store_simps] =
  mem_load_def mem_save_def mem_delete_def mem_update_def mem_cas_read_def mem_delete_if_def
  mem_replace_if_def mem_cycle_def mem_prune_expired_def

subsection \<open>What a session store promises\<close>

text \<open>
  The contract of the trait as steps on the table of live rows: what each operation answers and
  what it leaves, including the zero lifetime, which stores nothing.
\<close>

type_synonym table = "session_id \<Rightarrow> session_data option"

definition spec_load :: "session_id \<Rightarrow> table \<Rightarrow> session_data option \<times> table" where
  "spec_load sid m = (m sid, m)"

definition spec_save :: "session_id \<Rightarrow> session_data \<Rightarrow> duration \<Rightarrow> table \<Rightarrow> unit \<times> table" where
  "spec_save sid data ttl m = ((), m(sid := if ttl = 0 then None else Some data))"

definition spec_delete :: "session_id \<Rightarrow> table \<Rightarrow> unit \<times> table" where
  "spec_delete sid m = ((), m(sid := None))"

definition spec_update :: "session_id \<Rightarrow> session_data \<Rightarrow> duration \<Rightarrow> table \<Rightarrow> bool \<times> table" where
  "spec_update sid data ttl m =
     (if ttl = 0 then (False, m(sid := None))
      else if m sid = None then (False, m) else (True, m(sid \<mapsto> data)))"

definition spec_update_if_revision ::
  "session_id \<Rightarrow> u64 \<Rightarrow> session_data \<Rightarrow> duration \<Rightarrow> table \<Rightarrow> conditional_update \<times> table" where
  "spec_update_if_revision sid expected data ttl m =
     (case m sid of
        None \<Rightarrow> (Gone, m)
      | Some x \<Rightarrow>
          if revision x \<noteq> expected then (Conflict, m)
          else if ttl = 0 then (Gone, m(sid := None)) else (Written, m(sid \<mapsto> data)))"

definition spec_cycle ::
  "session_id \<Rightarrow> session_id \<Rightarrow> session_data \<Rightarrow> duration \<Rightarrow> bool \<Rightarrow> table \<Rightarrow> cycle_outcome \<times> table" where
  "spec_cycle old_id new_id data ttl require_old m =
     (if ttl = 0 then (SessionGone, m(old_id := None, new_id := None))
      else if require_old \<and> m old_id = None then (SessionGone, m)
      else (Rotated, m(old_id := None, new_id \<mapsto> data)))"

definition spec_cycle_if_revision ::
  "session_id \<Rightarrow> session_id \<Rightarrow> session_data \<Rightarrow> duration \<Rightarrow> bool \<Rightarrow> u64 \<Rightarrow> table \<Rightarrow>
     cycle_outcome \<times> table" where
  "spec_cycle_if_revision old_id new_id data ttl require_old expected m =
     (if \<exists>x. m old_id = Some x \<and> revision x \<noteq> expected then (CycleConflict, m)
      else spec_cycle old_id new_id data ttl require_old m)"

lemmas spec_defs [store_simps] =
  spec_load_def spec_save_def spec_delete_def spec_update_def spec_update_if_revision_def
  spec_cycle_def spec_cycle_if_revision_def

locale session_store_contract =
  fixes st :: "('s, 'e) session_store"
    and good :: "'s \<Rightarrow> bool"
    and view :: "'s \<Rightarrow> table"
  assumes load_spec: "implements good view (load st sid) (spec_load sid)"
    and save_spec: "implements good view (save st sid data ttl) (spec_save sid data ttl)"
    and delete_spec: "implements good view (delete st sid) (spec_delete sid)"
    and update_spec: "implements good view (update st sid data ttl) (spec_update sid data ttl)"
    and update_if_revision_spec:
      "implements good view (update_if_revision st sid expected data ttl)
         (spec_update_if_revision sid expected data ttl)"
    and cycle_spec:
      "implements good view (cycle st old_id new_id data ttl require_old)
         (spec_cycle old_id new_id data ttl require_old)"
    and cycle_if_revision_spec:
      "implements good view (cycle_if_revision st old_id new_id data ttl require_old expected)
         (spec_cycle_if_revision old_id new_id data ttl require_old expected)"

subsection \<open>The in-memory store keeps the contract\<close>

definition mem_view :: "memory_session_store \<Rightarrow> table" where
  "mem_view s = live (rows s)"

definition mem_good :: "memory_session_store \<Rightarrow> bool" where
  "mem_good s \<longleftrightarrow> kv_wf (rows s)"

lemma mem_view_auto_purge [simp]: "mem_good s \<Longrightarrow> mem_view (maybe_auto_purge s) = mem_view s"
  by (simp add: mem_view_def mem_good_def maybe_auto_purge_def purge_expired_def Let_def)

lemma mem_good_auto_purge [simp]: "mem_good s \<Longrightarrow> mem_good (maybe_auto_purge s)"
  by (simp add: mem_good_def maybe_auto_purge_def purge_expired_def Let_def)

lemma mem_good_put [simp]: "mem_good s \<Longrightarrow> mem_good (s\<lparr>rows := kv_put k v ttl (rows s)\<rparr>)"
  by (simp add: mem_good_def)

lemma mem_good_del [simp]: "mem_good s \<Longrightarrow> mem_good (s\<lparr>rows := kv_delete k (rows s)\<rparr>)"
  by (simp add: mem_good_def)

lemma mem_view_put [simp]:
  "mem_good s \<Longrightarrow> 0 < ttl \<Longrightarrow> mem_view (s\<lparr>rows := kv_put k v ttl (rows s)\<rparr>) = (mem_view s)(k \<mapsto> v)"
  by (simp add: mem_good_def mem_view_def)

lemma mem_view_del [simp]: "mem_view (s\<lparr>rows := kv_delete k (rows s)\<rparr>) = (mem_view s)(k := None)"
  by (simp add: mem_view_def)

lemma rows_auto_purge [simp]:
  "kv_wf (rows s) \<Longrightarrow> live (rows (maybe_auto_purge s)) = live (rows s)"
  "kv_wf (rows s) \<Longrightarrow> kv_wf (rows (maybe_auto_purge s))"
  using mem_view_auto_purge mem_good_auto_purge by (simp_all add: mem_view_def mem_good_def)

lemma live_rows: "live (rows s) k = mem_view s k"
  by (simp add: mem_view_def)

lemmas mem_step_simps = live_rows replace_live_spec replace_live_if_spec remove_live_if_spec
  remove_live_spec cas_outcome_def

text \<open>One pass of the compare-and-swap decides on the row it reads.\<close>

lemma mem_replace_if_step:
  "mem_replace_if sid seen data ttl s =
     (case mem_view s sid of
        None \<Rightarrow> (Inr CasGone, s)
      | Some x \<Rightarrow> if revision x = seen
                  then (Inr CasDone, maybe_auto_purge (s\<lparr>rows := kv_put sid data ttl (rows s)\<rparr>))
                  else (Inr CasMissed, s))"
  by (simp add: mem_replace_if_def mem_step_simps Let_def split: option.split)

lemma mem_delete_if_step:
  "mem_delete_if sid seen s =
     (case mem_view s sid of
        None \<Rightarrow> (Inr CasGone, s)
      | Some x \<Rightarrow> if revision x = seen then (Inr CasDone, s\<lparr>rows := kv_delete sid (rows s)\<rparr>)
                  else (Inr CasMissed, s))"
  by (simp add: mem_delete_if_def mem_step_simps split: option.split)

text \<open>The same decision as one step, which the loop of reads and conditional writes implements.\<close>

definition mem_cas_once ::
  "session_id \<Rightarrow> u64 \<Rightarrow> session_data \<Rightarrow> duration \<Rightarrow> memory_session_store \<Rightarrow>
     conditional_update \<times> memory_session_store" where
  "mem_cas_once sid expected data ttl s =
     (case mem_view s sid of
        None \<Rightarrow> (Gone, s)
      | Some x \<Rightarrow>
          if revision x \<noteq> expected then (Conflict, s)
          else if ttl = 0 then (Gone, s\<lparr>rows := kv_delete sid (rows s)\<rparr>)
          else (Written, maybe_auto_purge (s\<lparr>rows := kv_put sid data ttl (rows s)\<rparr>)))"

lemma mem_row_sel [simp]:
  "cas_read mem_row = mem_cas_read" "delete_if mem_row = mem_delete_if"
  "replace_if mem_row = mem_replace_if"
  by (simp_all add: mem_row_def)

lemma mem_cas_read_step: "mem_cas_read sid s = (Inr (map_option (\<lambda>d. (revision d, revision d)) (mem_view s sid)), s)"
  by (simp add: mem_cas_read_def live_rows)

lemma mem_cas_attempts:
  "0 < n \<Longrightarrow> cas_attempts n mem_row sid expected data ttl s =
     (case mem_cas_once sid expected data ttl s of (r, s') \<Rightarrow> (Inr r, s'))"
  by (cases n)
     (auto simp: act_bind_apply mem_cas_read_step mem_delete_if_step mem_replace_if_step
        mem_cas_once_def split: option.split)

lemma mem_cas_once_view:
  "mem_good s \<Longrightarrow> mem_good (snd (mem_cas_once sid expected data ttl s)) \<and>
     (fst (mem_cas_once sid expected data ttl s), mem_view (snd (mem_cas_once sid expected data ttl s))) =
       spec_update_if_revision sid expected data ttl (mem_view s)"
  by (auto simp: mem_cas_once_def spec_update_if_revision_def split: option.split)

lemma mem_load_implements: "implements mem_good mem_view (mem_load sid) (spec_load sid)"
  by (rule implementsI) (simp add: mem_load_def spec_load_def live_rows)

lemma mem_save_implements: "implements mem_good mem_view (mem_save sid data ttl) (spec_save sid data ttl)"
  by (rule implementsI) (simp add: mem_save_def spec_save_def)

lemma mem_delete_implements: "implements mem_good mem_view (mem_delete sid) (spec_delete sid)"
  by (rule implementsI) (simp add: mem_delete_def spec_delete_def)

lemma mem_update_implements:
  "implements mem_good mem_view (mem_update sid data ttl) (spec_update sid data ttl)"
  by (rule implementsI) (auto simp: mem_update_def spec_update_def mem_good_def mem_view_def
      replace_live_spec remove_live_spec)

lemma mem_update_if_revision_implements:
  "implements mem_good mem_view (cas_by_revision mem_row sid expected data ttl)
     (spec_update_if_revision sid expected data ttl)"
proof (rule implementsI)
  fix s assume "mem_good s"
  from mem_cas_once_view [OF this, of sid expected data ttl]
  show "mem_good (snd (cas_by_revision mem_row sid expected data ttl s)) \<and>
    (\<exists>x. fst (cas_by_revision mem_row sid expected data ttl s) = Inr x \<and>
      (x, mem_view (snd (cas_by_revision mem_row sid expected data ttl s))) =
        spec_update_if_revision sid expected data ttl (mem_view s))"
    by (cases "mem_cas_once sid expected data ttl s") (simp add: cas_by_revision_def mem_cas_attempts)
qed

lemma mem_cycle_implements:
  "implements mem_good mem_view (mem_cycle old_id new_id data ttl require_old)
     (spec_cycle old_id new_id data ttl require_old)"
proof (rule implementsI)
  fix s assume good: "mem_good s"
  have gone: "live r k = None \<Longrightarrow> (live r)(k := None) = live r"
    for r :: "(session_id, session_data) memory_store" and k
    by (simp add: fun_upd_idem)
  show "mem_good (snd (mem_cycle old_id new_id data ttl require_old s)) \<and>
    (\<exists>x. fst (mem_cycle old_id new_id data ttl require_old s) = Inr x \<and>
      (x, mem_view (snd (mem_cycle old_id new_id data ttl require_old s))) =
        spec_cycle old_id new_id data ttl require_old (mem_view s))"
    using good
    by (simp add: mem_cycle_def spec_cycle_def mem_good_def mem_view_def replace_live_spec
        remove_live_spec gone Let_def)
qed

lemma mem_base_sel [simp]:
  "save mem_base = mem_save" "delete mem_base = mem_delete" "cycle mem_base = mem_cycle"
  by (simp_all add: mem_base_def)

lemma mem_store_sel [simp]:
  "load mem_store = mem_load" "save mem_store = mem_save" "delete mem_store = mem_delete"
  "update mem_store = mem_update" "cycle mem_store = mem_cycle"
  "update_if_revision mem_store = cas_by_revision mem_row"
  "cycle_if_revision mem_store = cycle_by_revision mem_base mem_row"
  by (simp_all add: mem_store_def)

lemma mem_cycle_attempts:
  assumes "mem_good s" "0 < n" "0 < ttl"
  shows "\<exists>x s'. cycle_attempts n mem_base mem_row old_id new_id data ttl require_old expected s = (Inr x, s') \<and>
    mem_good s' \<and>
    (x, mem_view s') = spec_cycle_if_revision old_id new_id data ttl require_old expected (mem_view s)"
proof -
  obtain k where n: "n = Suc k" using assms(2) by (cases n) auto
  have gone: "live r i = None \<Longrightarrow> (live r)(i := None) = live r"
    for r :: "(session_id, session_data) memory_store" and i
    by (simp add: fun_upd_idem)
  show ?thesis
  proof (cases "mem_view s old_id")
    case None
    with assms n gone show ?thesis
      by (auto simp: Let_def act_bind_apply mem_cas_read_step mem_save_def mem_delete_def
          spec_cycle_if_revision_def spec_cycle_def mem_good_def mem_view_def)
  next
    case (Some x)
    with assms n show ?thesis
      by (auto simp: Let_def act_bind_apply mem_cas_read_step mem_save_def mem_delete_if_step
          mem_replace_if_step spec_cycle_if_revision_def spec_cycle_def mem_good_def mem_view_def)
  qed
qed

lemma mem_cycle_zero:
  "ttl = 0 \<Longrightarrow> cycle_by_revision mem_base mem_row old_id new_id data ttl require_old expected =
     (\<lambda>s. if \<exists>x. mem_view s old_id = Some x \<and> revision x \<noteq> expected then (Inr CycleConflict, s)
          else mem_cycle old_id new_id data ttl require_old s)"
  by (intro ext) (auto simp: cycle_by_revision_def act_bind_apply mem_cas_read_step)

lemma mem_cycle_if_revision_implements:
  "implements mem_good mem_view (cycle_by_revision mem_base mem_row old_id new_id data ttl require_old expected)
     (spec_cycle_if_revision old_id new_id data ttl require_old expected)"
proof (cases "ttl = 0")
  case True
  show ?thesis
    unfolding mem_cycle_zero [OF True] spec_cycle_if_revision_def [abs_def]
    by (rule implements_guard [OF mem_cycle_implements])
next
  case False
  then show ?thesis
    by (intro implements_runI) (simp add: cycle_by_revision_def mem_cycle_attempts)
qed

interpretation mem_contract: session_store_contract mem_store mem_good mem_view
  by unfold_locales
     (simp_all add: mem_load_implements mem_save_implements mem_delete_implements
        mem_update_implements mem_update_if_revision_implements mem_cycle_implements
        mem_cycle_if_revision_implements)

subsection \<open>The compare-and-swap among other requests\<close>

text \<open>The steps of a compare-and-swap with a disturbance before each.\<close>

definition disturbed_row :: "('s, 'e, 'seen) cas_row \<Rightarrow> (('s, 'e) world, 'e, 'seen) cas_row" where
  "disturbed_row row =
     \<lparr>cas_read = (\<lambda>sid. disturbed (cas_read row sid)),
      delete_if = (\<lambda>sid seen. disturbed (delete_if row sid seen)),
      replace_if = (\<lambda>sid seen data ttl. disturbed (replace_if row sid seen data ttl))\<rparr>"

lemma disturbed_row_sel [simp]:
  "cas_read (disturbed_row row) sid = disturbed (cas_read row sid)"
  "delete_if (disturbed_row row) sid seen = disturbed (delete_if row sid seen)"
  "replace_if (disturbed_row row) sid seen data ttl = disturbed (replace_if row sid seen data ttl)"
  by (simp_all add: disturbed_row_def)

definition disturbed_store :: "('s, 'e) session_store \<Rightarrow> (('s, 'e) world, 'e) session_store" where
  "disturbed_store st =
     \<lparr>load = (\<lambda>sid. disturbed (load st sid)),
      save = (\<lambda>sid data ttl. disturbed (save st sid data ttl)),
      delete = (\<lambda>sid. disturbed (delete st sid)),
      update = (\<lambda>sid data ttl. disturbed (update st sid data ttl)),
      cycle = (\<lambda>old_id new_id data ttl req. disturbed (cycle st old_id new_id data ttl req)),
      prune_expired = disturbed (prune_expired st),
      find_sessions_for_user = (\<lambda>user limit. disturbed (find_sessions_for_user st user limit)),
      update_if_revision = (\<lambda>sid expected data ttl. disturbed (update_if_revision st sid expected data ttl)),
      cycle_if_revision = (\<lambda>old_id new_id data ttl req expected.
        disturbed (cycle_if_revision st old_id new_id data ttl req expected))\<rparr>"

lemma disturbed_store_sel [simp]:
  "load (disturbed_store st) sid = disturbed (load st sid)"
  "save (disturbed_store st) sid data ttl = disturbed (save st sid data ttl)"
  "delete (disturbed_store st) sid = disturbed (delete st sid)"
  "update (disturbed_store st) sid data ttl = disturbed (update st sid data ttl)"
  "cycle (disturbed_store st) old_id new_id data ttl req = disturbed (cycle st old_id new_id data ttl req)"
  "update_if_revision (disturbed_store st) sid expected data ttl =
     disturbed (update_if_revision st sid expected data ttl)"
  "cycle_if_revision (disturbed_store st) old_id new_id data ttl req expected =
     disturbed (cycle_if_revision st old_id new_id data ttl req expected)"
  by (simp_all add: disturbed_store_def)

text \<open>The conditional write of one attempt, on a row read with the expected revision.\<close>

definition cas_try ::
  "('s, 'e, u64) cas_row \<Rightarrow> session_id \<Rightarrow> u64 \<Rightarrow> session_data \<Rightarrow> duration \<Rightarrow> ('s, 'e, cas_write) act" where
  "cas_try row sid seen data ttl =
     (if ttl = 0
      then act_bind (delete_if row sid seen) (\<lambda>w. act_ok (if w = CasDone then CasGone else w))
      else replace_if row sid seen data ttl)"

definition cas_answer :: "cas_write \<Rightarrow> conditional_update" where
  "cas_answer w = (case w of CasDone \<Rightarrow> Written | CasGone \<Rightarrow> Gone | CasMissed \<Rightarrow> Conflict)"

lemma mem_cas_try:
  assumes "cas_try (disturbed_row mem_row) sid seen data ttl w = (r, w')"
  shows "acts_once (mem_cas_once sid seen data ttl) w (map_sum id cas_answer r) w' \<and>
    (r = Inr CasMissed \<longrightarrow> silent_call w w')"
proof (cases "ttl = 0")
  case True
  with assms obtain q where q: "disturbed (mem_delete_if sid seen) w = (q, w')"
    "r = map_sum id (\<lambda>x. if x = CasDone then CasGone else x) q"
    by (auto simp: cas_try_def act_bind_apply split: prod.splits sum.splits)
  have "acts_once (mem_cas_once sid seen data ttl) w
      (map_sum id (\<lambda>x. cas_answer (if x = CasDone then CasGone else x)) q) w'"
    by (rule acts_once_single [OF q(1)])
       (auto simp: mem_delete_if_step mem_cas_once_def True cas_answer_def split: option.splits if_splits)
  moreover have "silent_call w w'" if "r = Inr CasMissed"
    using q(1) that q(2)
    by (cases rule: disturbed_cases)
       (cases q; auto simp: mem_delete_if_step silent_call_def split: option.splits if_splits)+
  ultimately show ?thesis using q(2) by (cases q) simp_all
next
  case False
  with assms have q: "disturbed (mem_replace_if sid seen data ttl) w = (r, w')"
    by (simp add: cas_try_def)
  have "acts_once (mem_cas_once sid seen data ttl) w (map_sum id cas_answer r) w'"
    by (rule acts_once_single [OF q])
       (auto simp: mem_replace_if_step mem_cas_once_def False cas_answer_def split: option.splits if_splits)
  moreover have "silent_call w w'" if "r = Inr CasMissed"
    using q that
    by (cases rule: disturbed_cases)
       (auto simp: mem_replace_if_step silent_call_def split: option.splits if_splits)
  ultimately show ?thesis by simp
qed

lemma cas_attempts_try:
  "cas_attempts (Suc n) row sid expected data ttl =
     act_bind (cas_read row sid) (\<lambda>found.
       case found of
         None \<Rightarrow> act_ok Gone
       | Some (found_rev, seen) \<Rightarrow>
           if found_rev \<noteq> expected then act_ok Conflict
           else act_bind (cas_try row sid seen data ttl) (\<lambda>w.
                  if w = CasMissed then cas_attempts n row sid expected data ttl
                  else act_ok (cas_answer w)))"
proof -
  have cont: "(\<lambda>w. case w of CasDone \<Rightarrow> act_ok Written | CasGone \<Rightarrow> act_ok Gone
      | CasMissed \<Rightarrow> cas_attempts n row sid expected data ttl) =
    (\<lambda>w. if w = CasMissed then cas_attempts n row sid expected data ttl else act_ok (cas_answer w))"
    by (rule ext) (simp add: cas_answer_def split: cas_write.split)
  show ?thesis unfolding cas_attempts.simps cont cas_try_def ..
qed

lemma mem_cas_read_disturbed:
  assumes "disturbed (mem_cas_read sid) w = (Inr found, w')"
  shows "silent_call w w' \<and>
    found = map_option (\<lambda>d. (revision d, revision d)) (mem_view (moved 1 w) sid)"
  using assms by (cases rule: disturbed_cases) (auto simp: mem_cas_read_step silent_call_def)

lemma acts_once_read:
  "silent_call w w' \<Longrightarrow> f (moved 1 w) = (x, moved 1 w) \<Longrightarrow> acts_once f w (Inr x) w'"
  by (auto simp: acts_once_def silent_call_def intro!: exI [of _ 1])

lemma mem_cas_step:
  assumes run: "cas_attempts (Suc n) (disturbed_row mem_row) sid expected data ttl w = (r, w')"
    and IH: "\<And>w1. 0 < n \<Longrightarrow> cas_attempts n (disturbed_row mem_row) sid expected data ttl w1 = (r, w') \<Longrightarrow>
      acts_once (mem_cas_once sid expected data ttl) w1 r w'"
  shows "acts_once (mem_cas_once sid expected data ttl) w r w'"
proof -
  let ?once = "mem_cas_once sid expected data ttl"
  obtain q w1 where read: "disturbed (mem_cas_read sid) w = (q, w1)" by fastforce
  show ?thesis
  proof (cases q)
    case (Inl e)
    with run read have "r = Inl e" "w' = w1" by (simp_all add: cas_attempts_try act_bind_apply)
    with read Inl show ?thesis
      by (cases rule: disturbed_cases)
         (auto simp: mem_cas_read_step acts_once_def intro!: exI [of _ 1])
  next
    case (Inr found)
    let ?row = "mem_view (moved 1 w) sid"
    from read Inr mem_cas_read_disturbed have s: "silent_call w w1"
      "found = map_option (\<lambda>d. (revision d, revision d)) ?row"
      by blast+
    show ?thesis
    proof (cases "\<exists>x. ?row = Some x \<and> revision x = expected")
      case False
      then have "?once (moved 1 w) = (if ?row = None then Gone else Conflict, moved 1 w)"
        by (auto simp: mem_cas_once_def split: option.split)
      moreover have "r = Inr (if ?row = None then Gone else Conflict)" "w' = w1"
        using run read Inr s(2) False
        by (auto simp: cas_attempts_try act_bind_apply split: option.splits)
      ultimately show ?thesis using acts_once_read [OF s(1), of ?once] by simp
    next
      case True
      with s(2) have found: "found = Some (expected, expected)" by auto
      obtain t w2 where tried: "cas_try (disturbed_row mem_row) sid expected data ttl w1 = (t, w2)"
        by fastforce
      note act = mem_cas_try [OF tried]
      show ?thesis
      proof (cases "t = Inr CasMissed \<and> 0 < n")
        case True
        with act have s2: "silent_call w1 w2" by blast
        from run read Inr found tried True
        have "cas_attempts n (disturbed_row mem_row) sid expected data ttl w2 = (r, w')"
          by (simp add: cas_attempts_try act_bind_apply del: cas_attempts.simps)
        from IH [OF _ this] True show ?thesis
          using acts_once_after_silent [OF s(1) acts_once_after_silent [OF s2]] by blast
      next
        case False
        have "r = map_sum id cas_answer t \<and> w' = w2"
          using run read Inr found tried False
          by (auto simp: cas_attempts_try act_bind_apply cas_answer_def cas_attempts.simps(1)
              simp del: cas_attempts.simps(2) split: sum.splits if_splits)
        with act show ?thesis using acts_once_after_silent [OF s(1)] by blast
      qed
    qed
  qed
qed

lemma mem_cas_acts_once:
  assumes "cas_attempts (Suc n) (disturbed_row mem_row) sid expected data ttl w = (r, w')"
  shows "acts_once (mem_cas_once sid expected data ttl) w r w'"
  using assms
proof (induction n arbitrary: w)
  case (0 w)
  then show ?case by (rule mem_cas_step) simp
next
  case (Suc n w)
  from Suc.prems show ?case by (rule mem_cas_step) (rule Suc.IH)
qed

subsection \<open>Properties\<close>

text \<open>
  C12. The in-memory store keeps the contract of a session store: the loops of reads and
  conditional removals and writes by which it updates and rotates at a revision answer and leave
  what the one-step contract says, the zero lifetime included.
\<close>

theorem mem_store_keeps_contract:
  "implements mem_good mem_view (update_if_revision mem_store sid expected data ttl)
     (spec_update_if_revision sid expected data ttl) \<and>
   implements mem_good mem_view (cycle_if_revision mem_store old_id new_id data ttl require_old expected)
     (spec_cycle_if_revision old_id new_id data ttl require_old expected) \<and>
   implements mem_good mem_view (update mem_store sid data ttl) (spec_update sid data ttl) \<and>
   implements mem_good mem_view (cycle mem_store old_id new_id data ttl require_old)
     (spec_cycle old_id new_id data ttl require_old)"
  by (intro conjI mem_contract.update_if_revision_spec mem_contract.cycle_if_revision_spec
      mem_contract.update_spec mem_contract.cycle_spec)

text \<open>
  C11. Among other requests and failing calls, the compare-and-swap on a revision is one step:
  whatever the environment does between its reads and its conditional write, its answer and its
  effect are those of a single comparison and write at the moment of its last call, and its
  earlier calls change nothing. A call that fails wrote what that step writes, or nothing.
\<close>

theorem cas_is_one_step:
  assumes "cas_by_revision (disturbed_row mem_row) sid expected data ttl w = (r, w')"
  shows "acts_once (mem_cas_once sid expected data ttl) w r w'"
  using assms mem_cas_acts_once [of 1] by (simp only: cas_by_revision_def numeral_2_eq_2 One_nat_def)

theorem cas_is_one_step_witness:
  "let s = \<lparr>rows = kv_put 1 session_data_default 10 (kv_new \<lparr>min_utc = 0, max_utc = 100, max_delta = 100\<rparr> 5),
            write_count = 0\<rparr>;
       racing = \<lparr>before = (\<lambda>s. snd (mem_save 1 (session_data_default\<lparr>revision := 7\<rparr>) 10 s :: (nat + unit) \<times> _)),
                 fault = None, landed = True\<rparr>;
       w = \<lparr>current = s, ahead = [calm, racing], effects = []\<rparr>;
       run = cas_by_revision (disturbed_row mem_row) 1 0 session_data_default 10 w
   in acts_once (mem_cas_once 1 0 session_data_default 10) w (fst run) (snd run)"
  unfolding Let_def by (rule cas_is_one_step [OF surjective_pairing])

text \<open>
  C13. A request that holds an outdated revision never writes: once the stored row carries another
  revision (or is gone), and as long as no other request puts the old revision back, every
  compare-and-swap on it is refused, however the calls interleave.
\<close>

theorem stale_revision_never_writes:
  assumes "\<forall>x. mem_view (current w) sid = Some x \<longrightarrow> revision x \<noteq> expected"
    and "\<forall>d \<in> set (ahead w). \<forall>s. (\<forall>x. mem_view s sid = Some x \<longrightarrow> revision x \<noteq> expected) \<longrightarrow>
           (\<forall>x. mem_view (before d s) sid = Some x \<longrightarrow> revision x \<noteq> expected)"
    and "cas_by_revision (disturbed_row mem_row) sid expected data ttl w = (Inr r, w')"
  shows "r \<noteq> Written \<and> (\<exists>k. current w' = moved k w)"
proof -
  from assms(3) mem_cas_acts_once [of 1 sid expected data ttl w "Inr r" w']
  have "acts_once (mem_cas_once sid expected data ttl) w (Inr r) w'"
    by (simp only: cas_by_revision_def numeral_2_eq_2 One_nat_def)
  then obtain k where k: "mem_cas_once sid expected data ttl (moved k w) = (r, current w')"
    by (auto simp: acts_once_def)
  have "\<forall>x. mem_view (moved k w) sid = Some x \<longrightarrow> revision x \<noteq> expected"
    by (rule moved_keeps [where P = "\<lambda>s. \<forall>x. mem_view s sid = Some x \<longrightarrow> revision x \<noteq> expected",
          OF assms(1,2)])
  with k have "r \<noteq> Written" "current w' = moved k w"
    by (auto simp: mem_cas_once_def split: option.splits)
  then show ?thesis by blast
qed

theorem stale_revision_never_writes_witness:
  "fst (cas_by_revision (disturbed_row mem_row) 1 3 session_data_default 10
     (quiet \<lparr>rows = kv_put 1 session_data_default 10
                (kv_new \<lparr>min_utc = 0, max_utc = 100, max_delta = 100\<rparr> 5), write_count = 0\<rparr>))
   \<noteq> (Inr Written :: nat + conditional_update)"
proof -
  let ?s = "\<lparr>rows = kv_put 1 session_data_default 10
    (kv_new \<lparr>min_utc = 0, max_utc = 100, max_delta = 100\<rparr> 5), write_count = 0\<rparr>"
  let ?w = "quiet ?s :: (memory_session_store, nat) world"
  let ?run = "cas_by_revision (disturbed_row mem_row) 1 3 session_data_default 10 ?w"
  have stale: "\<forall>x. mem_view (current ?w) 1 = Some x \<longrightarrow> revision x \<noteq> 3"
    by (simp add: quiet_def mem_view_def in_time_def session_data_default_def)
  show ?thesis
  proof
    assume "fst ?run = Inr Written"
    then have "?run = (Inr Written, snd ?run)" by (simp add: prod_eq_iff)
    from stale_revision_never_writes [OF stale _ this] show False by (simp add: quiet_def)
  qed
qed

end
