(* ===== verification/Session_Handle.thy ===== *)
theory Session_Handle
  imports Session_Store
begin

section \<open>The session of a request\<close>

text \<open>
  \<^verbatim>\<open>session/layer/handle.rs\<close> and \<^verbatim>\<open>session/extractor.rs\<close>: the mutable state a request holds its
  session in (\<^verbatim>\<open>SessionInner\<close>) and everything a handler does to it; and \<^verbatim>\<open>session/layer/swap.rs\<close>:
  the merging write. A method of \<^verbatim>\<open>AuthSession\<close> takes the request's write lock once, so it is one
  function of the state. The store a consumption goes to is a parameter.
\<close>

subsection \<open>State\<close>

record consume_target =
  target_ttl :: duration
  loaded :: "session_data option"

record session_inner =
  inner_id :: session_id
  data :: session_data
  modified :: bool
  needs_persist :: bool
  regenerate :: bool
  pre_cycle_id :: "session_id option"
  pending_fingerprint :: "string option"
  max_custom_bytes :: nat
  inner_rng :: rng
  consume :: "consume_target option"

record auth_snapshot =
  snap_user_id :: user_id
  snap_tenant_id :: tenant_id
  snap_session_id :: session_id
  snap_authn_time :: datetime
  snap_impersonation :: "impersonation option"

abbreviation auth_of :: "session_inner \<Rightarrow> auth_state" where
  "auth_of si \<equiv> auth_state (data si)"

abbreviation custom_of :: "session_inner \<Rightarrow> json" where
  "custom_of si \<equiv> custom (data si)"

definition set_auth :: "auth_state \<Rightarrow> session_inner \<Rightarrow> session_inner" where
  "set_auth st si = si\<lparr>data := (data si)\<lparr>auth_state := st\<rparr>\<rparr>"

definition set_bag :: "json \<Rightarrow> session_inner \<Rightarrow> session_inner" where
  "set_bag bag si = si\<lparr>data := (data si)\<lparr>custom := bag\<rparr>\<rparr>"

definition mark_needs_persist :: "session_inner \<Rightarrow> session_inner" where
  "mark_needs_persist si = si\<lparr>needs_persist := True\<rparr>"

definition rotate_id :: "session_inner \<Rightarrow> session_inner" where
  "rotate_id si =
     (let (new_id, r) = mint (inner_rng si) in
      si\<lparr>pre_cycle_id := (if pre_cycle_id si = None then Some (inner_id si) else pre_cycle_id si),
         inner_id := new_id, regenerate := True, inner_rng := r\<rparr>)"

text \<open>The pending fingerprint is taken and bound when the session has none.\<close>

definition bind_fingerprint :: "session_inner \<Rightarrow> session_inner" where
  "bind_fingerprint si =
     (if fingerprint (data si) = None \<and> pending_fingerprint si \<noteq> None
      then si\<lparr>data := (data si)\<lparr>fingerprint := pending_fingerprint si\<rparr>, pending_fingerprint := None\<rparr>
      else si)"

definition set_custom_value ::
  "json_ser \<Rightarrow> string \<Rightarrow> json \<Rightarrow> session_inner \<Rightarrow> bool \<times> session_inner" where
  "set_custom_value ser key v si =
     (let bag = (if is_object (custom_of si) then obj_map (custom_of si) else []);
          limit = max_custom_bytes si;
          prev = bt_get bag key;
          bag' = bt_insert key v bag
      in if 0 < limit \<and> limit < json_byte_len ser (JObject bag')
         then (False, set_bag (JObject (case prev of
                        Some old \<Rightarrow> bt_insert key old bag'
                      | None \<Rightarrow> bt_remove key bag')) si)
         else (True, (set_bag (JObject bag') si)\<lparr>modified := True\<rparr>))"

subsection \<open>Readers\<close>

definition session_user_id :: "session_inner \<Rightarrow> user_id option" where
  "session_user_id si = (case auth_of si of Authenticated d \<Rightarrow> Some (ad_user_id d) | _ \<Rightarrow> None)"

definition session_tenant_id :: "session_inner \<Rightarrow> tenant_id option" where
  "session_tenant_id si = (case auth_of si of Authenticated d \<Rightarrow> Some (ad_tenant_id d) | _ \<Rightarrow> None)"

definition session_impersonator :: "session_inner \<Rightarrow> user_id option" where
  "session_impersonator si = map_option admin (impersonation_of (auth_of si))"

definition authenticating_state ::
  "session_inner \<Rightarrow> (user_id \<times> tenant_id \<times> factor_step list) option" where
  "authenticating_state si =
     (case auth_of si of
        Authenticating a \<Rightarrow> Some (ag_user_id a, ag_tenant_id a, remaining a)
      | _ \<Rightarrow> None)"

text \<open>Reading the id keeps the session beyond the request; peeking does not.\<close>

definition session_id_of :: "session_inner \<Rightarrow> session_id \<times> session_inner" where
  "session_id_of si = (inner_id si, si\<lparr>needs_persist := True\<rparr>)"

definition peek_session_id :: "session_inner \<Rightarrow> session_id" where
  "peek_session_id si = inner_id si"

definition session_snapshot :: "session_inner \<Rightarrow> auth_snapshot option" where
  "session_snapshot si =
     (case auth_of si of
        Authenticated d \<Rightarrow>
          Some \<lparr>snap_user_id = ad_user_id d, snap_tenant_id = ad_tenant_id d,
                snap_session_id = inner_id si, snap_authn_time = authn_time d,
                snap_impersonation = ad_impersonator d\<rparr>
      | _ \<Rightarrow> None)"

definition authenticated_ids :: "session_inner \<Rightarrow> (user_id \<times> tenant_id) option" where
  "authenticated_ids si =
     (case auth_of si of Authenticated d \<Rightarrow> Some (ad_user_id d, ad_tenant_id d) | _ \<Rightarrow> None)"

subsection \<open>Transitions\<close>

definition session_set_impersonator ::
  "user_id \<Rightarrow> datetime \<Rightarrow> session_inner \<Rightarrow> bool \<times> session_inner" where
  "session_set_impersonator adm at si =
     (case set_impersonator adm at (auth_of si) of
        (st, marked) \<Rightarrow>
          (marked, (set_auth st si)\<lparr>modified := modified si \<or> marked\<rparr>))"

definition session_set_authenticated_keeping ::
  "user_id \<Rightarrow> tenant_id \<Rightarrow> datetime \<Rightarrow> string list \<Rightarrow> session_inner \<Rightarrow> session_inner" where
  "session_set_authenticated_keeping u t time preserved si =
     (let si1 = set_auth (set_authenticated u t time (auth_of si)) si;
          si2 = set_bag (retain_across_login preserved (custom_of si1)) si1;
          si3 = bind_fingerprint si2
      in rotate_id (si3\<lparr>modified := True\<rparr>))"

definition session_set_authenticated ::
  "user_id \<Rightarrow> tenant_id \<Rightarrow> datetime \<Rightarrow> session_inner \<Rightarrow> session_inner" where
  "session_set_authenticated u t time si = session_set_authenticated_keeping u t time [] si"

definition session_begin_authenticating ::
  "user_id \<Rightarrow> tenant_id \<Rightarrow> string \<Rightarrow> factor_step list \<Rightarrow> session_inner \<Rightarrow> session_inner" where
  "session_begin_authenticating u t m steps si =
     (bind_fingerprint (rotate_id (set_auth (begin_authenticating u t m steps (auth_of si)) si)))
       \<lparr>modified := True\<rparr>"

definition session_advance_factor ::
  "factor_kind \<Rightarrow> datetime \<Rightarrow> string list \<Rightarrow> session_inner \<Rightarrow> session_inner" where
  "session_advance_factor kind time preserved si =
     (case advance_factor kind time (auth_of si) of
        (st, Completed) \<Rightarrow>
          (let si1 = set_auth st si;
               si2 = set_bag (retain_across_login preserved (custom_of si1)) si1
           in (rotate_id (bind_fingerprint si2))\<lparr>modified := True\<rparr>)
      | (st, StillAuthenticating) \<Rightarrow> (set_auth st si)\<lparr>modified := True\<rparr>
      | (st, NotApplicable) \<Rightarrow> set_auth st si)"

definition session_record_attempt_at :: "datetime \<Rightarrow> session_inner \<Rightarrow> session_inner" where
  "session_record_attempt_at now si = set_auth (record_attempt_at now (auth_of si)) si"

definition session_set_identifying :: "user_id \<Rightarrow> tenant_id \<Rightarrow> session_inner \<Rightarrow> session_inner" where
  "session_set_identifying u t si =
     (bind_fingerprint (rotate_id (set_auth (set_identifying u t (auth_of si)) si)))
       \<lparr>modified := True\<rparr>"

definition session_set_pending_workflow ::
  "user_id \<Rightarrow> tenant_id \<Rightarrow> workflow_state \<Rightarrow> session_inner \<Rightarrow> session_inner" where
  "session_set_pending_workflow u t w si =
     (bind_fingerprint (rotate_id (set_auth (set_pending_workflow u t w (auth_of si)) si)))
       \<lparr>modified := True\<rparr>"

definition session_set_ldap_groups :: "string list \<Rightarrow> session_inner \<Rightarrow> session_inner" where
  "session_set_ldap_groups groups si =
     (set_auth (set_ldap_groups groups (auth_of si)) si)\<lparr>modified := True\<rparr>"

definition session_clear :: "session_inner \<Rightarrow> session_inner" where
  "session_clear si = rotate_id (si\<lparr>data := session_data_default, modified := True\<rparr>)"

definition session_regenerate :: "session_inner \<Rightarrow> session_inner" where
  "session_regenerate si = (rotate_id si)\<lparr>modified := True\<rparr>"

text \<open>
  \<^verbatim>\<open>authn/service/login/reauth.rs\<close>: the part of the step-up that runs under the session's lock.
  The steps ask for one factor, or any of the enrolled ones; the stamp of the flow is computed by
  the login service.
\<close>

definition step_up_steps :: "factor_kind list \<Rightarrow> factor_step list option" where
  "step_up_steps enrolled =
     (case enrolled of
        [] \<Rightarrow> None
      | first # _ \<Rightarrow> Some [if length enrolled = 1 then Required first else AnyOf enrolled])"

definition session_begin_step_up ::
  "json_ser \<Rightarrow> user_id \<Rightarrow> tenant_id \<Rightarrow> factor_step list \<Rightarrow> json \<Rightarrow> session_inner \<Rightarrow> bool \<times> session_inner" where
  "session_begin_step_up ser u t steps stamp si =
     (if pending_user_id (auth_of si) \<noteq> Some u \<or> state_tenant_id (auth_of si) \<noteq> Some t then (False, si)
      else case begin_step_up steps (auth_of si) of
             (st, False) \<Rightarrow> (False, set_auth st si)
           | (st, True) \<Rightarrow>
               (True, (snd (set_custom_value ser LOGIN_FLOW_KEY stamp (set_auth st si)))\<lparr>modified := True\<rparr>))"

subsection \<open>The custom bag\<close>

definition get_custom :: "string \<Rightarrow> session_inner \<Rightarrow> json option" where
  "get_custom key si = json_get (custom_of si) key"

definition clear_custom :: "session_inner \<Rightarrow> session_inner" where
  "clear_custom si = (set_bag (JObject []) si)\<lparr>modified := True\<rparr>"

text \<open>\<^verbatim>\<open>as_object_mut().and_then(|c| c.remove(key))\<close>: the value, and the bag without it.\<close>

definition bag_remove :: "string \<Rightarrow> json \<Rightarrow> json option \<times> json" where
  "bag_remove key bag =
     (case as_object bag of
        None \<Rightarrow> (None, bag)
      | Some m \<Rightarrow> (bt_get m key, JObject (bt_remove key m)))"

definition remove_custom :: "string \<Rightarrow> session_inner \<Rightarrow> bool \<times> session_inner" where
  "remove_custom key si =
     (case bag_remove key (custom_of si) of
        (v, bag) \<Rightarrow>
          (v \<noteq> None, (set_bag bag si)\<lparr>modified := modified si \<or> v \<noteq> None\<rparr>))"

definition mutate_custom ::
  "(json btree \<Rightarrow> 'a \<times> json btree) \<Rightarrow> session_inner \<Rightarrow> 'a \<times> session_inner" where
  "mutate_custom f si =
     (let bag = (if is_object (custom_of si) then obj_map (custom_of si) else []);
          (x, bag') = f bag
      in (x, (set_bag (JObject bag') si)\<lparr>modified := modified si \<or> bag' \<noteq> bag\<rparr>))"

definition set_custom :: "json_ser \<Rightarrow> string \<Rightarrow> json \<Rightarrow> session_inner \<Rightarrow> bool \<times> session_inner" where
  "set_custom ser key v si = set_custom_value ser key v si"

lemmas session_op_defs [state_simps] =
  session_set_impersonator_def session_set_authenticated_keeping_def session_set_authenticated_def
  session_begin_authenticating_def session_advance_factor_def session_record_attempt_at_def
  session_set_identifying_def session_set_pending_workflow_def session_set_ldap_groups_def
  session_clear_def session_regenerate_def session_begin_step_up_def

subsection \<open>The merging write\<close>

abbreviation SWAP_ATTEMPTS :: nat where
  "SWAP_ATTEMPTS \<equiv> 3"

datatype swapped = SwapWritten session_data | SwapGone | SwapConflict | SwapDeclined

record swap =
  swap_row :: session_id
  swap_base :: "session_data option"
  swap_local :: session_data
  swap_expected :: u64
  swap_ttl :: duration
  swap_max_custom_bytes :: nat

text \<open>What an attempt writes: the next revision and a bag within the cap.\<close>

definition stamp_next :: "json_ser \<Rightarrow> nat \<Rightarrow> u64 \<Rightarrow> session_data \<Rightarrow> session_data" where
  "stamp_next ser max_bytes expected next =
     next\<lparr>revision := expected + 1, custom := cap_custom ser max_bytes (custom next)\<rparr>"

text \<open>What the next attempt carries after a conflict: the local changes on the row found.\<close>

definition merge_onto :: "session_data \<Rightarrow> session_data \<Rightarrow> session_data \<Rightarrow> session_data" where
  "merge_onto base loc fresh =
     (merge_concurrent base loc fresh)
       \<lparr>touched_at := opt_max (touched_at loc) (touched_at fresh)\<rparr>"

text \<open>
  The closure \<open>prepare\<close> carries the variables it captures as a state \<open>'p\<close>; it answers whether to
  go on, the row as it changed it, and its new state.
\<close>

type_synonym 'p prepare = "'p \<Rightarrow> session_data \<Rightarrow> bool \<times> session_data \<times> 'p"

fun swap_attempts ::
  "nat \<Rightarrow> json_ser \<Rightarrow> ('s, 'e) session_store \<Rightarrow> swap \<Rightarrow> 'p prepare \<Rightarrow> 'p \<Rightarrow> u64 \<Rightarrow> session_data \<Rightarrow>
     ('s, 'e, swapped \<times> 'p) act" where
  "swap_attempts 0 ser st sw prepare p expected next = act_ok (SwapConflict, p)"
| "swap_attempts (Suc n) ser st sw prepare p expected next =
     (let next' = stamp_next ser (swap_max_custom_bytes sw) expected next in
      act_bind (update_if_revision st (swap_row sw) expected next' (swap_ttl sw)) (\<lambda>outcome.
        case outcome of
          Written \<Rightarrow> act_ok (SwapWritten next', p)
        | Gone \<Rightarrow> act_ok (SwapGone, p)
        | Conflict \<Rightarrow>
            (case swap_base sw of
               None \<Rightarrow> act_ok (SwapConflict, p)
             | Some base \<Rightarrow>
                 act_bind (load st (swap_row sw)) (\<lambda>row.
                   case row of
                     None \<Rightarrow> act_ok (SwapGone, p)
                   | Some found \<Rightarrow>
                       (case prepare p found of
                          (False, _, p') \<Rightarrow> act_ok (SwapDeclined, p')
                        | (True, fresh, p') \<Rightarrow>
                            swap_attempts n ser st sw prepare p' (revision fresh)
                              (merge_onto base (swap_local sw) fresh))))))"

definition swap_merging ::
  "json_ser \<Rightarrow> ('s, 'e) session_store \<Rightarrow> swap \<Rightarrow> 'p prepare \<Rightarrow> 'p \<Rightarrow> ('s, 'e, swapped \<times> 'p) act" where
  "swap_merging ser st sw prepare p =
     swap_attempts SWAP_ATTEMPTS ser st sw prepare p (swap_expected sw) (swap_local sw)"

subsection \<open>Consuming a one-shot value\<close>

text \<open>The closure of \<^verbatim>\<open>consume_custom\<close>: take the value out of the row found.\<close>

definition prepare_take :: "string \<Rightarrow> json option prepare" where
  "prepare_take key p fresh =
     (case bag_remove key (custom fresh) of
        (v, bag) \<Rightarrow> (v \<noteq> None, fresh\<lparr>custom := bag\<rparr>, v))"

text \<open>
  The write that removes the value: this request's data on the row it runs under or, once the id
  has rotated, only the removal, on the row of the retired id as it was loaded.
\<close>

definition consume_swap :: "string \<Rightarrow> session_data \<Rightarrow> consume_target \<Rightarrow> session_inner \<Rightarrow> swap" where
  "consume_swap key base target si =
     (let rotated = (pre_cycle_id si \<noteq> None) in
      \<lparr>swap_row = (case pre_cycle_id si of Some old \<Rightarrow> old | None \<Rightarrow> inner_id si),
       swap_base = Some base,
       swap_local = (if rotated then base\<lparr>custom := snd (bag_remove key (custom base))\<rparr> else data si),
       swap_expected = (if rotated then revision base else revision (data si)),
       swap_ttl = target_ttl target,
       swap_max_custom_bytes = max_custom_bytes si\<rparr>)"

definition consumed ::
  "('e + swapped \<times> json option) \<Rightarrow> session_data \<Rightarrow> consume_target \<Rightarrow> session_inner \<Rightarrow> 's \<Rightarrow>
     json option \<times> session_inner \<times> 's" where
  "consumed r base target si s =
     (case r of
        Inr (SwapWritten written, taken) \<Rightarrow>
          (taken,
           si\<lparr>data := (if pre_cycle_id si \<noteq> None then merge_rotating base (data si) written
                       else written),
              consume := Some (target\<lparr>loaded := Some written\<rparr>)\<rparr>, s)
      | _ \<Rightarrow> (None, si, s))"

definition consume_custom ::
  "json_ser \<Rightarrow> ('s, 'e) session_store \<Rightarrow> string \<Rightarrow> session_inner \<Rightarrow> 's \<Rightarrow>
     json option \<times> session_inner \<times> 's" where
  "consume_custom ser st key si s =
     (case bag_remove key (custom_of si) of
        (None, _) \<Rightarrow> (None, si, s)
      | (Some v, bag) \<Rightarrow>
          (let si1 = (set_bag bag si)\<lparr>modified := True\<rparr> in
           case consume si1 of
             None \<Rightarrow> (Some v, si1, s)
           | Some target \<Rightarrow>
               (case loaded target of
                  None \<Rightarrow> (Some v, si1, s)
                | Some base \<Rightarrow>
                    if pre_cycle_id si1 \<noteq> None \<and> fst (bag_remove key (custom base)) = None
                    then (Some v, si1, s)
                    else case swap_merging ser st (consume_swap key base target si1)
                                (prepare_take key) (Some v) s of
                           (r, s') \<Rightarrow> consumed r base target si1 s')))"

lemma bag_remove_eq:
  "bag_remove key bag = (json_get bag key,
     case as_object bag of None \<Rightarrow> bag | Some m \<Rightarrow> JObject (bt_remove key m))"
  by (simp add: bag_remove_def json_get_def split: option.split)

lemma json_get_bag_removed [simp]:
  "json_get (case as_object bag of None \<Rightarrow> bag | Some m \<Rightarrow> JObject (bt_remove key m)) k =
     (if k = key then None else json_get bag k)"
  by (auto simp: json_get_def split: option.split)

definition removed_from :: "string \<Rightarrow> session_inner \<Rightarrow> session_inner" where
  "removed_from key si = (set_bag (snd (bag_remove key (custom_of si))) si)\<lparr>modified := True\<rparr>"

lemma consume_custom_stored:
  assumes "consume si = Some target" "loaded target = Some base"
    "json_get (custom_of si) key = Some v" "pre_cycle_id si \<noteq> None \<longrightarrow> json_get (custom base) key \<noteq> None"
  shows "consume_custom ser st key si s =
    (case swap_merging ser st (consume_swap key base target (removed_from key si))
            (prepare_take key) (Some v) s of
       (r, s') \<Rightarrow> consumed r base target (removed_from key si) s')"
proof -
  have rot: "\<not> (pre_cycle_id si \<noteq> None \<and> fst (bag_remove key (custom base)) = None)"
    using assms(4) by (auto simp: bag_remove_eq)
  obtain bag where bag: "bag_remove key (custom_of si) = (Some v, bag)"
    using assms(3) by (simp add: bag_remove_eq)
  have si1: "consume (set_bag bag si\<lparr>modified := True\<rparr>) = Some target"
    "pre_cycle_id (set_bag bag si\<lparr>modified := True\<rparr>) = pre_cycle_id si"
    using assms(1) by (simp_all add: set_bag_def)
  show ?thesis
    unfolding consume_custom_def removed_from_def bag prod.case option.case snd_conv Let_def si1 assms(2)
    using rot by auto
qed

lemma consume_custom_absent:
  "json_get (custom_of si) key = None \<Longrightarrow> consume_custom ser st key si s = (None, si, s)"
  by (simp add: consume_custom_def bag_remove_eq)

lemma consume_swap_removed:
  "swap_base (consume_swap key base target (removed_from key si)) = Some base"
  "swap_row (consume_swap key base target (removed_from key si)) =
     (case pre_cycle_id si of Some old \<Rightarrow> old | None \<Rightarrow> inner_id si)"
  "revision (data si) = revision base \<Longrightarrow>
     swap_expected (consume_swap key base target (removed_from key si)) = revision base"
  "swap_ttl (consume_swap key base target (removed_from key si)) = target_ttl target"
  "json_get (custom (swap_local (consume_swap key base target (removed_from key si)))) key = None"
  by (cases "pre_cycle_id si";
      simp add: consume_swap_def removed_from_def set_bag_def bag_remove_eq Let_def)+

lemma consumed_Some:
  "consumed r base target si s = (Some v, si', s') \<Longrightarrow>
     \<exists>written. r = Inr (SwapWritten written, Some v) \<and> s = s'"
  by (auto simp: consumed_def split: sum.splits prod.splits swapped.splits)

subsection \<open>The merging write among other requests\<close>

text \<open>Calls that left the table as they found it.\<close>

definition only_reads :: "('s \<Rightarrow> table) \<Rightarrow> ('s \<times> 's) list \<Rightarrow> bool" where
  "only_reads view es \<longleftrightarrow> (\<forall>(a, b) \<in> set es. view b = view a)"

lemma only_reads_simps [simp]:
  "only_reads view []" "only_reads view ((a, b) # es) \<longleftrightarrow> view b = view a \<and> only_reads view es"
  "only_reads view (es @ fs) \<longleftrightarrow> only_reads view es \<and> only_reads view fs"
  by (auto simp: only_reads_def)

text \<open>
  Where the data of a successful attempt comes from: what the write began with, or the local
  changes merged onto a row that \<open>prepare\<close> admitted and that this run read.
\<close>

definition swap_origin ::
  "('s \<Rightarrow> table) \<Rightarrow> swap \<Rightarrow> 'p prepare \<Rightarrow> 'p \<Rightarrow> u64 \<Rightarrow> session_data \<Rightarrow> ('s \<times> 's) list \<Rightarrow>
     'p \<Rightarrow> u64 \<Rightarrow> session_data \<Rightarrow> bool" where
  "swap_origin view sw prepare p expected next es p' expected' next' \<longleftrightarrow>
     (p' = p \<and> expected' = expected \<and> next' = next) \<or>
     (\<exists>base a found q fresh. swap_base sw = Some base \<and> a \<in> fst ` set es \<and>
        view a (swap_row sw) = Some found \<and> prepare q found = (True, fresh, p') \<and>
        expected' = revision fresh \<and> next' = merge_onto base (swap_local sw) fresh)"

text \<open>What a run of the merging write did, by the answer it gave.\<close>

definition swap_ran ::
  "('s \<Rightarrow> table) \<Rightarrow> json_ser \<Rightarrow> swap \<Rightarrow> 'p prepare \<Rightarrow> 'p \<Rightarrow> u64 \<Rightarrow> session_data \<Rightarrow>
     ('e + swapped \<times> 'p) \<Rightarrow> ('s \<times> 's) list \<Rightarrow> bool" where
  "swap_ran view ser sw prepare p expected next r es \<longleftrightarrow>
     (case r of
        Inr (SwapWritten d, p') \<Rightarrow>
          (\<exists>s s' es' x next'. es = (s, s') # es' \<and> only_reads view es' \<and>
             view s (swap_row sw) = Some x \<and>
             view s' = (view s)(swap_row sw \<mapsto> d) \<and>
             d = stamp_next ser (swap_max_custom_bytes sw) (revision x) next' \<and>
             swap_origin view sw prepare p expected next es' p' (revision x) next')
      | Inr _ \<Rightarrow> only_reads view es
      | Inl _ \<Rightarrow> es \<noteq> [] \<and> only_reads view (tl es))"

lemma swap_ran_later:
  assumes "swap_ran view ser sw prepare p e n r es" "only_reads view fs"
    "swap_base sw = Some base" "a \<in> fst ` set fs" "view a (swap_row sw) = Some found"
    "prepare p0 found = (True, fresh, p)" "e = revision fresh" "n = merge_onto base (swap_local sw) fresh"
  shows "swap_ran view ser sw prepare p0 e0 n0 r (es @ fs)"
proof (cases r)
  case (Inl err)
  with assms(1,2) show ?thesis by (cases es) (auto simp: swap_ran_def)
next
  case (Inr x)
  obtain w p' where x: "x = (w, p')" by (cases x)
  show ?thesis
  proof (cases w)
    case (SwapWritten d)
    with Inr x assms(1) obtain s s' es' y next' where es: "es = (s, s') # es'" "only_reads view es'"
      "view s (swap_row sw) = Some y" "view s' = (view s)(swap_row sw \<mapsto> d)"
      "d = stamp_next ser (swap_max_custom_bytes sw) (revision y) next'"
      "swap_origin view sw prepare p e n es' p' (revision y) next'"
      by (auto simp: swap_ran_def)
    have "swap_origin view sw prepare p0 e0 n0 (es' @ fs) p' (revision y) next'"
      using es(6) assms(3-8) unfolding swap_origin_def set_append image_Un by blast
    with es assms(2) Inr x SwapWritten show ?thesis by (auto simp: swap_ran_def)
  qed (use Inr x assms(1,2) in \<open>auto simp: swap_ran_def\<close>)
qed

lemma swap_ran_reads:
  assumes "swap_ran view ser sw prepare p e n r es" "only_reads view fs"
  shows "swap_ran view ser sw prepare p e n r (es @ fs)"
proof (cases r)
  case (Inl err)
  with assms show ?thesis by (cases es) (auto simp: swap_ran_def)
next
  case (Inr x)
  obtain w p' where x: "x = (w, p')" by (cases x)
  have "swap_origin view sw prepare p e n es' p' y n' \<Longrightarrow>
      swap_origin view sw prepare p e n (es' @ fs) p' y n'" for es' y n'
    unfolding swap_origin_def set_append image_Un by blast
  with assms Inr x show ?thesis
    by (cases w) (fastforce simp: swap_ran_def)+
qed

text \<open>The continuation of an attempt that met a conflict, after its read of the row.\<close>

definition swap_found ::
  "nat \<Rightarrow> json_ser \<Rightarrow> ('s, 'e) session_store \<Rightarrow> swap \<Rightarrow> 'p prepare \<Rightarrow> 'p \<Rightarrow> session_data \<Rightarrow>
     session_data option \<Rightarrow> ('s, 'e, swapped \<times> 'p) act" where
  "swap_found n ser st sw prepare p base row =
     (case row of
        None \<Rightarrow> act_ok (SwapGone, p)
      | Some found \<Rightarrow>
          (case prepare p found of
             (False, _, p') \<Rightarrow> act_ok (SwapDeclined, p')
           | (True, fresh, p') \<Rightarrow>
               swap_attempts n ser st sw prepare p' (revision fresh)
                 (merge_onto base (swap_local sw) fresh)))"

lemma swap_attempts_Suc:
  "swap_attempts (Suc n) ser st sw prepare p expected next =
     act_bind (update_if_revision st (swap_row sw) expected
         (stamp_next ser (swap_max_custom_bytes sw) expected next) (swap_ttl sw)) (\<lambda>outcome.
       case outcome of
         Written \<Rightarrow> act_ok (SwapWritten (stamp_next ser (swap_max_custom_bytes sw) expected next), p)
       | Gone \<Rightarrow> act_ok (SwapGone, p)
       | Conflict \<Rightarrow>
           (case swap_base sw of
              None \<Rightarrow> act_ok (SwapConflict, p)
            | Some base \<Rightarrow> act_bind (load st (swap_row sw)) (swap_found n ser st sw prepare p base)))"
  unfolding swap_attempts.simps Let_def swap_found_def ..

declare swap_attempts.simps(2) [simp del]

text \<open>Whatever of the table the environment keeps, every call of the run found it so.\<close>

definition finds_kept :: "('s \<Rightarrow> table) \<Rightarrow> ('s, 'e) world \<Rightarrow> ('s \<times> 's) list \<Rightarrow> bool" where
  "finds_kept view w es \<longleftrightarrow>
     (\<forall>K. env_keeps (\<lambda>s. K (view s)) w \<longrightarrow> (\<forall>(a, b) \<in> set es. K (view a)))"

lemma finds_kept_one: "finds_kept view w [(moved 1 w, c)]"
  unfolding finds_kept_def using env_keeps_moved [where k = 1] by fastforce

lemma finds_kept_more:
  assumes "finds_kept view w1 es" "view (current w1) = view (moved 1 w)" "ahead w1 = drop 1 (ahead w)"
  shows "finds_kept view w (es @ [(moved 1 w, c)])"
  unfolding finds_kept_def
proof (intro allI impI)
  fix K assume K: "env_keeps (\<lambda>s. K (view s)) w"
  then have one: "K (view (moved 1 w))" by (rule env_keeps_moved)
  with assms(2,3) have "env_keeps (\<lambda>s. K (view s)) w1" by (intro env_keeps_step [OF K]) simp_all
  with assms(1) have "\<forall>(a, b) \<in> set es. K (view a)" unfolding finds_kept_def by blast
  with one show "\<forall>(a, b) \<in> set (es @ [(moved 1 w, c)]). K (view a)" by simp
qed

context session_store_contract
begin

lemma swap_attempts_load:
  assumes "env_keeps good w" "0 < swap_ttl sw"
    "act_bind (disturbed (load st (swap_row sw))) (swap_found n ser (disturbed_store st) sw prepare p base) w = (r, w')"
    "swap_base sw = Some base"
    and IH: "\<And>p expected next w. env_keeps good w \<Longrightarrow>
      swap_attempts n ser (disturbed_store st) sw prepare p expected next w = (r, w') \<Longrightarrow>
      env_keeps good w' \<and>
      (\<exists>es. effects w' = es @ effects w \<and> swap_ran view ser sw prepare p expected next r es \<and>
         finds_kept view w es)"
  shows "env_keeps good w' \<and>
    (\<exists>es. effects w' = es @ effects w \<and> swap_ran view ser sw prepare p e0 n0 r es \<and>
       finds_kept view w es)"
proof -
  obtain q w1 where ld: "disturbed (load st (swap_row sw)) w = (q, w1)" by fastforce
  note s1 = disturbed_implements [OF load_spec assms(1) ld]
  show ?thesis
  proof (cases q)
    case (Inl e)
    with assms(3) ld have "r = Inl e" "w' = w1" by (simp_all add: act_bind_apply)
    with s1 show ?thesis
      by (intro conjI exI [of _ "[(moved 1 w, current w1)]"])
           (auto simp: swap_ran_def finds_kept_one simp del: One_nat_def)
  next
    case (Inr row)
    with s1 have row: "row = view (moved 1 w) (swap_row sw)" "view (current w1) = view (moved 1 w)"
      by (simp_all add: spec_load_def)
    from assms(3) ld Inr have run: "swap_found n ser (disturbed_store st) sw prepare p base row w1 = (r, w')"
      by (simp add: act_bind_apply)
    show ?thesis
    proof (cases "\<exists>found fresh p'. row = Some found \<and> prepare p found = (True, fresh, p')")
      case False
      with run have "w' = w1" "(\<exists>p'. r = Inr (SwapGone, p')) \<or> (\<exists>p'. r = Inr (SwapDeclined, p'))"
        by (auto simp: swap_found_def split: option.splits prod.splits bool.splits)
      with s1 row(2) show ?thesis
        by (intro conjI exI [of _ "[(moved 1 w, current w1)]"])
           (auto simp: swap_ran_def finds_kept_one simp del: One_nat_def)
    next
      case True
      then obtain found fresh p' where f: "row = Some found" "prepare p found = (True, fresh, p')" by blast
      with run have "swap_attempts n ser (disturbed_store st) sw prepare p' (revision fresh)
          (merge_onto base (swap_local sw) fresh) w1 = (r, w')"
        by (simp add: swap_found_def)
      from IH [OF _ this] s1 obtain es where es: "env_keeps good w'" "effects w' = es @ effects w1"
        "swap_ran view ser sw prepare p' (revision fresh) (merge_onto base (swap_local sw) fresh) r es"
        "finds_kept view w1 es"
        by blast
      have "swap_ran view ser sw prepare p e0 n0 r (es @ [(moved 1 w, current w1)])"
        by (rule swap_ran_later [OF es(3) _ assms(4) _ _ f(2)]) (use row f(1) in auto)
      moreover have "finds_kept view w (es @ [(moved 1 w, current w1)])"
        using finds_kept_more [OF es(4) row(2)] s1 by blast
      ultimately show ?thesis using es(1,2) s1 by (intro conjI exI [of _ "es @ [(moved 1 w, current w1)]"]) auto
    qed
  qed
qed

lemma swap_attempts_ran:
  assumes "env_keeps good w" "0 < swap_ttl sw"
    "swap_attempts n ser (disturbed_store st) sw prepare p expected next w = (r, w')"
  shows "env_keeps good w' \<and>
    (\<exists>es. effects w' = es @ effects w \<and> swap_ran view ser sw prepare p expected next r es \<and>
         finds_kept view w es)"
  using assms(1,3)
proof (induction n arbitrary: p expected "next" w)
  case 0
  then show ?case by (auto simp: swap_ran_def finds_kept_def)
next
  case (Suc n)
  let ?next = "stamp_next ser (swap_max_custom_bytes sw) expected next"
  let ?row = "swap_row sw"
  obtain q w1 where upd: "disturbed (update_if_revision st ?row expected ?next (swap_ttl sw)) w = (q, w1)"
    by fastforce
  note s1 = disturbed_implements [OF update_if_revision_spec Suc.prems(1) upd]
  show ?case
  proof (cases q)
    case (Inl e)
    with Suc.prems(2) upd have "r = Inl e" "w' = w1" by (simp_all add: swap_attempts_Suc act_bind_apply)
    with s1 show ?thesis
      by (intro conjI exI [of _ "[(moved 1 w, current w1)]"])
           (auto simp: swap_ran_def finds_kept_one simp del: One_nat_def)
  next
    case (Inr outcome)
    with s1 have spec: "(outcome, view (current w1)) =
        spec_update_if_revision ?row expected ?next (swap_ttl sw) (view (moved 1 w))" by blast
    show ?thesis
    proof (cases outcome)
      case Written
      with spec assms(2) obtain x where x: "view (moved 1 w) ?row = Some x" "revision x = expected"
        "view (current w1) = (view (moved 1 w))(?row \<mapsto> ?next)"
        by (auto simp: spec_update_if_revision_def split: option.splits if_splits)
      have "r = Inr (SwapWritten ?next, p)" "w' = w1"
        using Suc.prems(2) upd Inr Written by (simp_all add: swap_attempts_Suc act_bind_apply)
      with s1 x show ?thesis
        by (intro conjI exI [of _ "[(moved 1 w, current w1)]"])
           (auto simp: swap_ran_def swap_origin_def finds_kept_one simp del: One_nat_def)
    next
      case Gone
      with spec assms(2) have "view (current w1) = view (moved 1 w)"
        by (auto simp: spec_update_if_revision_def split: option.splits if_splits)
      moreover have "r = Inr (SwapGone, p)" "w' = w1"
        using Suc.prems(2) upd Inr Gone by (simp_all add: swap_attempts_Suc act_bind_apply)
      ultimately show ?thesis using s1
        by (intro conjI exI [of _ "[(moved 1 w, current w1)]"])
           (auto simp: swap_ran_def finds_kept_one simp del: One_nat_def)
    next
      case Conflict
      with spec assms(2) have same: "view (current w1) = view (moved 1 w)"
        by (auto simp: spec_update_if_revision_def split: option.splits if_splits)
      show ?thesis
      proof (cases "swap_base sw")
        case None
        with Suc.prems(2) upd Inr Conflict have "r = Inr (SwapConflict, p)" "w' = w1"
          by (simp_all add: swap_attempts_Suc act_bind_apply)
        with same s1 show ?thesis
          by (intro conjI exI [of _ "[(moved 1 w, current w1)]"])
           (auto simp: swap_ran_def finds_kept_one simp del: One_nat_def)
      next
        case (Some base)
        have "act_bind (disturbed (load st ?row)) (swap_found n ser (disturbed_store st) sw prepare p base) w1 = (r, w')"
          using Suc.prems(2) upd Inr Conflict Some
          by (simp add: swap_attempts_Suc act_bind_apply)
        from swap_attempts_load [OF _ assms(2) this Some Suc.IH] s1
        obtain es where es: "env_keeps good w'" "effects w' = es @ effects w1"
          "swap_ran view ser sw prepare p expected next r es" "finds_kept view w1 es" by blast
        from swap_ran_reads [OF es(3), of "[(moved 1 w, current w1)]"] same
        have "swap_ran view ser sw prepare p expected next r (es @ [(moved 1 w, current w1)])" by simp
        moreover have "finds_kept view w (es @ [(moved 1 w, current w1)])"
          using finds_kept_more [OF es(4) same] s1 by blast
        ultimately show ?thesis using es(1,2) s1
          by (intro conjI exI [of _ "es @ [(moved 1 w, current w1)]"]) auto
      qed
    qed
  qed
qed

text \<open>
  A value handed out for a stored session was taken from the stored row in one step: the row held
  it, and the write that removed it is this run's only effect.
\<close>

lemma consume_takes:
  assumes env: "env_keeps good w" "env_keeps (\<lambda>s. \<forall>x. view s row = Some x \<longrightarrow> x = h (revision x)) w"
    and target: "consume si = Some target" "loaded target = Some base" "0 < target_ttl target"
    and base: "revision (data si) = revision base" "base = h (revision base)"
      "json_get (custom_of si) key = json_get (custom base) key"
    and row: "row = (case pre_cycle_id si of Some old \<Rightarrow> old | None \<Rightarrow> inner_id si)"
    and run: "consume_custom ser (disturbed_store st) key si w = (Some v, si', w')"
  shows "\<exists>s s' es x y. effects w' = (s, s') # es @ effects w \<and> only_reads view es \<and>
    view s row = Some x \<and> json_get (custom x) key = Some v \<and>
    view s' = (view s)(row \<mapsto> y) \<and> json_get (custom y) key = None \<and> revision y = revision x + 1"
proof -
  obtain v0 where v0: "json_get (custom_of si) key = Some v0"
    using consume_custom_absent [of si key ser "disturbed_store st" w] run
    by (cases "json_get (custom_of si) key") simp_all
  define sw where "sw = consume_swap key base target (removed_from key si)"
  have sw: "swap_base sw = Some base" "swap_row sw = row" "swap_expected sw = revision base"
    "swap_ttl sw = target_ttl target" "json_get (custom (swap_local sw)) key = None"
    unfolding sw_def using base(1) row by (simp_all add: consume_swap_removed)
  obtain q w1 where sm: "swap_merging ser (disturbed_store st) sw (prepare_take key) (Some v0) w = (q, w1)"
    by fastforce
  have "consume_custom ser (disturbed_store st) key si w = consumed q base target (removed_from key si) w1"
    using v0 base(3) by (simp add: consume_custom_stored [OF target(1,2) v0] sm [unfolded sw_def])
  with run consumed_Some obtain written where q: "q = Inr (SwapWritten written, Some v)" "w1 = w'" by metis
  note swap = sm [unfolded q]
  have ttl: "0 < swap_ttl sw" using sw(4) target(3) by simp
  from conjunct2 [OF swap_attempts_ran [OF env(1) ttl swap [unfolded swap_merging_def]]]
  obtain es where es: "effects w' = es @ effects w" "finds_kept view w es"
    "swap_ran view ser sw (prepare_take key) (Some v0) (swap_expected sw) (swap_local sw)
       (Inr (SwapWritten written, Some v) :: 'e + swapped \<times> json option) es"
    by (elim exE conjE) (rule that)
  then obtain s s' es' x next' where ran: "es = (s, s') # es'" "only_reads view es'"
    "view s row = Some x" "view s' = (view s)(row \<mapsto> written)"
    "written = stamp_next ser (swap_max_custom_bytes sw) (revision x) next'"
    "swap_origin view sw (prepare_take key) (Some v0) (revision base) (swap_local sw) es' (Some v) (revision x) next'"
    using sw by (auto simp: swap_ran_def)
  have kept: "\<And>a b y. (a, b) \<in> set es \<Longrightarrow> view a row = Some y \<Longrightarrow> y = h (revision y)"
    using es(2) [unfolded finds_kept_def, rule_format, OF env(2)] by blast
  from ran(6) have "json_get (custom x) key = Some v \<and> json_get (custom next') key = None"
    unfolding swap_origin_def
  proof
    assume "Some v = Some v0 \<and> revision x = revision base \<and> next' = swap_local sw"
    moreover have "x = h (revision x)" using kept [of s s'] ran(1,3) by simp
    ultimately show ?thesis using base(2,3) v0 sw(5) by metis
  next
    assume "\<exists>base' a found q fresh. swap_base sw = Some base' \<and> a \<in> fst ` set es' \<and>
      view a (swap_row sw) = Some found \<and> prepare_take key q found = (True, fresh, Some v) \<and>
      revision x = revision fresh \<and> next' = merge_onto base' (swap_local sw) fresh"
    then obtain a b found q fresh where m: "(a, b) \<in> set es'" "view a row = Some found"
      "prepare_take key q found = (True, fresh, Some v)" "revision x = revision fresh"
      "next' = merge_onto base (swap_local sw) fresh" using sw(1,2) by auto
    have "found = h (revision found)" "x = h (revision x)"
      using kept [of a b] kept [of s s'] m(1,2) ran(1,3) by simp_all
    moreover have "revision fresh = revision found" "json_get (custom found) key = Some v"
      using m(3) by (auto simp: prepare_take_def bag_remove_eq)
    ultimately have "json_get (custom x) key = Some v" using m(4) by metis
    moreover have "json_get (custom next') key = None"
      using m(5) sw(5) v0 base(3) by (simp add: merge_onto_def merge_concurrent_def merge_data_def json_get_merge_custom)
    ultimately show ?thesis by blast
  qed
  moreover from this ran(5) have "json_get (custom written) key = None"
    by (cases "json_get (custom written) key") (auto simp: stamp_next_def dest: json_get_cap_custom)
  moreover have "revision written = revision x + 1" using ran(5) by (simp add: stamp_next_def)
  ultimately show ?thesis using es(1) ran by auto
qed

text \<open>Once the stored row has lost the value, a request that still holds it gets nothing.\<close>

lemma consume_finds_taken:
  assumes env: "env_keeps good w"
      "env_keeps (\<lambda>s. \<forall>x. view s row = Some x \<longrightarrow>
         revision x \<noteq> revision base \<and> json_get (custom x) key = None) w"
    and target: "consume si = Some target" "loaded target = Some base" "0 < target_ttl target"
    and base: "revision (data si) = revision base" "json_get (custom base) key \<noteq> None"
    and row: "row = (case pre_cycle_id si of Some old \<Rightarrow> old | None \<Rightarrow> inner_id si)"
    and run: "consume_custom ser (disturbed_store st) key si w = (r, si', w')"
  shows "r = None"
proof (cases "json_get (custom_of si) key")
  case None
  with run show ?thesis by (simp add: consume_custom_absent)
next
  case (Some v)
  let ?K = "\<lambda>m :: table. \<forall>x. m row = Some x \<longrightarrow>
    revision x \<noteq> revision base \<and> json_get (custom x) key = None"
  define sw where "sw = consume_swap key base target (removed_from key si)"
  have sw: "swap_base sw = Some base" "swap_row sw = row" "swap_expected sw = revision base"
    "swap_ttl sw = target_ttl target"
    unfolding sw_def using base(1) row by (simp_all add: consume_swap_removed)
  obtain q w3 where sm: "swap_merging ser (disturbed_store st) sw (prepare_take key) (Some v) w = (q, w3)"
    by fastforce
  have con: "consume_custom ser (disturbed_store st) key si w = consumed q base target (removed_from key si) w3"
    using base(2) by (simp add: consume_custom_stored [OF target(1,2) Some] sm [unfolded sw_def])
  let ?next = "stamp_next ser (swap_max_custom_bytes sw) (revision base) (swap_local sw)"
  obtain q1 w1 where upd: "disturbed (update_if_revision st row (revision base) ?next (target_ttl target)) w = (q1, w1)"
    by fastforce
  obtain q2 w2 where ld: "disturbed (load st row) w1 = (q2, w2)" by fastforce
  note s1 = disturbed_implements [OF update_if_revision_spec env(1) upd]
  have K1: "?K (view (moved 1 w))" using env_keeps_moved [OF env(2), of 1] .
  have spec: "snd (spec_update_if_revision row (revision base) ?next (target_ttl target) (view (moved 1 w))) =
      view (moved 1 w)"
    "fst (spec_update_if_revision row (revision base) ?next (target_ttl target) (view (moved 1 w))) \<noteq> Written"
    using K1 by (auto simp: spec_update_if_revision_def split: option.split)
  have same: "view (current w1) = view (moved 1 w)"
    using s1 spec(1) by (cases q1) (metis, metis snd_conv)
  have no_write: "q1 \<noteq> Inr Written" using s1 spec(2) by (metis fst_conv)
  have "env_keeps (\<lambda>s. ?K (view s)) w1"
    by (rule env_keeps_step [OF env(2)]) (use s1 same K1 in simp_all)
  then have K2: "?K (view (moved 1 w1))" by (rule env_keeps_moved)
  note s2 = disturbed_implements [OF load_spec _ ld]
  have declined: "q2 = Inr (Some found) \<Longrightarrow> prepare_take key p found \<noteq> (True, fresh, p')" for found p fresh p'
    using s2 s1 K2 by (auto simp: spec_load_def prepare_take_def bag_remove_eq)
  have "q \<noteq> Inr (SwapWritten d, p)" for d p
  proof
    assume "q = Inr (SwapWritten d, p)"
    with sm upd ld sw no_write declined show False
      by (auto simp: swap_merging_def numeral_3_eq_3 swap_attempts_Suc [of "Suc (Suc 0)"]
          act_bind_apply swap_found_def
          split: sum.splits conditional_update.splits option.splits prod.splits bool.splits)
  qed
  with run con show ?thesis using consumed_Some [of q base target "removed_from key si" w3]
    by (cases r) auto
qed

end

subsection \<open>What a handler can do to its session\<close>

text \<open>
  The transitions a handler drives on the session of its request, as labels, and their effect.
  Reads and the store-backed consumption change neither the state nor the id.
\<close>

datatype session_op =
    SIdentify user_id tenant_id
  | SBegin user_id tenant_id string "factor_step list"
  | SAuthenticated user_id tenant_id datetime "string list"
  | SAdvance factor_kind datetime "string list"
  | SAttempt datetime
  | SWorkflow user_id tenant_id workflow_state
  | SImpersonate user_id datetime
  | SGroups "string list"
  | SStepUp json_ser user_id tenant_id "factor_step list" json
  | SClear
  | SRegenerate
  | SReadId
  | SSetCustom json_ser string json
  | SRemoveCustom string
  | SClearCustom

fun session_apply :: "session_op \<Rightarrow> session_inner \<Rightarrow> session_inner" where
  "session_apply (SIdentify u t) si = session_set_identifying u t si"
| "session_apply (SBegin u t m steps) si = session_begin_authenticating u t m steps si"
| "session_apply (SAuthenticated u t time preserved) si =
     session_set_authenticated_keeping u t time preserved si"
| "session_apply (SAdvance k time preserved) si = session_advance_factor k time preserved si"
| "session_apply (SAttempt now) si = session_record_attempt_at now si"
| "session_apply (SWorkflow u t w) si = session_set_pending_workflow u t w si"
| "session_apply (SImpersonate adm at) si = snd (session_set_impersonator adm at si)"
| "session_apply (SGroups gs) si = session_set_ldap_groups gs si"
| "session_apply (SStepUp ser u t steps stamp) si = snd (session_begin_step_up ser u t steps stamp si)"
| "session_apply SClear si = session_clear si"
| "session_apply SRegenerate si = session_regenerate si"
| "session_apply SReadId si = snd (session_id_of si)"
| "session_apply (SSetCustom ser k v) si = snd (set_custom ser k v si)"
| "session_apply (SRemoveCustom k) si = snd (remove_custom k si)"
| "session_apply SClearCustom si = clear_custom si"

inductive handled :: "session_inner \<Rightarrow> session_inner \<Rightarrow> bool" where
  handled_start: "handled si si"
| handled_step: "handled si si' \<Longrightarrow> handled si (session_apply op si')"

lemma handled_fold: "handled si (fold session_apply ops si)"
proof (induction ops rule: rev_induct)
  case Nil
  then show ?case by (simp add: handled_start)
next
  case (snoc op ops)
  then show ?case using handled_step [of si "fold session_apply ops si" op] by simp
qed

lemma rotate_id_sel [simp]:
  "pre_cycle_id (rotate_id si) = (if pre_cycle_id si = None then Some (inner_id si) else pre_cycle_id si)"
  "inner_id (rotate_id si) = uuids (inner_rng si) (drawn (inner_rng si))"
  "inner_rng (rotate_id si) = (inner_rng si)\<lparr>drawn := Suc (drawn (inner_rng si))\<rparr>"
  "regenerate (rotate_id si)" "data (rotate_id si) = data si" "modified (rotate_id si) = modified si"
  "max_custom_bytes (rotate_id si) = max_custom_bytes si" "consume (rotate_id si) = consume si"
  by (simp_all add: rotate_id_def mint_def)

lemma bind_fingerprint_sel [simp]:
  "pre_cycle_id (bind_fingerprint si) = pre_cycle_id si" "inner_id (bind_fingerprint si) = inner_id si"
  "inner_rng (bind_fingerprint si) = inner_rng si" "regenerate (bind_fingerprint si) = regenerate si"
  "auth_of (bind_fingerprint si) = auth_of si" "custom_of (bind_fingerprint si) = custom_of si"
  "modified (bind_fingerprint si) = modified si"
  by (simp_all add: bind_fingerprint_def)

lemma set_auth_sel [simp]:
  "auth_of (set_auth st si) = st" "custom_of (set_auth st si) = custom_of si"
  "pre_cycle_id (set_auth st si) = pre_cycle_id si" "inner_id (set_auth st si) = inner_id si"
  "inner_rng (set_auth st si) = inner_rng si" "regenerate (set_auth st si) = regenerate si"
  "modified (set_auth st si) = modified si"
  by (simp_all add: set_auth_def)

lemma set_bag_sel [simp]:
  "auth_of (set_bag bag si) = auth_of si" "custom_of (set_bag bag si) = bag"
  "pre_cycle_id (set_bag bag si) = pre_cycle_id si" "inner_id (set_bag bag si) = inner_id si"
  "inner_rng (set_bag bag si) = inner_rng si" "regenerate (set_bag bag si) = regenerate si"
  "modified (set_bag bag si) = modified si"
  by (simp_all add: set_bag_def)

text \<open>The fields of the id rotation, which the custom bag's operations leave alone.\<close>

definition same_rotation :: "session_inner \<Rightarrow> session_inner \<Rightarrow> bool" where
  "same_rotation si si' \<longleftrightarrow> inner_id si' = inner_id si \<and> pre_cycle_id si' = pre_cycle_id si \<and>
     inner_rng si' = inner_rng si \<and> (regenerate si \<longrightarrow> regenerate si') \<and>
     (modified si \<longrightarrow> modified si')"

definition rotated_once_more :: "session_inner \<Rightarrow> session_inner \<Rightarrow> bool" where
  "rotated_once_more si si' \<longleftrightarrow>
     inner_id si' = uuids (inner_rng si) (drawn (inner_rng si)) \<and>
     pre_cycle_id si' = (if pre_cycle_id si = None then Some (inner_id si) else pre_cycle_id si) \<and>
     inner_rng si' = (inner_rng si)\<lparr>drawn := Suc (drawn (inner_rng si))\<rparr> \<and>
     regenerate si' \<and> modified si'"

text \<open>The same login, up to a mark of impersonation.\<close>

definition same_login :: "auth_state \<Rightarrow> auth_state \<Rightarrow> bool" where
  "same_login st st' \<longleftrightarrow>
     (\<forall>d'. st' = Authenticated d' \<longrightarrow>
        (\<exists>d m. st = Authenticated d \<and> d' = d\<lparr>ad_impersonator := m\<rparr>))"

lemma set_custom_value_sel [simp]:
  "auth_of (snd (set_custom_value ser k v si)) = auth_of si"
  "inner_id (snd (set_custom_value ser k v si)) = inner_id si"
  "pre_cycle_id (snd (set_custom_value ser k v si)) = pre_cycle_id si"
  "inner_rng (snd (set_custom_value ser k v si)) = inner_rng si"
  "regenerate (snd (set_custom_value ser k v si)) = regenerate si"
  "modified si \<Longrightarrow> modified (snd (set_custom_value ser k v si))"
  by (simp_all add: set_custom_value_def Let_def)

lemma self_impersonator [simp]: "\<exists>m. d = d\<lparr>ad_impersonator := m\<rparr>"
  by (rule exI [of _ "ad_impersonator d"]) simp

lemma same_login_refl [simp]: "same_login st st"
  by (simp add: same_login_def)

text \<open>
  Every operation either leaves the rotation alone and the login as it is, or rotates the id.
\<close>

lemma session_apply_rotation:
  "rotated_once_more si (session_apply op si) \<or>
   (same_rotation si (session_apply op si) \<and> same_login (auth_of si) (auth_of (session_apply op si)))"
proof (cases op)
  case (SAdvance k time preserved)
  show ?thesis
  proof (cases "advance_factor k time (auth_of si)")
    case (Pair st r)
    then have "r = NotApplicable \<longrightarrow> st = auth_of si" "r = StillAuthenticating \<longrightarrow> \<not> is_authenticated st"
      by (cases "auth_of si"; auto simp: Let_def split: if_splits)+
    with Pair SAdvance show ?thesis
      by (cases r; cases st) (auto simp: session_advance_factor_def rotated_once_more_def
          same_rotation_def same_login_def Let_def)
  qed
next
  case (SImpersonate adm at)
  then show ?thesis
    by (cases "auth_of si") (auto simp: session_set_impersonator_def same_rotation_def same_login_def)
next
  case (SStepUp ser u t steps stamp)
  then show ?thesis
    by (cases "auth_of si") (simp_all add: session_begin_step_up_def same_rotation_def same_login_def)
next
  case (SGroups gs)
  then show ?thesis
    by (cases "auth_of si") (auto simp: session_set_ldap_groups_def same_rotation_def same_login_def)
next
  case (SAttempt now)
  then show ?thesis
    by (cases "auth_of si") (auto simp: session_record_attempt_at_def same_rotation_def same_login_def)
next
  case (SRemoveCustom k)
  then show ?thesis
    by (auto simp: remove_custom_def bag_remove_eq same_rotation_def)
qed (auto simp: state_simps session_id_of_def set_custom_def clear_custom_def rotated_once_more_def
       same_rotation_def Let_def)

lemma same_login_trans: "same_login a b \<Longrightarrow> same_login b c \<Longrightarrow> same_login a c"
  by (fastforce simp: same_login_def)

text \<open>
  The rotation of a request that entered with the id of \<open>si0\<close>: untouched, or away from that id,
  which stays recorded as the one to retire.
\<close>

definition rotation_ok :: "session_inner \<Rightarrow> session_inner \<Rightarrow> bool" where
  "rotation_ok si0 si \<longleftrightarrow>
     (pre_cycle_id si = None \<and> inner_id si = inner_id si0 \<and> inner_rng si = inner_rng si0 \<and>
        same_login (auth_of si0) (auth_of si)) \<or>
     (pre_cycle_id si = Some (inner_id si0) \<and> regenerate si \<and> modified si \<and>
        uuids (inner_rng si) = uuids (inner_rng si0) \<and> drawn (inner_rng si0) \<le> drawn (inner_rng si) \<and>
        inner_id si \<in> uuids (inner_rng si0) ` {drawn (inner_rng si0)..})"

lemma handled_rotation: "handled si0 si \<Longrightarrow> pre_cycle_id si0 = None \<Longrightarrow> rotation_ok si0 si"
proof (induction rule: handled.induct)
  case (handled_start si)
  then show ?case by (simp add: rotation_ok_def)
next
  case (handled_step si0 si op)
  then have ok: "rotation_ok si0 si" by blast
  from session_apply_rotation [of si op] show ?case
  proof
    assume rot: "rotated_once_more si (session_apply op si)"
    have "uuids (inner_rng si) = uuids (inner_rng si0)" "drawn (inner_rng si0) \<le> drawn (inner_rng si)"
      "(if pre_cycle_id si = None then Some (inner_id si) else pre_cycle_id si) = Some (inner_id si0)"
      using ok by (auto simp: rotation_ok_def)
    with rot show ?thesis unfolding rotation_ok_def rotated_once_more_def by simp
  next
    assume step: "same_rotation si (session_apply op si) \<and>
      same_login (auth_of si) (auth_of (session_apply op si))"
    from ok show ?thesis unfolding rotation_ok_def
    proof (elim disjE conjE, goal_cases)
      case 1
      with step same_login_trans [OF 1(4)] show ?case by (simp add: same_rotation_def)
    next
      case 2
      with step show ?case by (simp add: same_rotation_def)
    qed
  qed
qed

subsection \<open>Properties\<close>



text \<open>
  A login drops what the anonymous session held: after the transition to authenticated,
  direct or by the last factor, every key of the custom bag is the login service's own or one
  the application registered to be carried over, with the value it had before.
\<close>

lemma login_keeps_only_registered_keys:
  "json_get (custom_of (session_set_authenticated_keeping u t time preserved si)) k =
     (if k = LOGIN_FLOW_KEY \<or> k \<in> set preserved then json_get (custom_of si) k else None) \<and>
   json_get (custom_of (session_advance_factor kind time preserved si)) k =
     (if snd (advance_factor kind time (auth_of si)) = Completed \<and>
         k \<noteq> LOGIN_FLOW_KEY \<and> k \<notin> set preserved
      then None else json_get (custom_of si) k)"
  by (simp add: session_set_authenticated_keeping_def session_advance_factor_def Let_def
      split: prod.split advance_outcome.split)

text \<open>
  C10. A one-shot value is taken from the stored session in one step. When a consumption hands out
  a value that the request loaded with its session, then, whatever other requests and failing
  calls did meanwhile, the stored row held that value at the moment of the consumption's last
  store call, that call removed it under the next revision, and no earlier call changed
  anything. Other writers are assumed to give each revision of the row one content.
\<close>

theorem consumption_takes_the_stored_value:
  assumes "env_keeps mem_good w"
    and "env_keeps (\<lambda>s. \<forall>x. mem_view s row = Some x \<longrightarrow> x = h (revision x)) w"
    and "consume si = Some target" and "loaded target = Some base" and "0 < target_ttl target"
    and "revision (data si) = revision base" and "base = h (revision base)"
    and "json_get (custom_of si) key = json_get (custom base) key"
    and "row = (case pre_cycle_id si of Some old \<Rightarrow> old | None \<Rightarrow> inner_id si)"
    and "consume_custom ser (disturbed_store mem_store) key si w = (Some v, si', w')"
  shows "\<exists>s s' es x y. effects w' = (s, s') # es @ effects w \<and> only_reads mem_view es \<and>
    mem_view s row = Some x \<and> json_get (custom x) key = Some v \<and>
    mem_view s' = (mem_view s)(row \<mapsto> y) \<and> json_get (custom y) key = None \<and>
    revision y = revision x + 1"
  by (rule mem_contract.consume_takes [OF assms])

theorem consumption_takes_the_stored_value_witness:
  "let base = session_data_default\<lparr>custom := JObject [(''otp'', JString ''x'')]\<rparr>;
       si = \<lparr>inner_id = 5, data = base, modified = False, needs_persist = False,
             regenerate = False, pre_cycle_id = None, pending_fingerprint = None,
             max_custom_bytes = 0, inner_rng = \<lparr>uuids = (\<lambda>n. 100), drawn = 0\<rparr>,
             consume = Some \<lparr>target_ttl = 10, loaded = Some base\<rparr>\<rparr>;
       s = \<lparr>rows = kv_put 5 base 10 (kv_new \<lparr>min_utc = 0, max_utc = 100, max_delta = 100\<rparr> 5), write_count = 1\<rparr>;
       run = consume_custom (\<lambda>_. []) (disturbed_store mem_store) ''otp'' si (quiet s :: (memory_session_store, nat) world)
   in fst run = Some (JString ''x'') \<and>
      (\<exists>s s' es y. effects (snd (snd run)) = (s, s') # es \<and> mem_view s' 5 = Some y \<and>
         json_get (custom y) ''otp'' = None)"
proof -
  let ?base = "session_data_default\<lparr>custom := JObject [(''otp'', JString ''x'')]\<rparr>"
  let ?si = "\<lparr>inner_id = 5, data = ?base, modified = False, needs_persist = False,
    regenerate = False, pre_cycle_id = None, pending_fingerprint = None,
    max_custom_bytes = 0, inner_rng = \<lparr>uuids = (\<lambda>n. 100), drawn = 0\<rparr>,
    consume = Some \<lparr>target_ttl = 10, loaded = Some ?base\<rparr>\<rparr>"
  let ?s = "\<lparr>rows = kv_put 5 ?base 10 (kv_new \<lparr>min_utc = 0, max_utc = 100, max_delta = 100\<rparr> 5), write_count = 1\<rparr>"
  let ?w = "quiet ?s :: (memory_session_store, nat) world"
  let ?run = "consume_custom (\<lambda>_. []) (disturbed_store mem_store) ''otp'' ?si ?w"
  have view: "mem_view ?s = [5 \<mapsto> ?base]" "mem_good ?s"
    by (simp_all add: mem_view_def mem_good_def in_time_def)
  have fst: "fst ?run = Some (JString ''x'')"
    by (simp add: consume_custom_stored [of _ "\<lparr>target_ttl = 10, loaded = Some ?base\<rparr>" ?base _ "JString ''x''"]
        swap_merging_def numeral_3_eq_3 swap_attempts_Suc act_bind_apply disturbed_quiet quiet_def
        cas_by_revision_def mem_cas_attempts mem_cas_once_def view consume_swap_def removed_from_def
        set_bag_def bag_remove_def consumed_def Let_def)
  define h where "h = (\<lambda>_ :: u64. ?base)"
  have "\<exists>s s' es x y. effects (snd (snd ?run)) = (s, s') # es @ effects ?w \<and> only_reads mem_view es \<and>
      mem_view s 5 = Some x \<and> json_get (custom x) ''otp'' = Some (JString ''x'') \<and>
      mem_view s' = (mem_view s)(5 \<mapsto> y) \<and> json_get (custom y) ''otp'' = None \<and>
      revision y = revision x + 1"
    by (rule consumption_takes_the_stored_value
          [where h = h and si = ?si and target = "\<lparr>target_ttl = 10, loaded = Some ?base\<rparr>" and base = ?base
             and ser = "\<lambda>_. []" and si' = "fst (snd ?run)"])
       (use fst view in \<open>simp_all add: h_def prod_eq_iff\<close>)
  then obtain s s' es y where "effects (snd (snd ?run)) = (s, s') # es" "mem_view s' 5 = Some y"
    "json_get (custom y) ''otp'' = None" by (auto simp: quiet_def)
  then show ?thesis unfolding Let_def using fst by blast
qed

text \<open>
  C9. A one-shot value is handed out once. Once the stored row has lost the value (or is gone),
  and as long as no other request puts the value or the old revision back, a request that loaded
  the session with the value gets nothing, however its calls interleave and fail.
\<close>

theorem taken_value_is_not_handed_out_again:
  assumes "env_keeps mem_good w"
    and "env_keeps (\<lambda>s. \<forall>x. mem_view s row = Some x \<longrightarrow>
           revision x \<noteq> revision base \<and> json_get (custom x) key = None) w"
    and "consume si = Some target" and "loaded target = Some base" and "0 < target_ttl target"
    and "revision (data si) = revision base" and "json_get (custom base) key \<noteq> None"
    and "row = (case pre_cycle_id si of Some old \<Rightarrow> old | None \<Rightarrow> inner_id si)"
    and "consume_custom ser (disturbed_store mem_store) key si w = (r, si', w')"
  shows "r = None"
  by (rule mem_contract.consume_finds_taken [OF assms])

theorem taken_value_is_not_handed_out_again_witness:
  "let base = session_data_default\<lparr>custom := JObject [(''otp'', JString ''x'')]\<rparr>;
       si = \<lparr>inner_id = 5, data = base, modified = False, needs_persist = False,
             regenerate = False, pre_cycle_id = None, pending_fingerprint = None,
             max_custom_bytes = 0, inner_rng = \<lparr>uuids = (\<lambda>n. 100), drawn = 0\<rparr>,
             consume = Some \<lparr>target_ttl = 10, loaded = Some base\<rparr>\<rparr>;
       s = \<lparr>rows = kv_put 5 (session_data_default\<lparr>revision := 1\<rparr>) 10
                     (kv_new \<lparr>min_utc = 0, max_utc = 100, max_delta = 100\<rparr> 5), write_count = 1\<rparr>
   in fst (consume_custom (\<lambda>_. []) (disturbed_store mem_store) ''otp'' si
            (quiet s :: (memory_session_store, nat) world)) = None"
proof -
  let ?base = "session_data_default\<lparr>custom := JObject [(''otp'', JString ''x'')]\<rparr>"
  let ?si = "\<lparr>inner_id = 5, data = ?base, modified = False, needs_persist = False,
    regenerate = False, pre_cycle_id = None, pending_fingerprint = None,
    max_custom_bytes = 0, inner_rng = \<lparr>uuids = (\<lambda>n. 100), drawn = 0\<rparr>,
    consume = Some \<lparr>target_ttl = 10, loaded = Some ?base\<rparr>\<rparr>"
  let ?s = "\<lparr>rows = kv_put 5 (session_data_default\<lparr>revision := 1\<rparr>) 10
    (kv_new \<lparr>min_utc = 0, max_utc = 100, max_delta = 100\<rparr> 5), write_count = 1\<rparr>"
  let ?w = "quiet ?s :: (memory_session_store, nat) world"
  let ?run = "consume_custom (\<lambda>_. []) (disturbed_store mem_store) ''otp'' ?si ?w"
  have view: "mem_view ?s = [5 \<mapsto> session_data_default\<lparr>revision := 1\<rparr>]" "mem_good ?s"
    by (simp_all add: mem_view_def mem_good_def in_time_def)
  have "fst ?run = None"
    by (rule taken_value_is_not_handed_out_again
          [where w = ?w and row = 5 and base = ?base and key = "''otp''" and si = ?si
             and target = "\<lparr>target_ttl = 10, loaded = Some ?base\<rparr>" and ser = "\<lambda>_. []"
             and si' = "fst (snd ?run)" and w' = "snd (snd ?run)"])
       (use view in \<open>simp_all add: session_data_default_def\<close>)
  then show ?thesis unfolding Let_def .
qed

end
