(* ===== verification/Session_Registry.thy ===== *)
theory Session_Registry
  imports Effects "HOL-Library.AList"
begin

section \<open>The session registry\<close>

text \<open>
  \<^verbatim>\<open>session/store.rs\<close> (the trait \<^verbatim>\<open>SessionRegistry\<close>), \<^verbatim>\<open>session/store/handles.rs\<close> (the
  three-way liveness and the adapter that decides what a failing registry means) and
  \<^verbatim>\<open>session/store/memory_registry.rs\<close> (the in-memory registry). The registry says which session
  ids of a user are valid; it is how a session is ended from outside.
\<close>

subsection \<open>The trait and its adapter\<close>

record ('r, 'f) session_registry =
  reg_register :: "user_id \<Rightarrow> session_id \<Rightarrow> ('r, 'f, unit) act"
  reg_is_valid :: "user_id \<Rightarrow> session_id \<Rightarrow> ('r, 'f, bool) act"
  reg_invalidate_user :: "user_id \<Rightarrow> ('r, 'f, unit) act"
  reg_invalidate_session :: "user_id \<Rightarrow> session_id \<Rightarrow> ('r, 'f, unit) act"
  reg_active_sessions :: "user_id \<Rightarrow> ('r, 'f, session_id list) act"

datatype session_liveness = Valid | LivenessGone | Unknown

definition liveness ::
  "('r, 'f) session_registry \<Rightarrow> user_id \<Rightarrow> session_id \<Rightarrow> 'r \<Rightarrow> session_liveness \<times> 'r" where
  "liveness reg u sid r =
     (case reg_is_valid reg u sid r of
        (Inr True, r') \<Rightarrow> (Valid, r')
      | (Inr False, r') \<Rightarrow> (LivenessGone, r')
      | (Inl _, r') \<Rightarrow> (Unknown, r'))"

definition answered :: "('e + bool) \<Rightarrow> session_liveness" where
  "answered r = (case r of Inl _ \<Rightarrow> Unknown | Inr valid \<Rightarrow> if valid then Valid else LivenessGone)"

lemma liveness_answered:
  "liveness reg u sid r = (answered (fst (reg_is_valid reg u sid r)), snd (reg_is_valid reg u sid r))"
  by (simp add: liveness_def answered_def split: prod.split sum.split bool.split)

lemma answered_iff [simp]:
  "answered r = Valid \<longleftrightarrow> r = Inr True" "answered r = LivenessGone \<longleftrightarrow> r = Inr False"
  "answered r = Unknown \<longleftrightarrow> (\<exists>e. r = Inl e)"
  by (auto simp: answered_def split: sum.splits)

definition handle_is_valid ::
  "('r, 'f) session_registry \<Rightarrow> user_id \<Rightarrow> session_id \<Rightarrow> 'r \<Rightarrow> bool \<times> 'r" where
  "handle_is_valid reg u sid r =
     (case reg_is_valid reg u sid r of (Inr valid, r') \<Rightarrow> (valid, r') | (Inl _, r') \<Rightarrow> (False, r'))"

definition handle_register ::
  "('r, 'f) session_registry \<Rightarrow> user_id \<Rightarrow> session_id \<Rightarrow> 'r \<Rightarrow> bool \<times> 'r" where
  "handle_register reg u sid r =
     (case reg_register reg u sid r of (Inr _, r') \<Rightarrow> (True, r') | (Inl _, r') \<Rightarrow> (False, r'))"

text \<open>
  The adapter's revocation and listing pass the registry's error on; \<^verbatim>\<open>active_sessions\<close> of the
  handle is the same listing under another name.
\<close>

definition held_sessions ::
  "('r, 'f) session_registry \<Rightarrow> user_id \<Rightarrow> ('r, 'f, session_id list) act" where
  "held_sessions reg u = reg_active_sessions reg u"

definition handle_active_sessions ::
  "('r, 'f) session_registry \<Rightarrow> user_id \<Rightarrow> ('r, 'f, session_id list) act" where
  "handle_active_sessions reg u = held_sessions reg u"

subsection \<open>The in-memory registry\<close>

abbreviation MIN_SWEEP_USERS :: nat where
  "MIN_SWEEP_USERS \<equiv> 32"

type_synonym registered_session = "session_id \<times> datetime"

record memory_registry =
  valid_sessions :: "(user_id \<times> registered_session list) list"
  reg_ttl :: duration
  reg_now :: datetime
  reg_limits :: time_limits
  sweep_at :: nat

definition registry_new :: "time_limits \<Rightarrow> datetime \<Rightarrow> duration \<Rightarrow> memory_registry" where
  "registry_new lim t ttl =
     \<lparr>valid_sessions = [], reg_ttl = ttl, reg_now = t, reg_limits = lim, sweep_at = MIN_SWEEP_USERS\<rparr>"

definition cutoff :: "memory_registry \<Rightarrow> datetime" where
  "cutoff r =
     (case Option.bind (from_std (reg_limits r) (reg_ttl r))
             (checked_sub_signed (reg_limits r) (reg_now r)) of
        Some t \<Rightarrow> t
      | None \<Rightarrow> min_utc (reg_limits r))"

definition sessions_of :: "memory_registry \<Rightarrow> user_id \<Rightarrow> registered_session list" where
  "sessions_of r u = (case map_of (valid_sessions r) u of Some ss \<Rightarrow> ss | None \<Rightarrow> [])"

definition live_part :: "datetime \<Rightarrow> registered_session list \<Rightarrow> registered_session list" where
  "live_part since ss = filter (\<lambda>(_, stamp). since < stamp) ss"

text \<open>Renew the stamp of the first entry with the id, or append one.\<close>

definition renew_or_push ::
  "session_id \<Rightarrow> datetime \<Rightarrow> registered_session list \<Rightarrow> registered_session list" where
  "renew_or_push sid now ss =
     (case position (\<lambda>(s, _). s = sid) ss of
        Some i \<Rightarrow> ss[i := (sid, now)]
      | None \<Rightarrow> ss @ [(sid, now)])"

definition sweep :: "datetime \<Rightarrow> memory_registry \<Rightarrow> memory_registry" where
  "sweep since r =
     (if sweep_at r \<le> length (valid_sessions r)
      then let kept = filter (\<lambda>(_, ss). ss \<noteq> [])
                        (map (\<lambda>(u, ss). (u, live_part since ss)) (valid_sessions r))
           in r\<lparr>valid_sessions := kept,
                sweep_at := max (min (length kept * 2) (2 ^ 64 - 1)) MIN_SWEEP_USERS\<rparr>
      else r)"

definition mreg_register :: "user_id \<Rightarrow> session_id \<Rightarrow> (memory_registry, 'f, unit) act" where
  "mreg_register u sid r =
     (let since = cutoff r;
          entry = renew_or_push sid (reg_now r) (live_part since (sessions_of r u))
      in (Inr (), sweep since (r\<lparr>valid_sessions := AList.update u entry (valid_sessions r)\<rparr>)))"

definition mreg_is_valid :: "user_id \<Rightarrow> session_id \<Rightarrow> (memory_registry, 'f, bool) act" where
  "mreg_is_valid u sid r =
     (case map_of (valid_sessions r) u of
        None \<Rightarrow> (Inr False, r)
      | Some ss \<Rightarrow>
          (let half = (case from_std (reg_limits r) (reg_ttl r div 2) of
                         Some h \<Rightarrow> h | None \<Rightarrow> max_delta (reg_limits r))
           in case position (\<lambda>(s, _). s = sid) ss of
                None \<Rightarrow> (Inr False, r)
              | Some i \<Rightarrow>
                  (let at = snd (ss ! i); is_live = (cutoff r < at) in
                   (Inr is_live,
                    if is_live \<and> half \<le> reg_now r - at
                    then r\<lparr>valid_sessions := AList.update u (ss[i := (fst (ss ! i), reg_now r)])
                             (valid_sessions r)\<rparr>
                    else r))))"

definition mreg_invalidate_user :: "user_id \<Rightarrow> (memory_registry, 'f, unit) act" where
  "mreg_invalidate_user u r = (Inr (), r\<lparr>valid_sessions := AList.delete u (valid_sessions r)\<rparr>)"

definition mreg_invalidate_session :: "user_id \<Rightarrow> session_id \<Rightarrow> (memory_registry, 'f, unit) act" where
  "mreg_invalidate_session u sid r =
     (let removed = (case map_of (valid_sessions r) u of
             Some ss \<Rightarrow> AList.update u (filter (\<lambda>(s, _). s \<noteq> sid) ss) (valid_sessions r)
           | None \<Rightarrow> valid_sessions r)
      in (Inr (), r\<lparr>valid_sessions := filter (\<lambda>(k, v). k \<noteq> u \<or> v \<noteq> []) removed\<rparr>))"

definition mreg_active_sessions :: "user_id \<Rightarrow> (memory_registry, 'f, session_id list) act" where
  "mreg_active_sessions u r =
     (Inr (case map_of (valid_sessions r) u of
             Some ss \<Rightarrow> map fst (live_part (cutoff r) ss)
           | None \<Rightarrow> []), r)"

definition mem_registry :: "(memory_registry, 'f) session_registry" where
  "mem_registry =
     \<lparr>reg_register = mreg_register, reg_is_valid = mreg_is_valid,
      reg_invalidate_user = mreg_invalidate_user, reg_invalidate_session = mreg_invalidate_session,
      reg_active_sessions = mreg_active_sessions\<rparr>"

subsection \<open>What a registry promises\<close>

text \<open>
  The view of a registry: for each user the valid session ids, oldest first. Registering keeps
  the place of an id already there; asking changes nothing that is seen.
\<close>

type_synonym registrations = "user_id \<Rightarrow> session_id list"

definition spec_register :: "user_id \<Rightarrow> session_id \<Rightarrow> registrations \<Rightarrow> unit \<times> registrations" where
  "spec_register u sid m = ((), m(u := if sid \<in> set (m u) then m u else m u @ [sid]))"

definition spec_is_valid :: "user_id \<Rightarrow> session_id \<Rightarrow> registrations \<Rightarrow> bool \<times> registrations" where
  "spec_is_valid u sid m = (sid \<in> set (m u), m)"

definition spec_invalidate_user :: "user_id \<Rightarrow> registrations \<Rightarrow> unit \<times> registrations" where
  "spec_invalidate_user u m = ((), m(u := []))"

definition spec_invalidate_session ::
  "user_id \<Rightarrow> session_id \<Rightarrow> registrations \<Rightarrow> unit \<times> registrations" where
  "spec_invalidate_session u sid m = ((), m(u := filter (\<lambda>s. s \<noteq> sid) (m u)))"

definition spec_active_sessions :: "user_id \<Rightarrow> registrations \<Rightarrow> session_id list \<times> registrations" where
  "spec_active_sessions u m = (m u, m)"

locale registry_contract =
  fixes reg :: "('r, 'f) session_registry"
    and rgood :: "'r \<Rightarrow> bool"
    and rview :: "'r \<Rightarrow> registrations"
  assumes register_spec: "implements rgood rview (reg_register reg u sid) (spec_register u sid)"
    and is_valid_spec: "implements rgood rview (reg_is_valid reg u sid) (spec_is_valid u sid)"
    and invalidate_user_spec:
      "implements rgood rview (reg_invalidate_user reg u) (spec_invalidate_user u)"
    and invalidate_session_spec:
      "implements rgood rview (reg_invalidate_session reg u sid) (spec_invalidate_session u sid)"
    and active_sessions_spec:
      "implements rgood rview (reg_active_sessions reg u) (spec_active_sessions u)"


subsection \<open>The in-memory registry keeps the contract\<close>

definition mreg_view :: "memory_registry \<Rightarrow> registrations" where
  "mreg_view r u = map fst (live_part (cutoff r) (sessions_of r u))"

definition mreg_good :: "memory_registry \<Rightarrow> bool" where
  "mreg_good r \<longleftrightarrow> distinct (map fst (valid_sessions r)) \<and>
     (\<forall>u. distinct (map fst (sessions_of r u))) \<and>
     0 < reg_ttl r \<and> min_utc (reg_limits r) < reg_now r"

lemma cutoff_before_now: "mreg_good r \<Longrightarrow> cutoff r < reg_now r"
  by (auto simp: mreg_good_def cutoff_def time_simps split: option.split bind_split)

lemma cutoff_valid_sessions [simp]:
  "cutoff (r\<lparr>valid_sessions := vs\<rparr>) = cutoff r" "cutoff (r\<lparr>valid_sessions := vs, sweep_at := n\<rparr>) = cutoff r"
  by (simp_all add: cutoff_def cong: option.case_cong)

lemma cutoff_sweep [simp]: "cutoff (sweep c r) = cutoff r"
  by (simp add: sweep_def Let_def)

lemma live_part_simps [simp]:
  "live_part c [] = []"
  "live_part c (x # ss) = (if c < snd x then x # live_part c ss else live_part c ss)"
  "live_part c (ss @ ts) = live_part c ss @ live_part c ts"
  "live_part c (live_part c ss) = live_part c ss"
  by (auto simp: live_part_def case_prod_beta intro: filter_cong)

lemma live_part_all: "\<forall>x \<in> set ss. c < snd x \<Longrightarrow> live_part c ss = ss"
  by (simp add: live_part_def case_prod_beta)

lemma live_part_live: "x \<in> set (live_part c ss) \<Longrightarrow> c < snd x"
  by (auto simp: live_part_def)

lemma distinct_live_part: "distinct (map fst ss) \<Longrightarrow> distinct (map fst (live_part c ss))"
  by (simp add: live_part_def distinct_map_filter)

lemma sessions_of_update [simp]:
  "sessions_of (r\<lparr>valid_sessions := AList.update u ss (valid_sessions r)\<rparr>) v =
     (if v = u then ss else sessions_of r v)"
  by (simp add: sessions_of_def update_conv')

lemma sessions_of_delete [simp]:
  "sessions_of (r\<lparr>valid_sessions := AList.delete u (valid_sessions r)\<rparr>) v =
     (if v = u then [] else sessions_of r v)"
  by (simp add: sessions_of_def delete_conv')

text \<open>Dropping users with no session left does not show.\<close>

lemma sessions_of_dropped:
  assumes "distinct (map fst vs)" "\<And>k ss. (k, ss) \<in> set vs \<Longrightarrow> \<not> P k ss \<Longrightarrow> ss = []"
  shows "sessions_of (r\<lparr>valid_sessions := filter (\<lambda>(k, ss). P k ss) vs\<rparr>) v =
    sessions_of (r\<lparr>valid_sessions := vs\<rparr>) v"
  using assms
proof (induction vs)
  case (Cons x vs)
  show ?case
  proof (cases "fst x = v")
    case True
    with Cons.prems(1) have "v \<notin> fst ` set vs" by auto
    then have "map_of vs v = None" "map_of (filter (\<lambda>a. P (fst a) (snd a)) vs) v = None"
      by (auto simp: map_of_eq_None_iff)
    with True Cons.prems(2) [of "fst x" "snd x"] show ?thesis
      by (auto simp: sessions_of_def case_prod_beta)
  next
    case False
    with Cons.IH Cons.prems show ?thesis by (auto simp: sessions_of_def case_prod_beta)
  qed
qed simp

lemma sessions_of_live_parts:
  "sessions_of (r\<lparr>valid_sessions := map (\<lambda>(u, ss). (u, live_part c ss)) vs\<rparr>) v =
     live_part c (sessions_of (r\<lparr>valid_sessions := vs\<rparr>) v)"
  by (simp add: sessions_of_def map_of_map split: option.split)

lemma sessions_of_other_fields [simp]:
  "sessions_of (r\<lparr>valid_sessions := vs, sweep_at := n\<rparr>) v = sessions_of (r\<lparr>valid_sessions := vs\<rparr>) v"
  "r\<lparr>valid_sessions := valid_sessions r\<rparr> = r"
  by (simp_all add: sessions_of_def)

lemma map_fst_live_parts [simp]: "map fst (map (\<lambda>(u, ss). (u, live_part c ss)) vs) = map fst vs"
  by (induction vs) auto

lemma sessions_of_sweep:
  assumes "distinct (map fst (valid_sessions r))"
  shows "sessions_of (sweep c r) v = sessions_of r v \<or>
    sessions_of (sweep c r) v = live_part c (sessions_of r v)"
proof -
  have "sessions_of (r\<lparr>valid_sessions := filter (\<lambda>(_, ss). ss \<noteq> [])
      (map (\<lambda>(u, ss). (u, live_part c ss)) (valid_sessions r))\<rparr>) v = live_part c (sessions_of r v)"
    using assms by (subst sessions_of_dropped) (simp_all only: map_fst_live_parts sessions_of_live_parts
      sessions_of_other_fields, simp_all)
  then show ?thesis by (simp add: sweep_def Let_def)
qed

lemma sweep_good:
  assumes "mreg_good r"
  shows "mreg_good (sweep c r)"
proof -
  have "distinct (map fst (valid_sessions (sweep c r)))"
    using assms by (simp add: sweep_def Let_def mreg_good_def distinct_map_filter
      map_fst_live_parts [unfolded map_map] del: map_map)
  moreover have "distinct (map fst (sessions_of (sweep c r) u))" for u
    using sessions_of_sweep [of r c u] assms by (auto simp: mreg_good_def distinct_live_part)
  moreover have "reg_ttl (sweep c r) = reg_ttl r" "reg_now (sweep c r) = reg_now r"
    "reg_limits (sweep c r) = reg_limits r"
    by (simp_all add: sweep_def Let_def)
  ultimately show ?thesis using assms by (simp add: mreg_good_def)
qed

lemma mreg_view_sweep:
  assumes "mreg_good r"
  shows "mreg_view (sweep (cutoff r) r) = mreg_view r"
proof
  fix u
  from assms have "distinct (map fst (valid_sessions r))" by (simp add: mreg_good_def)
  from sessions_of_sweep [OF this, of "cutoff r" u]
  show "mreg_view (sweep (cutoff r) r) u = mreg_view r u" by (auto simp: mreg_view_def)
qed

lemma mreg_good_update:
  assumes "mreg_good r" "distinct (map fst ss)"
  shows "mreg_good (r\<lparr>valid_sessions := AList.update u ss (valid_sessions r)\<rparr>)"
  using assms by (simp add: mreg_good_def distinct_update)

lemma mreg_view_update:
  "mreg_view (r\<lparr>valid_sessions := AList.update u ss (valid_sessions r)\<rparr>) =
     (mreg_view r)(u := map fst (live_part (cutoff r) ss))"
  by (simp add: mreg_view_def fun_eq_iff)

subsubsection \<open>Registering\<close>

lemma map_fst_update_same:
  "i < length ss \<Longrightarrow> fst (ss ! i) = sid \<Longrightarrow> map fst (ss[i := (sid, now)]) = map fst ss"
  by (metis fst_conv list_update_id map_update nth_map)

lemma ids_renew_or_push:
  "map fst (renew_or_push sid now ss) =
     (if sid \<in> set (map fst ss) then map fst ss else map fst ss @ [sid])"
proof (cases "position (\<lambda>(s, _). s = sid) ss")
  case None
  then have "sid \<notin> fst ` set ss" by (auto simp: position_None)
  with None show ?thesis by (simp add: renew_or_push_def)
next
  case (Some i)
  then have "i < length ss" "fst (ss ! i) = sid"
    using position_Some [OF Some] by (auto simp: case_prod_beta)
  moreover from this have "sid \<in> fst ` set ss" by (metis image_eqI nth_mem)
  ultimately show ?thesis using Some by (simp add: renew_or_push_def map_fst_update_same)
qed

lemma renew_or_push_live:
  assumes "\<forall>x \<in> set ss. c < snd x" "c < now"
  shows "live_part c (renew_or_push sid now ss) = renew_or_push sid now ss"
proof (rule live_part_all)
  show "\<forall>x \<in> set (renew_or_push sid now ss). c < snd x"
  proof (cases "position (\<lambda>(s, _). s = sid) ss")
    case (Some i)
    with assms set_update_subset_insert [of ss i "(sid, now)"] show ?thesis
      by (auto simp: renew_or_push_def)
  qed (use assms in \<open>auto simp: renew_or_push_def\<close>)
qed

lemma mreg_register_spec:
  "implements mreg_good mreg_view (mreg_register u sid) (spec_register u sid)"
proof (rule implements_runI)
  fix r assume good: "mreg_good r"
  define ss where "ss = renew_or_push sid (reg_now r) (live_part (cutoff r) (sessions_of r u))"
  define r1 where "r1 = r\<lparr>valid_sessions := AList.update u ss (valid_sessions r)\<rparr>"
  have ids: "map fst ss = (if sid \<in> set (mreg_view r u) then mreg_view r u else mreg_view r u @ [sid])"
    by (simp add: ss_def ids_renew_or_push mreg_view_def)
  have "live_part (cutoff r) ss = ss"
    unfolding ss_def by (rule renew_or_push_live) (auto simp: live_part_live cutoff_before_now [OF good])
  with ids have view: "mreg_view r1 = snd (spec_register u sid (mreg_view r))"
    by (simp add: r1_def mreg_view_update spec_register_def)
  have "distinct (mreg_view r u)"
    using good by (simp add: mreg_view_def mreg_good_def distinct_live_part)
  with ids good have "mreg_good r1" by (auto simp: r1_def intro!: mreg_good_update)
  moreover have "mreg_register u sid r = (Inr (), sweep (cutoff r1) r1)"
    by (simp add: mreg_register_def Let_def r1_def ss_def)
  ultimately show "\<exists>x r'. mreg_register u sid r = (Inr x, r') \<and> mreg_good r' \<and>
      (x, mreg_view r') = spec_register u sid (mreg_view r)"
    using view mreg_view_sweep [of r1] sweep_good [of r1] by (metis prod.collapse old.unit.exhaust)
qed

subsubsection \<open>Asking, revoking, listing\<close>

lemma view_restamp:
  "i < length ss \<Longrightarrow> c < snd (ss ! i) \<Longrightarrow> c < now \<Longrightarrow>
     map fst (live_part c (ss[i := (fst (ss ! i), now)])) = map fst (live_part c ss)"
proof (induction ss arbitrary: i)
  case (Cons x ss)
  then show ?case by (cases i) auto
qed simp

lemma live_at_position:
  assumes "distinct (map fst ss)" "position (\<lambda>(s, _). s = sid) ss = Some i"
  shows "c < snd (ss ! i) \<longleftrightarrow> sid \<in> set (map fst (live_part c ss))"
proof -
  have i: "i < length ss" "fst (ss ! i) = sid"
    using position_Some [OF assms(2)] by (auto simp: case_prod_beta)
  have "x = ss ! i" if "x \<in> set ss" "fst x = sid" for x
    using that i assms(1) by (metis distinct_map inj_onD nth_mem)
  moreover have "sid \<in> set (map fst (live_part c ss)) \<longleftrightarrow> (\<exists>x \<in> set ss. c < snd x \<and> fst x = sid)"
    by (force simp: live_part_def)
  ultimately show ?thesis using i by (metis nth_mem)
qed

lemma mreg_is_valid_spec:
  "implements mreg_good mreg_view (mreg_is_valid u sid) (spec_is_valid u sid)"
proof (rule implements_runI)
  fix r assume good: "mreg_good r"
  show "\<exists>x r'. mreg_is_valid u sid r = (Inr x, r') \<and> mreg_good r' \<and>
      (x, mreg_view r') = spec_is_valid u sid (mreg_view r)"
  proof (cases "map_of (valid_sessions r) u")
    case None
    then show ?thesis using good
      by (intro exI [of _ False] exI [of _ r])
        (simp add: mreg_is_valid_def spec_is_valid_def mreg_view_def sessions_of_def)
  next
    case (Some ss)
    then have ss: "sessions_of r u = ss" by (simp add: sessions_of_def)
    with good have dist: "distinct (map fst ss)" by (auto simp: mreg_good_def)
    show ?thesis
    proof (cases "position (\<lambda>(s, _). s = sid) ss")
      case None
      then have "sid \<notin> set (mreg_view r u)"
        by (auto simp: position_None mreg_view_def ss live_part_def)
      with Some None good show ?thesis
        by (intro exI [of _ False] exI [of _ r]) (simp add: mreg_is_valid_def spec_is_valid_def Let_def)
    next
      case (Some i)
      have i: "i < length ss" using position_Some [OF Some] by simp
      let ?r1 = "r\<lparr>valid_sessions := AList.update u (ss[i := (fst (ss ! i), reg_now r)]) (valid_sessions r)\<rparr>"
      have valid: "cutoff r < snd (ss ! i) \<longleftrightarrow> sid \<in> set (mreg_view r u)"
        using live_at_position [OF dist Some] by (simp add: mreg_view_def ss)
      have "mreg_good ?r1"
        using good dist i by (intro mreg_good_update) (simp_all add: map_fst_update_same)
      moreover have "mreg_view ?r1 = mreg_view r" if "cutoff r < snd (ss ! i)"
        using view_restamp [OF i that cutoff_before_now [OF good]]
        by (simp add: mreg_view_update) (simp add: mreg_view_def ss fun_eq_iff)
      ultimately show ?thesis
        using \<open>map_of (valid_sessions r) u = Some ss\<close> Some good valid
        by (simp add: mreg_is_valid_def spec_is_valid_def Let_def)
    qed
  qed
qed

lemma mreg_invalidate_user_spec:
  "implements mreg_good mreg_view (mreg_invalidate_user u) (spec_invalidate_user u)"
  by (rule implements_runI)
    (auto simp: mreg_invalidate_user_def spec_invalidate_user_def mreg_good_def mreg_view_def
      fun_eq_iff distinct_delete)

lemma live_part_filter:
  "map fst (live_part c (filter (\<lambda>(s, _). s \<noteq> sid) ss)) = filter (\<lambda>s. s \<noteq> sid) (map fst (live_part c ss))"
  by (induction ss) auto

lemma mreg_invalidate_session_spec:
  "implements mreg_good mreg_view (mreg_invalidate_session u sid) (spec_invalidate_session u sid)"
proof (rule implements_runI)
  fix r assume good: "mreg_good r"
  let ?gone = "filter (\<lambda>(s, _). s \<noteq> sid) (sessions_of r u)"
  define vs where "vs = (case map_of (valid_sessions r) u of
      Some ss \<Rightarrow> AList.update u (filter (\<lambda>(s, _). s \<noteq> sid) ss) (valid_sessions r)
    | None \<Rightarrow> valid_sessions r)"
  have dist: "distinct (map fst vs)"
    using good by (simp add: vs_def mreg_good_def distinct_update split: option.split)
  have seen: "sessions_of (r\<lparr>valid_sessions := vs\<rparr>) v = (if v = u then ?gone else sessions_of r v)" for v
    by (simp add: vs_def sessions_of_def update_conv' split: option.split)
  define ws where "ws = filter (\<lambda>(k, v). k \<noteq> u \<or> v \<noteq> []) vs"
  have kept: "sessions_of (r\<lparr>valid_sessions := ws\<rparr>) v = (if v = u then ?gone else sessions_of r v)" for v
    using dist unfolding ws_def by (subst sessions_of_dropped) (auto simp: seen)
  from dist have dist': "distinct (map fst ws)" by (simp add: ws_def distinct_map_filter)
  have run: "mreg_invalidate_session u sid r = (Inr (), r\<lparr>valid_sessions := ws\<rparr>)"
    unfolding mreg_invalidate_session_def ws_def vs_def Let_def ..
  show "\<exists>x r'. mreg_invalidate_session u sid r = (Inr x, r') \<and> mreg_good r' \<and>
      (x, mreg_view r') = spec_invalidate_session u sid (mreg_view r)"
    using good dist' unfolding run
    by (auto simp: spec_invalidate_session_def mreg_good_def mreg_view_def fun_eq_iff kept
      live_part_filter distinct_map_filter)
qed

lemma mreg_active_sessions_spec:
  "implements mreg_good mreg_view (mreg_active_sessions u) (spec_active_sessions u)"
  by (rule implements_runI)
    (auto simp: mreg_active_sessions_def spec_active_sessions_def mreg_view_def sessions_of_def
      split: option.split)

interpretation mem_reg: registry_contract mem_registry mreg_good mreg_view
  by unfold_locales
    (simp_all add: mem_registry_def mreg_register_spec mreg_is_valid_spec mreg_invalidate_user_spec
      mreg_invalidate_session_spec mreg_active_sessions_spec)

subsection \<open>Properties\<close>

text \<open>
  C14. The in-memory registry keeps the contract of a session registry. Seen through the ids that
  have not expired, registering keeps the place of an id already there and otherwise puts it
  last, so the list a session limit evicts from is in order of registration; asking only renews
  a stamp and is not seen; a revocation removes the named session, or all of the user's, and
  nothing of other users; dropping expired entries, the user's own or in the sweep over all
  users, is never seen.
\<close>

theorem mem_registry_keeps_contract:
  "implements mreg_good mreg_view (reg_register mem_registry u sid) (spec_register u sid) \<and>
   implements mreg_good mreg_view (reg_is_valid mem_registry u sid) (spec_is_valid u sid) \<and>
   implements mreg_good mreg_view (reg_invalidate_user mem_registry u) (spec_invalidate_user u) \<and>
   implements mreg_good mreg_view (reg_invalidate_session mem_registry u sid)
     (spec_invalidate_session u sid) \<and>
   implements mreg_good mreg_view (reg_active_sessions mem_registry u) (spec_active_sessions u)"
  by (intro conjI mem_reg.register_spec mem_reg.is_valid_spec mem_reg.invalidate_user_spec
      mem_reg.invalidate_session_spec mem_reg.active_sessions_spec)

end
