(* ===== verification/Session_Services.thy ===== *)
theory Session_Services
  imports Session_Handle Session_Registry
begin

section \<open>The store and the registry together\<close>

text \<open>
  The session layer (\<^verbatim>\<open>session/layer.rs\<close>) works on two services, the store and the registry,
  which other requests use at the same time. Both are operations on one shared state, seen as a
  table of rows and a list of registrations; an operation of one service leaves what is seen of
  the other alone.
\<close>

subsection \<open>Operations on one part of the state\<close>

definition on_fst :: "('s, 'e, 'a) act \<Rightarrow> ('s \<times> 'r, 'e, 'a) act" where
  "on_fst m = (\<lambda>(s, r). case m s of (x, s') \<Rightarrow> (x, (s', r)))"

definition on_snd :: "('r, 'e, 'a) act \<Rightarrow> ('s \<times> 'r, 'e, 'a) act" where
  "on_snd m = (\<lambda>(s, r). case m r of (x, r') \<Rightarrow> (x, (s, r')))"

definition on_table :: "(table \<Rightarrow> 'a \<times> table) \<Rightarrow> table \<times> registrations \<Rightarrow> 'a \<times> table \<times> registrations" where
  "on_table f = (\<lambda>(t, g). case f t of (x, t') \<Rightarrow> (x, (t', g)))"

definition on_registrations ::
  "(registrations \<Rightarrow> 'a \<times> registrations) \<Rightarrow> table \<times> registrations \<Rightarrow> 'a \<times> table \<times> registrations" where
  "on_registrations f = (\<lambda>(t, g). case f g of (x, g') \<Rightarrow> (x, (t, g')))"

lemma on_table_simps [simp]:
  "fst (on_table f v) = fst (f (fst v))" "fst (snd (on_table f v)) = snd (f (fst v))"
  "snd (snd (on_table f v)) = snd v"
  by (simp_all add: on_table_def split: prod.split)

lemma on_registrations_simps [simp]:
  "fst (on_registrations f v) = fst (f (snd v))" "fst (snd (on_registrations f v)) = fst v"
  "snd (snd (on_registrations f v)) = snd (f (snd v))"
  by (simp_all add: on_registrations_def split: prod.split)

lemma implements_on_fst:
  assumes "implements good view m f"
  shows "implements (\<lambda>(s, r). good s \<and> rgood r) (\<lambda>(s, r). (view s, rview r)) (on_fst m) (on_table f)"
  using assms
  by (auto simp: implements_def on_fst_def on_table_def split: prod.splits sum.splits)

lemma implements_on_snd:
  assumes "implements rgood rview m f"
  shows "implements (\<lambda>(s, r). good s \<and> rgood r) (\<lambda>(s, r). (view s, rview r)) (on_snd m) (on_registrations f)"
  using assms
  by (auto simp: implements_def on_snd_def on_registrations_def split: prod.splits sum.splits)

definition store_on_fst :: "('s, 'e) session_store \<Rightarrow> ('s \<times> 'r, 'e) session_store" where
  "store_on_fst st =
     \<lparr>load = (\<lambda>sid. on_fst (load st sid)),
      save = (\<lambda>sid data ttl. on_fst (save st sid data ttl)),
      delete = (\<lambda>sid. on_fst (delete st sid)),
      update = (\<lambda>sid data ttl. on_fst (update st sid data ttl)),
      cycle = (\<lambda>old_id new_id data ttl req. on_fst (cycle st old_id new_id data ttl req)),
      prune_expired = on_fst (prune_expired st),
      find_sessions_for_user = (\<lambda>user limit. on_fst (find_sessions_for_user st user limit)),
      update_if_revision = (\<lambda>sid expected data ttl. on_fst (update_if_revision st sid expected data ttl)),
      cycle_if_revision = (\<lambda>old_id new_id data ttl req expected.
        on_fst (cycle_if_revision st old_id new_id data ttl req expected))\<rparr>"

definition registry_on_snd :: "('r, 'e) session_registry \<Rightarrow> ('s \<times> 'r, 'e) session_registry" where
  "registry_on_snd reg =
     \<lparr>reg_register = (\<lambda>u sid. on_snd (reg_register reg u sid)),
      reg_is_valid = (\<lambda>u sid. on_snd (reg_is_valid reg u sid)),
      reg_invalidate_user = (\<lambda>u. on_snd (reg_invalidate_user reg u)),
      reg_invalidate_session = (\<lambda>u sid. on_snd (reg_invalidate_session reg u sid)),
      reg_active_sessions = (\<lambda>u. on_snd (reg_active_sessions reg u))\<rparr>"

lemma store_on_fst_sel:
  "load (store_on_fst st) sid = on_fst (load st sid)"
  "save (store_on_fst st) sid d ttl = on_fst (save st sid d ttl)"
  "delete (store_on_fst st) sid = on_fst (delete st sid)"
  "update (store_on_fst st) sid d ttl = on_fst (update st sid d ttl)"
  "cycle (store_on_fst st) old_id new_id d ttl req = on_fst (cycle st old_id new_id d ttl req)"
  "update_if_revision (store_on_fst st) sid expected d ttl =
     on_fst (update_if_revision st sid expected d ttl)"
  "cycle_if_revision (store_on_fst st) old_id new_id d ttl req expected =
     on_fst (cycle_if_revision st old_id new_id d ttl req expected)"
  by (simp_all add: store_on_fst_def)

lemma registry_on_snd_sel:
  "reg_register (registry_on_snd reg) u sid = on_snd (reg_register reg u sid)"
  "reg_is_valid (registry_on_snd reg) u sid = on_snd (reg_is_valid reg u sid)"
  "reg_invalidate_user (registry_on_snd reg) u = on_snd (reg_invalidate_user reg u)"
  "reg_invalidate_session (registry_on_snd reg) u sid = on_snd (reg_invalidate_session reg u sid)"
  by (simp_all add: registry_on_snd_def)

definition disturbed_registry :: "('s, 'e) session_registry \<Rightarrow> (('s, 'e) world, 'e) session_registry" where
  "disturbed_registry reg =
     \<lparr>reg_register = (\<lambda>u sid. disturbed (reg_register reg u sid)),
      reg_is_valid = (\<lambda>u sid. disturbed (reg_is_valid reg u sid)),
      reg_invalidate_user = (\<lambda>u. disturbed (reg_invalidate_user reg u)),
      reg_invalidate_session = (\<lambda>u sid. disturbed (reg_invalidate_session reg u sid)),
      reg_active_sessions = (\<lambda>u. disturbed (reg_active_sessions reg u))\<rparr>"

lemma disturbed_registry_sel [simp]:
  "reg_register (disturbed_registry reg) u sid = disturbed (reg_register reg u sid)"
  "reg_is_valid (disturbed_registry reg) u sid = disturbed (reg_is_valid reg u sid)"
  "reg_invalidate_user (disturbed_registry reg) u = disturbed (reg_invalidate_user reg u)"
  "reg_invalidate_session (disturbed_registry reg) u sid = disturbed (reg_invalidate_session reg u sid)"
  "reg_active_sessions (disturbed_registry reg) u = disturbed (reg_active_sessions reg u)"
  by (simp_all add: disturbed_registry_def)

subsection \<open>The contract of the two services\<close>

locale session_services =
  fixes st :: "('w, 'e) session_store"
    and reg :: "('w, 'e) session_registry"
    and good :: "'w \<Rightarrow> bool"
    and seen :: "'w \<Rightarrow> table \<times> registrations"
  assumes load_step: "implements good seen (load st sid) (on_table (spec_load sid))"
    and save_step: "implements good seen (save st sid d ttl) (on_table (spec_save sid d ttl))"
    and delete_step: "implements good seen (delete st sid) (on_table (spec_delete sid))"
    and update_step: "implements good seen (update st sid d ttl) (on_table (spec_update sid d ttl))"
    and update_if_revision_step:
      "implements good seen (update_if_revision st sid expected d ttl)
         (on_table (spec_update_if_revision sid expected d ttl))"
    and cycle_step:
      "implements good seen (cycle st old_id new_id d ttl require_old)
         (on_table (spec_cycle old_id new_id d ttl require_old))"
    and cycle_if_revision_step:
      "implements good seen (cycle_if_revision st old_id new_id d ttl require_old expected)
         (on_table (spec_cycle_if_revision old_id new_id d ttl require_old expected))"
    and register_step:
      "implements good seen (reg_register reg u sid) (on_registrations (spec_register u sid))"
    and is_valid_step:
      "implements good seen (reg_is_valid reg u sid) (on_registrations (spec_is_valid u sid))"
    and invalidate_user_step:
      "implements good seen (reg_invalidate_user reg u) (on_registrations (spec_invalidate_user u))"
    and invalidate_session_step:
      "implements good seen (reg_invalidate_session reg u sid)
         (on_registrations (spec_invalidate_session u sid))"

text \<open>Each service alone keeps its own contract on its part of what is seen.\<close>

lemma implements_table:
  "implements good seen m (on_table f) \<Longrightarrow> implements good (\<lambda>s. fst (seen s)) m f"
  unfolding implements_def by (auto simp: prod_eq_iff split: sum.splits)

sublocale session_services \<subseteq> rows: session_store_contract st good "\<lambda>s. fst (seen s)"
  by unfold_locales
    (rule implements_table load_step save_step delete_step update_step update_if_revision_step
      cycle_step cycle_if_revision_step)+

subsection \<open>The two in-memory services\<close>

type_synonym memory_services = "memory_session_store \<times> memory_registry"

definition mem_services_store :: "(memory_services, 'e) session_store" where
  "mem_services_store = store_on_fst mem_store"

definition mem_services_registry :: "(memory_services, 'e) session_registry" where
  "mem_services_registry = registry_on_snd mem_registry"

definition mem_services_good :: "memory_services \<Rightarrow> bool" where
  "mem_services_good = (\<lambda>(s, r). mem_good s \<and> mreg_good r)"

definition mem_services_seen :: "memory_services \<Rightarrow> table \<times> registrations" where
  "mem_services_seen = (\<lambda>(s, r). (mem_view s, mreg_view r))"

interpretation mem_svc: session_services mem_services_store mem_services_registry
  mem_services_good mem_services_seen
  unfolding mem_services_store_def mem_services_registry_def mem_services_good_def
    mem_services_seen_def
  by unfold_locales
    (unfold store_on_fst_sel registry_on_snd_sel,
      (rule implements_on_fst implements_on_snd mem_contract.load_spec mem_contract.save_spec
        mem_contract.delete_spec mem_contract.update_spec mem_contract.update_if_revision_spec
        mem_contract.cycle_spec mem_contract.cycle_if_revision_spec mem_reg.register_spec
        mem_reg.is_valid_spec mem_reg.invalidate_user_spec mem_reg.invalidate_session_spec)+)

subsection \<open>Small services for examples\<close>

definition example_limits :: time_limits where
  "example_limits = \<lparr>min_utc = 0, max_utc = 100, max_delta = 100\<rparr>"

definition example_services :: "session_id \<Rightarrow> session_data \<Rightarrow> memory_services" where
  "example_services sid d =
     (\<lparr>rows = kv_put sid d 10 (kv_new example_limits 5), write_count = 0\<rparr>, registry_new example_limits 5 10)"

definition empty_services :: memory_services where
  "empty_services = (\<lparr>rows = kv_new example_limits 5, write_count = 0\<rparr>, registry_new example_limits 5 10)"

definition example_inner :: "session_id \<Rightarrow> session_data \<Rightarrow> session_data \<Rightarrow> session_inner" where
  "example_inner sid base d =
     \<lparr>inner_id = sid, data = d, modified = True, needs_persist = False, regenerate = False,
      pre_cycle_id = None, pending_fingerprint = None, max_custom_bytes = 0,
      inner_rng = \<lparr>uuids = (\<lambda>n. 100 + of_nat n), drawn = 0\<rparr>,
      consume = Some \<lparr>target_ttl = 10, loaded = Some base\<rparr>\<rparr>"

lemma example_services_good [simp]: "mem_services_good (example_services sid d)"
  by (simp add: example_services_def example_limits_def in_time_def mem_services_good_def mem_good_def
      mreg_good_def registry_new_def sessions_of_def)

lemma example_services_seen [simp]: "mem_services_seen (example_services sid d) = ([sid \<mapsto> d], \<lambda>u. [])"
  by (simp add: example_services_def example_limits_def in_time_def mem_services_seen_def mem_view_def
      mreg_view_def registry_new_def sessions_of_def fun_eq_iff)

lemma empty_services_good [simp]: "mem_services_good empty_services"
  by (simp add: empty_services_def example_limits_def in_time_def mem_services_good_def mem_good_def
      mreg_good_def registry_new_def sessions_of_def)

lemma empty_services_seen [simp]: "mem_services_seen empty_services = (\<lambda>sid. None, \<lambda>u. [])"
  by (simp add: empty_services_def example_limits_def in_time_def mem_services_seen_def mem_view_def
      mreg_view_def registry_new_def sessions_of_def fun_eq_iff)

end
