(* ===== verification/Text_Codec.thy ===== *)
theory Text_Codec
  imports Axess_Prelude
begin

section \<open>Text and byte operations of the standard library\<close>

text \<open>
  What the sources use of \<^verbatim>\<open>str\<close> and of byte slices: splitting, trimming, prefixes, comparison
  that ignores ASCII case, and the bytes of an identifier. Text is the list of its bytes, a
  \<^typ>\<open>string\<close>.
\<close>

named_theorems text_simps "equations of the text operations"

fun split_on :: "'a \<Rightarrow> 'a list \<Rightarrow> 'a list list" where
  "split_on c [] = [[]]"
| "split_on c (x # xs) =
     (if x = c then [] # split_on c xs
      else case split_on c xs of [] \<Rightarrow> [[x]] | p # ps \<Rightarrow> (x # p) # ps)"

fun split_once :: "'a \<Rightarrow> 'a list \<Rightarrow> ('a list \<times> 'a list) option" where
  "split_once c [] = None"
| "split_once c (x # xs) =
     (if x = c then Some ([], xs)
      else map_option (\<lambda>(a, b). (x # a, b)) (split_once c xs))"

definition is_whitespace :: "char \<Rightarrow> bool" where
  "is_whitespace c \<longleftrightarrow> c \<in> {CHR 0x09, CHR 0x0A, CHR 0x0B, CHR 0x0C, CHR 0x0D, CHR '' ''}"

definition trim :: "string \<Rightarrow> string" where
  "trim s = rev (dropWhile is_whitespace (rev (dropWhile is_whitespace s)))"

definition starts_with :: "'a list \<Rightarrow> 'a list \<Rightarrow> bool" where
  "starts_with p s \<longleftrightarrow> take (length p) s = p"

definition ascii_lower :: "char \<Rightarrow> char" where
  "ascii_lower c = (let n = of_char c :: nat in if 65 \<le> n \<and> n \<le> 90 then char_of (n + 32) else c)"

definition eq_ignore_ascii_case :: "string \<Rightarrow> string \<Rightarrow> bool" where
  "eq_ignore_ascii_case a b \<longleftrightarrow> map ascii_lower a = map ascii_lower b"

lemma split_on_not_Nil [simp]: "split_on c xs \<noteq> []"
  by (induction xs) (auto split: list.split)

lemma split_on_free: "c \<notin> set xs \<Longrightarrow> split_on c xs = [xs]"
  by (induction xs) auto

lemma split_once_None: "split_once c xs = None \<longleftrightarrow> c \<notin> set xs"
  by (induction xs) auto

lemma split_once_append: "c \<notin> set a \<Longrightarrow> split_once c (a @ c # b) = Some (a, b)"
  by (induction a) auto

lemma split_once_Some: "split_once c xs = Some (a, b) \<Longrightarrow> xs = a @ c # b \<and> c \<notin> set a"
  by (induction xs arbitrary: a b) (auto split: if_splits)

lemma starts_with_append [simp]: "starts_with p (p @ s)"
  by (simp add: starts_with_def)

lemma starts_with_prefix: "starts_with p s \<longleftrightarrow> prefix p s"
  by (metis append_eq_conv_conj append_take_drop_id prefixE prefixI starts_with_def)

lemma eq_ignore_ascii_case_refl [simp]: "eq_ignore_ascii_case a a"
  by (simp add: eq_ignore_ascii_case_def)

subsection \<open>The bytes of an identifier\<close>

type_synonym bytes = "char list"

text \<open>Big-endian, as the UUID type stores them.\<close>

definition id_bytes :: "uuid \<Rightarrow> bytes" where
  "id_bytes w = map (\<lambda>i. char_of (unat w div 256 ^ (15 - i))) [0..<16]"

definition id_of_bytes :: "bytes \<Rightarrow> uuid" where
  "id_of_bytes bs = of_nat (foldl (\<lambda>acc c. acc * 256 + of_char c) (0::nat) bs)"

lemma length_id_bytes [simp]: "length (id_bytes w) = 16"
  by (simp add: id_bytes_def)

lemma foldl_bytes:
  "foldl (\<lambda>acc c. acc * 256 + of_char c) (0::nat)
     (map (\<lambda>i. char_of (n div 256 ^ (k - 1 - i))) [0..<k]) = n mod 256 ^ k"
proof (induction k arbitrary: n)
  case (Suc k)
  have "map (\<lambda>i. char_of (n div 256 ^ (Suc k - 1 - i)) :: char) [0..<Suc k] =
      map (\<lambda>i. char_of ((n div 256) div 256 ^ (k - 1 - i))) [0..<k] @ [char_of n]"
    by (auto simp: div_mult2_eq [symmetric] power_Suc [symmetric] Suc_diff_Suc simp del: power_Suc)
  then show ?case
    by (simp only: foldl_append Suc.IH) (simp add: mod_mult2_eq)
qed simp

lemma id_bytes_round_trip [simp]: "id_of_bytes (id_bytes w) = w"
proof -
  have "unat w < 256 ^ 16" using unsigned_less [of w] by simp
  moreover have "foldl (\<lambda>acc c. acc * 256 + of_char c) (0::nat) (id_bytes w) = unat w mod 256 ^ 16"
    unfolding id_bytes_def using foldl_bytes [of "unat w" 16] by (simp del: upt_Suc upt_conv_Cons)
  ultimately show ?thesis by (simp add: id_of_bytes_def)
qed

lemma id_bytes_inj: "id_bytes a = id_bytes b \<Longrightarrow> a = b"
  by (metis id_bytes_round_trip)

lemma foldl_bytes_less: "foldl (\<lambda>acc c. acc * 256 + of_char c) (0::nat) bs < 256 ^ length bs"
proof (induction bs rule: rev_induct)
  case (snoc b bs)
  let ?n = "foldl (\<lambda>acc c. acc * 256 + of_char c) (0::nat) bs"
  have "n * 256 + k < (n + 1) * 256" if "k < 256" for n k :: nat using that by simp
  from this [OF nat_of_char_less_256] have "?n * 256 + of_char b < (?n + 1) * 256" .
  also have "\<dots> \<le> 256 ^ length bs * 256" using snoc.IH by (intro mult_le_mono1) simp
  finally show ?case by simp
qed simp

lemma bytes_of_foldl:
  "map (\<lambda>i. char_of (foldl (\<lambda>acc c. acc * 256 + of_char c) (0::nat) bs div 256 ^ (length bs - 1 - i)))
     [0..<length bs] = bs"
proof (induction bs rule: rev_induct)
  case (snoc b bs)
  let ?n = "foldl (\<lambda>acc c. acc * 256 + of_char c) (0::nat) bs"
  have "(?n * 256 + of_char b) mod 256 = of_char b" using nat_of_char_less_256 [of b] by simp
  then have last: "char_of (?n * 256 + of_char b) = b" by (metis char_of_mod_256 char_of_char)
  have "(?n * 256 + of_char b) div 256 ^ (length bs - i) = ?n div 256 ^ (length bs - 1 - i)"
    if "i < length bs" for i
  proof -
    have "(?n * 256 + of_char b) div 256 = ?n" using nat_of_char_less_256 [of b] by simp
    moreover have "256 ^ (length bs - i) = (256::nat) * 256 ^ (length bs - 1 - i)"
      using that by (metis Suc_diff_Suc diff_diff_left plus_1_eq_Suc power_Suc)
    ultimately show ?thesis by (metis div_mult2_eq)
  qed
  then have "map (\<lambda>i. char_of ((?n * 256 + of_char b) div 256 ^ (length bs - i)) :: char) [0..<length bs] = bs"
    by (subst (2) snoc.IH [symmetric]) (simp del: upt_Suc upt_conv_Cons)
  with last show ?case by simp
qed simp

lemma id_bytes_of_bytes: "length bs = 16 \<Longrightarrow> id_bytes (id_of_bytes bs) = bs"
  using foldl_bytes_less [of bs] bytes_of_foldl [of bs]
  by (simp add: id_bytes_def id_of_bytes_def unat_of_nat del: upt_Suc upt_conv_Cons)

subsection \<open>Random bytes\<close>

text \<open>The random source: what the \<open>n\<close>th request for bytes is filled with.\<close>

record byte_rng =
  fills :: "nat \<Rightarrow> nat \<Rightarrow> bytes"
  asked :: nat

definition fill_bytes :: "nat \<Rightarrow> byte_rng \<Rightarrow> bytes \<times> byte_rng" where
  "fill_bytes n r = (fills r (asked r) n, r\<lparr>asked := Suc (asked r)\<rparr>)"

end
