(* ===== verification/Session_Cookie.thy ===== *)
theory Session_Cookie
  imports Text_Codec
begin

section \<open>The session cookie: configuration, parsing and signing\<close>

text \<open>
  \<^verbatim>\<open>session/config.rs\<close>, \<^verbatim>\<open>session/cookies.rs\<close>, \<^verbatim>\<open>session/layer/signing.rs\<close> and the
  response headers of \<^verbatim>\<open>session/layer/lifecycle.rs\<close>. The HMAC, the base64 codec, the decoding
  of header values to text and the rendering of a cookie come from other packages and are
  parameters.
\<close>

subsection \<open>Configuration\<close>

datatype same_site = SameSiteStrict | SameSiteLax | SameSiteNone

record session_config =
  cfg_ttl :: duration
  cookie_name :: string
  cookie_name_explicit :: bool
  cfg_secure :: bool
  cfg_same_site :: same_site
  cfg_http_only :: bool
  cfg_path :: string
  cfg_max_custom_bytes :: nat
  max_authenticated_age :: "duration option"
  max_impersonation_age :: "duration option"

abbreviation DEFAULT_COOKIE_NAME :: string where
  "DEFAULT_COOKIE_NAME \<equiv> ''__Host-axess.sid''"

abbreviation FALLBACK_COOKIE_NAME :: string where
  "FALLBACK_COOKIE_NAME \<equiv> ''axess.sid''"

abbreviation seconds :: "nat \<Rightarrow> duration" where
  "seconds n \<equiv> n * 1000000000"

definition session_config_default :: session_config where
  "session_config_default =
     \<lparr>cfg_ttl = seconds (24 * 60 * 60), cookie_name = DEFAULT_COOKIE_NAME,
      cookie_name_explicit = False, cfg_secure = True, cfg_same_site = SameSiteLax,
      cfg_http_only = True, cfg_path = ''/'', cfg_max_custom_bytes = 64 * 1024,
      max_authenticated_age = Some (seconds (7 * 24 * 60 * 60)),
      max_impersonation_age = Some (seconds (60 * 60))\<rparr>"

text \<open>The assertions of \<^verbatim>\<open>validate\<close>, in the order in which they are made.\<close>

datatype config_panic =
    TtlZero | CookieNameEmpty | CookieNameInvalid | PrefixNeedsSecure | HostPrefixNeedsRootPath
  | PathInvalid | AuthenticatedAgeZero | ImpersonationAgeZero | SameSiteNoneNeedsSecure

definition is_cookie_token_byte :: "char \<Rightarrow> bool" where
  "is_cookie_token_byte b \<longleftrightarrow>
     (let n = of_char b :: nat in
      48 \<le> n \<and> n \<le> 57 \<or> 65 \<le> n \<and> n \<le> 90 \<or> 97 \<le> n \<and> n \<le> 122) \<or>
     b \<in> set ''!#$%&'' \<or> b = CHR 0x27 \<or> b \<in> set ''*+-.^_|~'' \<or> b = CHR 0x60"

definition is_valid_cookie_path :: "string \<Rightarrow> bool" where
  "is_valid_cookie_path path \<longleftrightarrow> starts_with ''/'' path \<and>
     list_all (\<lambda>b. let n = of_char b :: nat in 32 \<le> n \<and> n < 127 \<and> b \<noteq> CHR '';'') path"

definition validate :: "session_config \<Rightarrow> config_panic + unit" where
  "validate cfg =
     (if cfg_ttl cfg = 0 then Inl TtlZero
      else if cookie_name cfg = [] then Inl CookieNameEmpty
      else if \<not> list_all is_cookie_token_byte (cookie_name cfg) then Inl CookieNameInvalid
      else if starts_with ''__Host-'' (cookie_name cfg) \<and> \<not> cfg_secure cfg then Inl PrefixNeedsSecure
      else if starts_with ''__Host-'' (cookie_name cfg) \<and> cfg_path cfg \<noteq> ''/''
        then Inl HostPrefixNeedsRootPath
      else if \<not> starts_with ''__Host-'' (cookie_name cfg) \<and>
          starts_with ''__Secure-'' (cookie_name cfg) \<and> \<not> cfg_secure cfg then Inl PrefixNeedsSecure
      else if \<not> is_valid_cookie_path (cfg_path cfg) then Inl PathInvalid
      else if max_authenticated_age cfg = Some 0 then Inl AuthenticatedAgeZero
      else if max_impersonation_age cfg = Some 0 then Inl ImpersonationAgeZero
      else if cfg_same_site cfg = SameSiteNone \<and> \<not> cfg_secure cfg then Inl SameSiteNoneNeedsSecure
      else Inr ())"

definition finalize_config :: "session_config \<Rightarrow> config_panic + session_config" where
  "finalize_config cfg =
     (let cfg' = (if cookie_name_explicit cfg then cfg
                  else cfg\<lparr>cookie_name := (if cfg_secure cfg \<and> cfg_path cfg = ''/''
                                           then DEFAULT_COOKIE_NAME else FALLBACK_COOKIE_NAME)\<rparr>)
      in case validate cfg' of Inl p \<Rightarrow> Inl p | Inr _ \<Rightarrow> Inr cfg')"

lemma validate_ok:
  "validate cfg = Inr () \<longleftrightarrow> 0 < cfg_ttl cfg \<and> cookie_name cfg \<noteq> [] \<and>
     list_all is_cookie_token_byte (cookie_name cfg) \<and>
     (starts_with ''__Host-'' (cookie_name cfg) \<longrightarrow> cfg_secure cfg \<and> cfg_path cfg = ''/'') \<and>
     (starts_with ''__Secure-'' (cookie_name cfg) \<longrightarrow> cfg_secure cfg) \<and>
     is_valid_cookie_path (cfg_path cfg) \<and> max_authenticated_age cfg \<noteq> Some 0 \<and>
     max_impersonation_age cfg \<noteq> Some 0 \<and> (cfg_same_site cfg = SameSiteNone \<longrightarrow> cfg_secure cfg)"
  by (auto simp: validate_def)

lemma valid_cookie_path_no_semicolon: "is_valid_cookie_path p \<Longrightarrow> CHR '';'' \<notin> set p"
  by (auto simp: is_valid_cookie_path_def list_all_iff Let_def)

lemma finalize_config_Inr:
  assumes "finalize_config cfg = Inr cfg'"
  shows "validate cfg' = Inr ()" "\<exists>n. cfg' = cfg\<lparr>cookie_name := n\<rparr>"
proof -
  define name where "name = (if cfg_secure cfg \<and> cfg_path cfg = ''/''
    then DEFAULT_COOKIE_NAME else FALLBACK_COOKIE_NAME)"
  define named where "named = (if cookie_name_explicit cfg then cfg else cfg\<lparr>cookie_name := name\<rparr>)"
  have named: "\<exists>n. named = cfg\<lparr>cookie_name := n\<rparr>"
    by (rule exI [of _ "if cookie_name_explicit cfg then cookie_name cfg else name"]) (simp add: named_def)
  have "finalize_config cfg = (case validate named of Inl p \<Rightarrow> Inl p | Inr _ \<Rightarrow> Inr named)"
    unfolding finalize_config_def Let_def named_def name_def ..
  with assms have *: "cfg' = named" "validate named = Inr ()"
    by (simp_all split: sum.splits)
  show "validate cfg' = Inr ()" unfolding *(1) by (rule *(2))
  show "\<exists>n. cfg' = cfg\<lparr>cookie_name := n\<rparr>" unfolding *(1) by (rule named)
qed

subsubsection \<open>The builder\<close>

definition with_ttl :: "duration \<Rightarrow> session_config \<Rightarrow> session_config" where
  "with_ttl t cfg = cfg\<lparr>cfg_ttl := t\<rparr>"

definition with_cookie_name :: "string \<Rightarrow> session_config \<Rightarrow> session_config" where
  "with_cookie_name n cfg = cfg\<lparr>cookie_name := n, cookie_name_explicit := True\<rparr>"

definition with_secure :: "bool \<Rightarrow> session_config \<Rightarrow> session_config" where
  "with_secure b cfg = cfg\<lparr>cfg_secure := b\<rparr>"

definition with_same_site :: "same_site \<Rightarrow> session_config \<Rightarrow> session_config" where
  "with_same_site s cfg = cfg\<lparr>cfg_same_site := s\<rparr>"

definition with_http_only :: "bool \<Rightarrow> session_config \<Rightarrow> session_config" where
  "with_http_only b cfg = cfg\<lparr>cfg_http_only := b\<rparr>"

definition with_path :: "string \<Rightarrow> session_config \<Rightarrow> session_config" where
  "with_path p cfg = cfg\<lparr>cfg_path := p\<rparr>"

definition with_max_custom_bytes :: "nat \<Rightarrow> session_config \<Rightarrow> session_config" where
  "with_max_custom_bytes n cfg = cfg\<lparr>cfg_max_custom_bytes := n\<rparr>"

definition with_max_authenticated_age :: "duration option \<Rightarrow> session_config \<Rightarrow> session_config" where
  "with_max_authenticated_age a cfg = cfg\<lparr>max_authenticated_age := a\<rparr>"

definition with_max_impersonation_age :: "duration option \<Rightarrow> session_config \<Rightarrow> session_config" where
  "with_max_impersonation_age a cfg = cfg\<lparr>max_impersonation_age := a\<rparr>"

subsection \<open>Headers\<close>

text \<open>
  A header map: names in lower case, the values of one name in order. \<^verbatim>\<open>to_str\<close> of a value is
  a parameter of the readers.
\<close>

type_synonym header_map = "(string \<times> string) list"
type_synonym to_str = "string \<Rightarrow> string option"

definition get_all :: "string \<Rightarrow> header_map \<Rightarrow> string list" where
  "get_all n h = map snd (filter (\<lambda>(k, _). k = n) h)"

definition hm_insert :: "string \<Rightarrow> string \<Rightarrow> header_map \<Rightarrow> header_map" where
  "hm_insert n v h = filter (\<lambda>(k, _). k \<noteq> n) h @ [(n, v)]"

definition hm_append :: "string \<Rightarrow> string \<Rightarrow> header_map \<Rightarrow> header_map" where
  "hm_append n v h = h @ [(n, v)]"

lemma get_all_insert [simp]:
  "get_all n (hm_insert m v h) = (if n = m then [v] else get_all n h)"
  by (auto simp: get_all_def hm_insert_def filter_empty_conv intro!: arg_cong [where f = "map snd"] filter_cong)

lemma get_all_append [simp]:
  "get_all n (hm_append m v h) = (if n = m then get_all n h @ [v] else get_all n h)"
  by (simp add: get_all_def hm_append_def)

subsection \<open>Reading a cookie\<close>

abbreviation MAX_COOKIE_VALUE_BYTES :: nat where
  "MAX_COOKIE_VALUE_BYTES \<equiv> 4096"

definition cookie_pair :: "string \<Rightarrow> (string \<times> string) option" where
  "cookie_pair pair =
     (case split_once (CHR ''='') (trim pair) of
        None \<Rightarrow> None
      | Some (n, v) \<Rightarrow> Some (trim n, trim v))"

text \<open>
  The inner loop over the pairs of one header field: \<open>None\<close> is the early return for a name that
  occurs with different values.
\<close>

fun scan_pairs ::
  "string \<Rightarrow> nat \<Rightarrow> string list \<Rightarrow> string option \<Rightarrow> string option option" where
  "scan_pairs name cap [] found = Some found"
| "scan_pairs name cap (p # ps) found =
     (case cookie_pair p of
        None \<Rightarrow> scan_pairs name cap ps found
      | Some (pair_name, v) \<Rightarrow>
          if pair_name \<noteq> name then scan_pairs name cap ps found
          else if cap < length v then scan_pairs name cap ps found
          else case found of
                 None \<Rightarrow> scan_pairs name cap ps (Some v)
               | Some first \<Rightarrow> if first = v then scan_pairs name cap ps found else None)"

fun scan_fields ::
  "to_str \<Rightarrow> string \<Rightarrow> nat \<Rightarrow> string list \<Rightarrow> string option \<Rightarrow> string option option" where
  "scan_fields to_str name cap [] found = Some found"
| "scan_fields to_str name cap (f # fs) found =
     (case to_str f of
        None \<Rightarrow> scan_fields to_str name cap fs found
      | Some raw \<Rightarrow>
          (case scan_pairs name cap (split_on (CHR '';'') raw) found of
             None \<Rightarrow> None
           | Some found' \<Rightarrow> scan_fields to_str name cap fs found'))"

definition extract_named_cookie :: "to_str \<Rightarrow> header_map \<Rightarrow> string \<Rightarrow> nat \<Rightarrow> string option" where
  "extract_named_cookie to_str headers name cap =
     (case scan_fields to_str name cap (get_all ''cookie'' headers) None of
        None \<Rightarrow> None
      | Some found \<Rightarrow> found)"

text \<open>The values of the name that are within the cap, wherever they occur.\<close>

definition pair_values :: "string \<Rightarrow> nat \<Rightarrow> string list \<Rightarrow> string list" where
  "pair_values name cap ps =
     map snd (filter (\<lambda>(n, v). n = name \<and> length v \<le> cap) (List.map_filter cookie_pair ps))"

definition cookie_values :: "to_str \<Rightarrow> header_map \<Rightarrow> string \<Rightarrow> nat \<Rightarrow> string list" where
  "cookie_values to_str headers name cap =
     pair_values name cap
       (concat (map (split_on (CHR '';'')) (List.map_filter to_str (get_all ''cookie'' headers))))"

lemma pair_values_simps [simp]:
  "pair_values name cap [] = []"
  "pair_values name cap (p # ps) =
     (case cookie_pair p of
        Some (n, v) \<Rightarrow> if n = name \<and> length v \<le> cap then v # pair_values name cap ps
                     else pair_values name cap ps
      | None \<Rightarrow> pair_values name cap ps)"
  "pair_values name cap (ps @ qs) = pair_values name cap ps @ pair_values name cap qs"
  by (auto simp: pair_values_def map_filter_def split: option.split)

text \<open>A scan as a fold: what is found after the values \<open>vs\<close>.\<close>

fun agree :: "string list \<Rightarrow> string option \<Rightarrow> string option option" where
  "agree [] found = Some found"
| "agree (v # vs) None = agree vs (Some v)"
| "agree (v # vs) (Some first) = (if first = v then agree vs (Some first) else None)"

lemma agree_append: "agree (vs @ ws) found = Option.bind (agree vs found) (agree ws)"
  by (induction vs found rule: agree.induct) auto

lemma agree_Some: "agree vs (Some first) = (if set vs \<subseteq> {first} then Some (Some first) else None)"
  by (induction vs) (auto split: if_splits)

lemma scan_pairs_agree: "scan_pairs name cap ps found = agree (pair_values name cap ps) found"
proof (induction ps arbitrary: found)
  case (Cons p ps)
  show ?case
    by (cases "cookie_pair p"; cases found) (auto simp: Cons.IH)
qed simp

lemma scan_fields_agree:
  "scan_fields to_str name cap fs found =
     agree (pair_values name cap (concat (map (split_on (CHR '';'')) (List.map_filter to_str fs)))) found"
  by (induction fs arbitrary: found)
    (auto simp: map_filter_def scan_pairs_agree agree_append split: option.split)

lemma extract_agree:
  "extract_named_cookie to_str headers name cap =
     (case agree (cookie_values to_str headers name cap) None of None \<Rightarrow> None | Some found \<Rightarrow> found)"
  by (simp add: extract_named_cookie_def scan_fields_agree cookie_values_def)

lemma extract_eq:
  "extract_named_cookie to_str headers name cap = Some v \<longleftrightarrow>
     set (cookie_values to_str headers name cap) = {v}"
proof (cases "cookie_values to_str headers name cap")
  case (Cons a vs)
  then show ?thesis by (auto simp: extract_agree agree_Some)
qed (simp add: extract_agree)

subsection \<open>Signing\<close>

text \<open>
  The keyed hash and the base64 codec. What the code relies on: a tag is 32 bytes, decoding
  inverts encoding, an encoded value has only characters of the URL-safe alphabet and is less
  than twice as long as what it encodes (four characters for three bytes, rounded up).
\<close>

type_synonym key = bytes

record crypto =
  hmac :: "key \<Rightarrow> bytes \<Rightarrow> bytes"
  b64_encode :: "bytes \<Rightarrow> string"
  b64_decode :: "string \<Rightarrow> bytes option"

definition is_url_safe :: "char \<Rightarrow> bool" where
  "is_url_safe b \<longleftrightarrow>
     (let n = of_char b :: nat in
      48 \<le> n \<and> n \<le> 57 \<or> 65 \<le> n \<and> n \<le> 90 \<or> 97 \<le> n \<and> n \<le> 122) \<or> b = CHR ''-'' \<or> b = CHR ''_''"

definition crypto_laws :: "crypto \<Rightarrow> bool" where
  "crypto_laws c \<longleftrightarrow> (\<forall>k m. length (hmac c k m) = 32) \<and>
     (\<forall>b. b64_decode c (b64_encode c b) = Some b) \<and>
     (\<forall>b. list_all is_url_safe (b64_encode c b)) \<and>
     (\<forall>b. length (b64_encode c b) \<le> 2 * length b)"

definition hkdf_expand_subkey :: "crypto \<Rightarrow> key \<Rightarrow> bytes \<Rightarrow> key" where
  "hkdf_expand_subkey c prk info = hmac c prk (info @ [CHR 0x01])"

abbreviation HKDF_INFO_COOKIE :: bytes where
  "HKDF_INFO_COOKIE \<equiv> ''axess.v1.session.cookie.hmac''"

abbreviation HKDF_INFO_FINGERPRINT :: bytes where
  "HKDF_INFO_FINGERPRINT \<equiv> ''axess.v1.session.fingerprint.hmac''"

abbreviation RESERVED_LABEL_PREFIX :: bytes where
  "RESERVED_LABEL_PREFIX \<equiv> ''axess.v1.reserved-label.''"

record signing_keys =
  master :: key
  cookie_key :: key
  fingerprint_key :: key

definition signing_keys_from_master :: "crypto \<Rightarrow> key \<Rightarrow> signing_keys" where
  "signing_keys_from_master c m =
     \<lparr>master = m, cookie_key = hkdf_expand_subkey c m HKDF_INFO_COOKIE,
      fingerprint_key = hkdf_expand_subkey c m HKDF_INFO_FINGERPRINT\<rparr>"

record signing_key_ring =
  current_keys :: signing_keys
  previous_keys :: "signing_keys option"

definition ring_from_master :: "crypto \<Rightarrow> key \<Rightarrow> signing_key_ring" where
  "ring_from_master c m = \<lparr>current_keys = signing_keys_from_master c m, previous_keys = None\<rparr>"

definition set_previous :: "crypto \<Rightarrow> key \<Rightarrow> signing_key_ring \<Rightarrow> signing_key_ring" where
  "set_previous c m ring = ring\<lparr>previous_keys := Some (signing_keys_from_master c m)\<rparr>"

definition clear_previous :: "signing_key_ring \<Rightarrow> signing_key_ring" where
  "clear_previous ring = ring\<lparr>previous_keys := None\<rparr>"

definition has_previous :: "signing_key_ring \<Rightarrow> bool" where
  "has_previous ring \<longleftrightarrow> previous_keys ring \<noteq> None"

definition hmac_bytes :: "crypto \<Rightarrow> bytes \<Rightarrow> key \<Rightarrow> bytes" where
  "hmac_bytes c b k = hmac c k b"

definition sign_bytes :: "crypto \<Rightarrow> bytes \<Rightarrow> key \<Rightarrow> string" where
  "sign_bytes c b k = b64_encode c (hmac_bytes c b k)"

definition sign_cookie :: "crypto \<Rightarrow> signing_key_ring \<Rightarrow> session_id \<Rightarrow> string" where
  "sign_cookie c ring sid =
     b64_encode c (id_bytes sid) @ ''.'' @ sign_bytes c (id_bytes sid) (cookie_key (current_keys ring))"

record verified_session_id =
  verified_id :: session_id
  verified_by_previous :: bool

definition decode_cookie_with_key :: "crypto \<Rightarrow> string \<Rightarrow> key \<Rightarrow> session_id option" where
  "decode_cookie_with_key c v k =
     (case split_once (CHR ''.'') v of
        None \<Rightarrow> None
      | Some (id_enc, mac_enc) \<Rightarrow>
          (case b64_decode c id_enc of
             None \<Rightarrow> None
           | Some b \<Rightarrow>
               if length b \<noteq> 16 then None
               else case b64_decode c mac_enc of
                      None \<Rightarrow> None
                    | Some mac \<Rightarrow>
                        (let expected = hmac_bytes c b k in
                         if length mac \<noteq> length expected then None
                         else if mac = expected then Some (id_of_bytes b) else None)))"

definition decode_cookie :: "crypto \<Rightarrow> signing_key_ring \<Rightarrow> string \<Rightarrow> verified_session_id option" where
  "decode_cookie c ring v =
     (case decode_cookie_with_key c v (cookie_key (current_keys ring)) of
        Some sid \<Rightarrow> Some \<lparr>verified_id = sid, verified_by_previous = False\<rparr>
      | None \<Rightarrow>
          (case previous_keys ring of
             None \<Rightarrow> None
           | Some previous \<Rightarrow>
               (case decode_cookie_with_key c v (cookie_key previous) of
                  Some sid \<Rightarrow> Some \<lparr>verified_id = sid, verified_by_previous = True\<rparr>
                | None \<Rightarrow> None)))"

definition compute_binding_fingerprints ::
  "crypto \<Rightarrow> signing_key_ring \<Rightarrow> bytes \<Rightarrow> string \<times> string option" where
  "compute_binding_fingerprints c ring material =
     (sign_bytes c material (fingerprint_key (current_keys ring)),
      map_option (\<lambda>k. sign_bytes c material (fingerprint_key k)) (previous_keys ring))"

text \<open>The label a sub-key is derived under; \<open>None\<close> is the panic on a reserved one.\<close>

definition subkey_label :: "bytes \<Rightarrow> bytes option" where
  "subkey_label info =
     (if starts_with RESERVED_LABEL_PREFIX info then None
      else if info = HKDF_INFO_COOKIE \<or> info = HKDF_INFO_FINGERPRINT
        then Some (RESERVED_LABEL_PREFIX @ info)
      else Some info)"

definition derive_subkey :: "crypto \<Rightarrow> signing_key_ring \<Rightarrow> bytes \<Rightarrow> key option" where
  "derive_subkey c ring info =
     map_option (hkdf_expand_subkey c (master (current_keys ring))) (subkey_label info)"

subsubsection \<open>Facts on signing\<close>

lemma is_url_safe_not [simp]:
  "\<not> is_url_safe (CHR ''.'')" "\<not> is_url_safe (CHR '';'')" "\<not> is_url_safe (CHR ''='')"
  "is_whitespace b \<Longrightarrow> \<not> is_url_safe b"
  by (auto simp: is_url_safe_def is_whitespace_def Let_def)

lemma url_safe_free: "list_all is_url_safe s \<Longrightarrow> \<not> is_url_safe x \<Longrightarrow> x \<notin> set s"
  by (auto simp: list_all_iff)

lemma decode_own:
  assumes "crypto_laws c"
  shows "decode_cookie_with_key c (b64_encode c (id_bytes sid) @ ''.'' @ sign_bytes c (id_bytes sid) k) k' =
    (if hmac c k (id_bytes sid) = hmac c k' (id_bytes sid) then Some sid else None)"
proof -
  have "CHR ''.'' \<notin> set (b64_encode c (id_bytes sid))"
    using assms by (intro url_safe_free) (simp_all add: crypto_laws_def)
  with assms show ?thesis
    by (simp add: crypto_laws_def decode_cookie_with_key_def split_once_append sign_bytes_def
        hmac_bytes_def Let_def)
qed

text \<open>The signed value survives the trip through a \<^verbatim>\<open>Cookie\<close> header.\<close>

lemma trim_clean:
  "s \<noteq> [] \<Longrightarrow> \<not> is_whitespace (hd s) \<Longrightarrow> \<not> is_whitespace (last s) \<Longrightarrow> trim s = s"
proof -
  assume s: "s \<noteq> []" "\<not> is_whitespace (hd s)" "\<not> is_whitespace (last s)"
  then have "dropWhile is_whitespace s = s" by (cases s) simp_all
  moreover from s have "dropWhile is_whitespace (rev s) = rev s" by (cases s rule: rev_cases) simp_all
  ultimately show ?thesis by (simp add: trim_def)
qed

lemma token_byte_not [simp]:
  "\<not> is_cookie_token_byte (CHR '';'')" "\<not> is_cookie_token_byte (CHR ''='')"
  "is_whitespace b \<Longrightarrow> \<not> is_cookie_token_byte b"
  by (auto simp: is_cookie_token_byte_def is_whitespace_def Let_def)

lemma signed_cookie_shape:
  assumes "crypto_laws c"
  shows "\<forall>x \<in> set (sign_cookie c ring sid). is_url_safe x \<or> x = CHR ''.''"
    "length (sign_cookie c ring sid) \<le> 97" "sign_cookie c ring sid \<noteq> []"
proof -
  from assms have enc: "list_all is_url_safe (b64_encode c b)" "length (b64_encode c b) \<le> 2 * length b"
    and tag: "length (hmac c k b) = 32" for k b
    by (simp_all add: crypto_laws_def)
  show "\<forall>x \<in> set (sign_cookie c ring sid). is_url_safe x \<or> x = CHR ''.''"
    using enc(1) by (auto simp: sign_cookie_def sign_bytes_def list_all_iff)
  have id_len: "length (b64_encode c (id_bytes sid)) \<le> 32" using enc(2) [of "id_bytes sid"] by simp
  have tag_len: "length (sign_bytes c (id_bytes sid) k) \<le> 64" for k
    using enc(2) [of "hmac_bytes c (id_bytes sid) k"] tag by (simp add: sign_bytes_def hmac_bytes_def)
  have "a \<le> 32 \<Longrightarrow> b \<le> 64 \<Longrightarrow> a + Suc b \<le> 97" for a b :: nat by simp
  from this [OF id_len tag_len] show "length (sign_cookie c ring sid) \<le> 97"
    by (simp add: sign_cookie_def)
  show "sign_cookie c ring sid \<noteq> []" by (simp add: sign_cookie_def)
qed

lemma extract_signed:
  assumes "crypto_laws c" "list_all is_cookie_token_byte name" "name \<noteq> []"
    and "to_str (name @ ''='' @ sign_cookie c ring sid) = Some (name @ ''='' @ sign_cookie c ring sid)"
  shows "extract_named_cookie to_str [(''cookie'', name @ ''='' @ sign_cookie c ring sid)] name
    MAX_COOKIE_VALUE_BYTES = Some (sign_cookie c ring sid)"
proof -
  let ?v = "sign_cookie c ring sid"
  note shape = signed_cookie_shape [OF assms(1), of ring sid]
  have clean: "x \<in> set ?v \<Longrightarrow> \<not> is_whitespace x \<and> x \<noteq> CHR '';''" for x
    using shape(1) by (auto simp: is_whitespace_def is_url_safe_def Let_def)
  have name: "x \<in> set name \<Longrightarrow> \<not> is_whitespace x \<and> x \<noteq> CHR '';'' \<and> x \<noteq> CHR ''=''" for x
    using assms(2) by (auto simp: list_all_iff)
  have "trim ?v = ?v" "trim name = name"
    using shape(3) assms(3) clean name by (auto intro!: trim_clean)
  moreover have "trim (name @ CHR ''='' # ?v) = name @ CHR ''='' # ?v"
    using shape(3) assms(3) clean name by (intro trim_clean) (auto simp: hd_append)
  moreover have "CHR '';'' \<notin> set (name @ CHR ''='' # ?v)" using clean name by auto
  moreover have "CHR ''='' \<notin> set name" using name by blast
  note split = split_once_append [OF this, of ?v]
  ultimately have "cookie_values to_str [(''cookie'', name @ ''='' @ ?v)] name MAX_COOKIE_VALUE_BYTES = [?v]"
    using shape(2) split assms(4)
    by (simp add: cookie_values_def get_all_def map_filter_def split_on_free cookie_pair_def)
  then show ?thesis by (simp add: extract_eq)
qed

lemma decode_with_key_Some:
  assumes "decode_cookie_with_key c v k = Some sid"
  obtains id_enc mac_enc where "v = id_enc @ ''.'' @ mac_enc" "b64_decode c id_enc = Some (id_bytes sid)"
    "b64_decode c mac_enc = Some (hmac c k (id_bytes sid))"
proof -
  from assms obtain id_enc mac_enc b where "split_once (CHR ''.'') v = Some (id_enc, mac_enc)"
    "b64_decode c id_enc = Some b" "length b = 16" "b64_decode c mac_enc = Some (hmac c k b)"
    "sid = id_of_bytes b"
    by (auto simp: decode_cookie_with_key_def hmac_bytes_def Let_def split: option.splits if_splits)
  then show ?thesis using that [of id_enc mac_enc] by (auto simp: id_bytes_of_bytes dest: split_once_Some)
qed

lemma subkey_label_Some:
  assumes "subkey_label a = Some x"
  obtains (plain) "x = a" "\<not> starts_with RESERVED_LABEL_PREFIX a" "a \<noteq> HKDF_INFO_COOKIE"
      "a \<noteq> HKDF_INFO_FINGERPRINT"
  | (remapped) "x = RESERVED_LABEL_PREFIX @ a" "\<not> starts_with RESERVED_LABEL_PREFIX a"
  using assms unfolding subkey_label_def by (metis option.inject option.distinct(1))

subsection \<open>The response headers\<close>

definition lists_directive :: "to_str \<Rightarrow> (string \<Rightarrow> bool) \<Rightarrow> string list \<Rightarrow> bool" where
  "lists_directive to_str P vs \<longleftrightarrow>
     list_ex (\<lambda>v. case to_str v of
                    None \<Rightarrow> False
                  | Some s \<Rightarrow> list_ex (\<lambda>d. P (trim d)) (split_on (CHR '','') s)) vs"

definition keeps_out_of_caches :: "string \<Rightarrow> bool" where
  "keeps_out_of_caches directive \<longleftrightarrow>
     (let name = trim (hd (split_on (CHR ''='') directive)) in
      eq_ignore_ascii_case name ''no-store'' \<or> eq_ignore_ascii_case name ''private'')"

definition names_cookie :: "string \<Rightarrow> bool" where
  "names_cookie t \<longleftrightarrow> t = ''*'' \<or> eq_ignore_ascii_case t ''cookie''"

definition mark_cookie_response :: "to_str \<Rightarrow> header_map \<Rightarrow> header_map" where
  "mark_cookie_response to_str h =
     (let h1 = (if lists_directive to_str keeps_out_of_caches (get_all ''cache-control'' h) then h
                else hm_insert ''cache-control'' ''no-store'' h)
      in if lists_directive to_str names_cookie (get_all ''vary'' h1) then h1
         else hm_append ''vary'' ''Cookie'' h1)"

record set_cookie =
  sc_name :: string
  sc_value :: string
  sc_http_only :: bool
  sc_secure :: bool
  sc_same_site :: same_site
  sc_path :: string
  sc_max_age :: int

definition set_cookie_of :: "crypto \<Rightarrow> signing_key_ring \<Rightarrow> session_config \<Rightarrow> session_id \<Rightarrow> set_cookie" where
  "set_cookie_of c ring cfg sid =
     \<lparr>sc_name = cookie_name cfg, sc_value = sign_cookie c ring sid, sc_http_only = cfg_http_only cfg,
      sc_secure = cfg_secure cfg, sc_same_site = cfg_same_site cfg, sc_path = cfg_path cfg,
      sc_max_age = int (min (cfg_ttl cfg div 1000000000) (2 ^ 63 - 1))\<rparr>"

text \<open>The rendering of the cookie to a header value, or its refusal, is a parameter.\<close>

definition build_set_cookie ::
  "(set_cookie \<Rightarrow> string option) \<Rightarrow> crypto \<Rightarrow> signing_key_ring \<Rightarrow> session_config \<Rightarrow> session_id \<Rightarrow>
     string option" where
  "build_set_cookie render c ring cfg sid = render (set_cookie_of c ring cfg sid)"

lemma get_all_mark:
  "get_all ''cache-control'' (mark_cookie_response to_str h) =
     (if lists_directive to_str keeps_out_of_caches (get_all ''cache-control'' h)
      then get_all ''cache-control'' h else [''no-store''])"
  "get_all ''vary'' (mark_cookie_response to_str h) =
     (if lists_directive to_str names_cookie (get_all ''vary'' h)
      then get_all ''vary'' h else get_all ''vary'' h @ [''Cookie''])"
  "n \<noteq> ''cache-control'' \<Longrightarrow> n \<noteq> ''vary'' \<Longrightarrow> get_all n (mark_cookie_response to_str h) = get_all n h"
  by (simp_all add: mark_cookie_response_def Let_def)

lemma marking_directives:
  "to_str ''no-store'' = Some ''no-store'' \<Longrightarrow> lists_directive to_str keeps_out_of_caches [''no-store'']"
  "to_str ''Cookie'' = Some ''Cookie'' \<Longrightarrow> lists_directive to_str names_cookie (vs @ [''Cookie''])"
proof -
  have "keeps_out_of_caches (trim ''no-store'')" by code_simp
  then show "to_str ''no-store'' = Some ''no-store'' \<Longrightarrow>
      lists_directive to_str keeps_out_of_caches [''no-store'']"
    by (simp add: lists_directive_def)
  have "names_cookie (trim ''Cookie'')" by code_simp
  then show "to_str ''Cookie'' = Some ''Cookie'' \<Longrightarrow>
      lists_directive to_str names_cookie (vs @ [''Cookie''])"
    by (simp add: lists_directive_def)
qed

subsection \<open>Properties\<close>

text \<open>
  C22. A cookie is read only when its name occurs with exactly one value within the cap: the value
  found is that of every pair of that name in any of the \<^verbatim>\<open>Cookie\<close> fields, whatever pairs are
  malformed, oversized or unreadable. Two different values, as a sibling host can plant, give no
  cookie, whichever comes first.
\<close>

theorem cookie_needs_one_value:
  "(extract_named_cookie to_str headers name cap = Some v) =
     (set (cookie_values to_str headers name cap) = {v})"
  by (rule extract_eq)

text \<open>
  A concrete codec and keyed hash that satisfy the laws, for the examples below.
\<close>

definition hex_digits :: "char \<Rightarrow> string" where
  "hex_digits x = (let n = of_char x :: nat in [char_of (97 + n div 16), char_of (97 + n mod 16)])"

fun hex_decode :: "string \<Rightarrow> bytes option" where
  "hex_decode [] = Some []"
| "hex_decode [x] = None"
| "hex_decode (x # y # r) =
     map_option (Cons (char_of ((of_char x - 97 :: nat) * 16 + (of_char y - 97)))) (hex_decode r)"

definition example_crypto :: crypto where
  "example_crypto =
     \<lparr>hmac = (\<lambda>k m. take 32 (k @ m @ replicate 32 (CHR 0x00))),
      b64_encode = (\<lambda>b. concat (map hex_digits b)), b64_decode = hex_decode\<rparr>"

lemma hex_digit:
  fixes n :: nat
  assumes "n < 16"
  shows "of_char (char_of (97 + n) :: char) = 97 + n" "is_url_safe (char_of (97 + n))"
  using assms by (simp_all add: is_url_safe_def Let_def)

lemma hex_digits_range: "(of_char x :: nat) div 16 < 16" "(of_char x :: nat) mod 16 < 16"
  using nat_of_char_less_256 [of x] by (simp_all add: less_mult_imp_div_less)

lemma hex_round_trip: "hex_decode (concat (map hex_digits b)) = Some b"
proof (induction b)
  case (Cons x b)
  then show ?case
    using hex_digit(1) [OF hex_digits_range(1) [of x]] hex_digit(1) [OF hex_digits_range(2) [of x]]
    by (simp add: hex_digits_def Let_def)
qed simp

lemma example_crypto_laws: "crypto_laws example_crypto"
proof -
  have "list_all is_url_safe (hex_digits x)" "length (hex_digits x) = 2" for x
    using hex_digits_range by (simp_all add: hex_digits_def hex_digit Let_def)
  then have "list_all is_url_safe (concat (map hex_digits b))" "length (concat (map hex_digits b)) = 2 * length b"
    for b by (induction b) simp_all
  moreover have "length (take 32 (k @ m @ replicate 32 (CHR 0x00))) = 32" for k m :: string
    by (simp del: take_append)
  ultimately show ?thesis
    by (simp add: crypto_laws_def example_crypto_def hex_round_trip del: take_append length_take)
qed

text \<open>
  C23. A cookie keeps its meaning across one rotation of the signing key. A ring reads back the
  cookie it signed; a ring whose previous key signed the cookie reads the same session id, and
  reports the previous key unless both keys give the same tag; once the previous key is cleared,
  the cookie is refused unless both keys give the same tag.
\<close>

theorem cookie_verifies_across_rotation:
  assumes "crypto_laws c"
  shows "decode_cookie c (ring_from_master c new) (sign_cookie c (ring_from_master c new) sid) =
      Some \<lparr>verified_id = sid, verified_by_previous = False\<rparr> \<and>
    (let tag = (\<lambda>m. hmac c (hkdf_expand_subkey c m HKDF_INFO_COOKIE) (id_bytes sid));
         rotated = set_previous c old (ring_from_master c new);
         v = sign_cookie c (ring_from_master c old) sid
     in decode_cookie c rotated v =
          Some \<lparr>verified_id = sid, verified_by_previous = (tag old \<noteq> tag new)\<rparr> \<and>
        decode_cookie c (clear_previous rotated) v =
          (if tag old = tag new then Some \<lparr>verified_id = sid, verified_by_previous = False\<rparr> else None))"
  unfolding Let_def
  by (simp add: decode_cookie_def sign_cookie_def ring_from_master_def set_previous_def
      clear_previous_def signing_keys_from_master_def decode_own [OF assms, simplified])

theorem cookie_verifies_across_rotation_witness:
  "let c = example_crypto; rotated = set_previous c ''old'' (ring_from_master c ''new'');
       v = sign_cookie c (ring_from_master c ''old'') 7
   in crypto_laws c \<and> decode_cookie c rotated v = Some \<lparr>verified_id = 7, verified_by_previous = True\<rparr> \<and>
      decode_cookie c (clear_previous rotated) v = None"
  using cookie_verifies_across_rotation [OF example_crypto_laws, of "''new''" 7 "''old''"]
    example_crypto_laws
  by (simp add: Let_def hkdf_expand_subkey_def example_crypto_def)

text \<open>
  C24. No cookie is accepted without its tag: a value that verifies is two encoded parts around a
  dot, the first encodes the id that is reported and the second the keyed hash of exactly that
  id, under the current cookie key or, when the previous key is reported, under the previous
  one.
\<close>

theorem verified_cookie_carries_its_tag:
  assumes "decode_cookie c ring v = Some r"
  shows "\<exists>id_enc mac_enc keys. v = id_enc @ ''.'' @ mac_enc \<and>
    b64_decode c id_enc = Some (id_bytes (verified_id r)) \<and>
    b64_decode c mac_enc = Some (hmac c (cookie_key keys) (id_bytes (verified_id r))) \<and>
    (if verified_by_previous r then previous_keys ring = Some keys else keys = current_keys ring)"
proof (cases "decode_cookie_with_key c v (cookie_key (current_keys ring))")
  case (Some sid)
  with assms have "r = \<lparr>verified_id = sid, verified_by_previous = False\<rparr>"
    by (simp add: decode_cookie_def)
  with Some show ?thesis by (elim decode_with_key_Some) (auto intro: exI [of _ "current_keys ring"])
next
  case None
  with assms obtain keys sid where "previous_keys ring = Some keys"
    "decode_cookie_with_key c v (cookie_key keys) = Some sid"
    "r = \<lparr>verified_id = sid, verified_by_previous = True\<rparr>"
    by (auto simp: decode_cookie_def split: option.splits)
  then show ?thesis by (elim decode_with_key_Some) (auto intro: exI [of _ keys])
qed

theorem verified_cookie_carries_its_tag_witness:
  "let c = example_crypto; ring = ring_from_master c ''k''; v = sign_cookie c ring 7
   in decode_cookie c ring v = Some \<lparr>verified_id = 7, verified_by_previous = False\<rparr> \<and>
      (\<exists>id_enc mac_enc. v = id_enc @ ''.'' @ mac_enc \<and> b64_decode c id_enc = Some (id_bytes 7) \<and>
         b64_decode c mac_enc = Some (hmac c (cookie_key (current_keys ring)) (id_bytes 7)))"
proof -
  let ?ring = "ring_from_master example_crypto ''k''"
  have *: "decode_cookie example_crypto ?ring (sign_cookie example_crypto ?ring 7) =
      Some \<lparr>verified_id = 7, verified_by_previous = False\<rparr>"
    using example_crypto_laws
    by (simp add: decode_cookie_def sign_cookie_def decode_own [simplified])
  from verified_cookie_carries_its_tag [OF this] * show ?thesis
    unfolding Let_def by auto
qed

text \<open>
  The sub-keys an application derives are separate from the layer's own: two different labels
  never derive their key from the same input, and no label derives it from the input of the
  cookie key or of the fingerprint key.
\<close>

lemma subkeys_are_separate:
  assumes "subkey_label a = Some x" and "subkey_label b = Some y" and "a \<noteq> b"
  shows "x \<noteq> y \<and> x \<noteq> HKDF_INFO_COOKIE \<and> x \<noteq> HKDF_INFO_FINGERPRINT"
proof -
  have apart: "RESERVED_LABEL_PREFIX @ l \<noteq> HKDF_INFO_COOKIE" "RESERVED_LABEL_PREFIX @ l \<noteq> HKDF_INFO_FINGERPRINT"
    for l by simp_all
  from assms(1,2) show ?thesis
  proof (cases rule: subkey_label_Some [case_product subkey_label_Some])
    case plain_plain
    with assms(3) show ?thesis by blast
  next
    case plain_remapped
    with starts_with_append [of RESERVED_LABEL_PREFIX b] show ?thesis by blast
  next
    case remapped_plain
    then have "x \<noteq> y" using starts_with_append by metis
    with apart [of a] remapped_plain(1) show ?thesis by (simp only: not_False_eq_True)
  next
    case remapped_remapped
    with assms(3) apart [of a] show ?thesis by (simp only: same_append_eq not_False_eq_True)
  qed
qed

text \<open>
  A configuration that is accepted keeps the browsers' rules: the lifetime is not zero, the
  name is a cookie token, a \<^verbatim>\<open>__Host-\<close> name comes with \<^verbatim>\<open>Secure\<close> and the root path, a
  \<^verbatim>\<open>__Secure-\<close> name and \<^verbatim>\<open>SameSite=None\<close> with \<^verbatim>\<open>Secure\<close>, and the path cannot carry another
  attribute. A name the caller did not choose is never the reason of a refusal.
\<close>

lemma accepted_config_keeps_browser_rules:
  assumes "finalize_config cfg = Inr cfg'"
  shows "0 < cfg_ttl cfg' \<and> cookie_name cfg' \<noteq> [] \<and> list_all is_cookie_token_byte (cookie_name cfg') \<and>
    (starts_with ''__Host-'' (cookie_name cfg') \<longrightarrow> cfg_secure cfg' \<and> cfg_path cfg' = ''/'') \<and>
    (starts_with ''__Secure-'' (cookie_name cfg') \<longrightarrow> cfg_secure cfg') \<and>
    (cfg_same_site cfg' = SameSiteNone \<longrightarrow> cfg_secure cfg') \<and>
    CHR '';'' \<notin> set (cfg_path cfg') \<and> (\<exists>n. cfg' = cfg\<lparr>cookie_name := n\<rparr>)"
proof -
  from assms have "validate cfg' = Inr ()" by (rule finalize_config_Inr)
  moreover from assms have "\<exists>n. cfg' = cfg\<lparr>cookie_name := n\<rparr>" by (rule finalize_config_Inr)
  ultimately show ?thesis
    using valid_cookie_path_no_semicolon [of "cfg_path cfg'"] unfolding validate_ok by blast
qed

text \<open>
  A response that sets a cookie is kept out of shared caches: after the marking it carries a
  policy that names \<^verbatim>\<open>no-store\<close> or \<^verbatim>\<open>private\<close> and varies on the cookie. A policy of the
  handler that already does so is kept, any other is replaced, and every other header stays.
\<close>

lemma cookie_response_is_not_shared:
  assumes "to_str ''no-store'' = Some ''no-store''" and "to_str ''Cookie'' = Some ''Cookie''"
  shows "lists_directive to_str keeps_out_of_caches
      (get_all ''cache-control'' (mark_cookie_response to_str h)) \<and>
    lists_directive to_str names_cookie (get_all ''vary'' (mark_cookie_response to_str h)) \<and>
    (lists_directive to_str keeps_out_of_caches (get_all ''cache-control'' h) \<longrightarrow>
       get_all ''cache-control'' (mark_cookie_response to_str h) = get_all ''cache-control'' h) \<and>
    (n \<noteq> ''cache-control'' \<longrightarrow> n \<noteq> ''vary'' \<longrightarrow>
       get_all n (mark_cookie_response to_str h) = get_all n h)"
  using marking_directives [of to_str] assms by (simp add: get_all_mark)

end
