(* ===== verification/Session_Load.thy ===== *)
theory Session_Load
  imports Session_Services Session_Cookie
begin

section \<open>Loading the session of a request\<close>

text \<open>
  \<^verbatim>\<open>session/layer/lifecycle.rs\<close> (the load half), \<^verbatim>\<open>request_fingerprints\<close> and
  \<^verbatim>\<open>seed_session_state\<close> of \<^verbatim>\<open>session/layer/service.rs\<close>: the cookie is verified, the row loaded,
  migrated and vetted against the age caps and the registry, and the binding fingerprint checked;
  whatever fails, the request runs as a fresh guest under a fresh id.
\<close>

subsection \<open>Definitions\<close>

datatype unknown_liveness = Reject | Accept

record fingerprints =
  fp_current :: "string option"
  fp_previous :: "string option"

record ('w, 'e) load_policy =
  pol_registry :: "('w, 'e) session_registry option"
  pol_unknown :: unknown_liveness
  pol_now :: datetime
  pol_limits :: time_limits

record load_outcome =
  lo_id :: session_id
  lo_data :: session_data
  existing_id :: "session_id option"
  binding_invalidated :: bool
  rotation_fallback_used :: bool
  session_ended :: bool
  loaded_row :: "session_data option"

datatype session_verdict = Keep | EndSession | Distrust

definition outlived :: "('w, 'e) load_policy \<Rightarrow> duration option \<Rightarrow> datetime \<Rightarrow> bool" where
  "outlived pol cap from =
     (case Option.bind cap (from_std (pol_limits pol)) of
        None \<Rightarrow> False
      | Some c \<Rightarrow> c < pol_now pol - from)"

definition authenticated_session_verdict ::
  "session_data \<Rightarrow> session_config \<Rightarrow> ('w, 'e) load_policy \<Rightarrow> session_id \<Rightarrow> 'w \<Rightarrow> session_verdict \<times> 'w" where
  "authenticated_session_verdict d cfg pol sid w =
     (case auth_state d of
        Authenticated a \<Rightarrow>
          if outlived pol (max_authenticated_age cfg) (authn_time a) then (EndSession, w)
          else if (case ad_impersonator a of
                     None \<Rightarrow> False
                   | Some imp \<Rightarrow> outlived pol (max_impersonation_age cfg) (since imp))
            then (EndSession, w)
          else (case pol_registry pol of
                  None \<Rightarrow> (Keep, w)
                | Some reg \<Rightarrow>
                    (case liveness reg (ad_user_id a) sid w of
                       (Valid, w') \<Rightarrow> (Keep, w')
                     | (LivenessGone, w') \<Rightarrow> (EndSession, w')
                     | (Unknown, w') \<Rightarrow>
                         (case pol_unknown pol of Reject \<Rightarrow> Distrust | Accept \<Rightarrow> Keep, w')))
      | _ \<Rightarrow> (Keep, w))"

record stored_session =
  ss_existing_id :: "session_id option"
  ss_data :: session_data
  ss_loaded_row :: "session_data option"
  ss_session_ended :: bool

definition stored_session_fresh :: stored_session where
  "stored_session_fresh =
     \<lparr>ss_existing_id = None, ss_data = session_data_default, ss_loaded_row = None,
      ss_session_ended = False\<rparr>"

definition load_stored_session ::
  "('w, 'e) session_store \<Rightarrow> session_id \<Rightarrow> session_config \<Rightarrow> ('w, 'e) load_policy \<Rightarrow> 'w \<Rightarrow>
     stored_session \<times> 'w" where
  "load_stored_session st sid cfg pol w =
     (case load st sid w of
        (Inr (Some row), w1) \<Rightarrow>
          (let d = fst (migrate row) in
           case authenticated_session_verdict d cfg pol sid w1 of
             (Keep, w2) \<Rightarrow>
               (\<lparr>ss_existing_id = Some sid, ss_data = d, ss_loaded_row = Some row,
                 ss_session_ended = False\<rparr>, w2)
           | (EndSession, w2) \<Rightarrow>
               (stored_session_fresh\<lparr>ss_session_ended := True\<rparr>, snd (delete st sid w2))
           | (Distrust, w2) \<Rightarrow> (stored_session_fresh, w2))
      | (Inr None, w1) \<Rightarrow> (stored_session_fresh, w1)
      | (Inl _, w1) \<Rightarrow> (stored_session_fresh, w1))"

record binding_check =
  bc_invalidated :: bool
  fingerprint_rewritten :: bool

definition check_binding :: "session_data \<Rightarrow> fingerprints \<Rightarrow> session_data \<times> binding_check" where
  "check_binding d fps =
     (case fingerprint d of
        Some stored_hash \<Rightarrow>
          if fp_current fps = Some stored_hash
            then (d, \<lparr>bc_invalidated = False, fingerprint_rewritten = False\<rparr>)
          else if fp_previous fps = Some stored_hash \<and> fp_current fps \<noteq> None
            then (d\<lparr>fingerprint := fp_current fps\<rparr>,
                  \<lparr>bc_invalidated = False, fingerprint_rewritten = True\<rparr>)
          else (session_data_default, \<lparr>bc_invalidated = True, fingerprint_rewritten = False\<rparr>)
      | None \<Rightarrow>
          if \<not> is_guest (auth_state d) \<and> fp_current fps \<noteq> None
            then (d\<lparr>fingerprint := fp_current fps\<rparr>,
                  \<lparr>bc_invalidated = False, fingerprint_rewritten = True\<rparr>)
          else (d, \<lparr>bc_invalidated = False, fingerprint_rewritten = False\<rparr>))"

definition load_session ::
  "('w, 'e) session_store \<Rightarrow> crypto \<Rightarrow> signing_key_ring \<Rightarrow> session_config \<Rightarrow> to_str \<Rightarrow> header_map \<Rightarrow>
     fingerprints \<Rightarrow> rng \<Rightarrow> ('w, 'e) load_policy \<Rightarrow> 'w \<Rightarrow> load_outcome \<times> rng \<times> 'w" where
  "load_session st c ring cfg to_str headers fps r pol w =
     (let verified = Option.bind (extract_named_cookie to_str headers (cookie_name cfg) MAX_COOKIE_VALUE_BYTES)
                       (decode_cookie c ring);
          fallback = (case verified of None \<Rightarrow> False | Some v \<Rightarrow> verified_by_previous v);
          (ss, w') = (case verified of
                        Some v \<Rightarrow> load_stored_session st (verified_id v) cfg pol w
                      | None \<Rightarrow> (stored_session_fresh, w));
          (d, binding) = check_binding (ss_data ss) fps;
          existing = (if bc_invalidated binding then None else ss_existing_id ss);
          (sid, r') = (case existing of Some sid \<Rightarrow> (sid, r) | None \<Rightarrow> mint r)
      in (\<lparr>lo_id = sid, lo_data = d, existing_id = existing,
           binding_invalidated = bc_invalidated binding,
           rotation_fallback_used = (fallback \<or> fingerprint_rewritten binding),
           session_ended = ss_session_ended ss,
           loaded_row = (case existing of None \<Rightarrow> None | Some _ \<Rightarrow> ss_loaded_row ss)\<rparr>, r', w'))"

text \<open>
  The binding material of a request; what the configured binding extracts from the request is a
  parameter.
\<close>

abbreviation NO_BINDING_MATERIAL :: bytes where
  "NO_BINDING_MATERIAL \<equiv> ''axess:no-binding-material''"

definition request_fingerprints ::
  "('q \<Rightarrow> bytes option) option \<Rightarrow> crypto \<Rightarrow> signing_key_ring \<Rightarrow> 'q \<Rightarrow> fingerprints" where
  "request_fingerprints binding c ring req =
     (case binding of
        Some extract \<Rightarrow>
          (let material = (case extract req of Some m \<Rightarrow> m | None \<Rightarrow> NO_BINDING_MATERIAL);
               (curr, prev) = compute_binding_fingerprints c ring material
           in \<lparr>fp_current = Some curr, fp_previous = prev\<rparr>)
      | None \<Rightarrow> \<lparr>fp_current = None, fp_previous = None\<rparr>)"

definition seed_session_state ::
  "load_outcome \<Rightarrow> bool \<Rightarrow> string option \<Rightarrow> session_config \<Rightarrow> rng \<Rightarrow> session_inner" where
  "seed_session_state lo device_changed pending_fp cfg r =
     \<lparr>inner_id = lo_id lo, data = lo_data lo,
      modified = (binding_invalidated lo \<or> device_changed \<and> existing_id lo \<noteq> None \<or>
        rotation_fallback_used lo \<or> session_ended lo),
      needs_persist = False, regenerate = binding_invalidated lo, pre_cycle_id = None,
      pending_fingerprint = pending_fp, max_custom_bytes = cfg_max_custom_bytes cfg,
      inner_rng = r, consume = Some \<lparr>target_ttl = cfg_ttl cfg, loaded = loaded_row lo\<rparr>\<rparr>"

subsection \<open>Facts on the parts\<close>

text \<open>A loaded session is bound to this client: its stored fingerprint is that of the request.\<close>

definition bound_to :: "fingerprints \<Rightarrow> session_data \<Rightarrow> bool" where
  "bound_to fps d \<longleftrightarrow> fingerprint d = None \<or> fp_current fps \<noteq> None \<and>
     (fingerprint d = fp_current fps \<or> fingerprint d = fp_previous fps)"

lemma check_binding_refused:
  "\<not> bound_to fps d \<Longrightarrow> check_binding d fps =
     (session_data_default, \<lparr>bc_invalidated = True, fingerprint_rewritten = False\<rparr>)"
  by (auto simp: check_binding_def bound_to_def split: option.splits)

lemma check_binding_bound:
  "bound_to fps d \<Longrightarrow> check_binding d fps =
     (let rw = (fingerprint d \<noteq> fp_current fps \<and> fp_current fps \<noteq> None \<and>
                (fingerprint d = None \<longrightarrow> \<not> is_guest (auth_state d)))
      in (if rw then d\<lparr>fingerprint := fp_current fps\<rparr> else d,
          \<lparr>bc_invalidated = False, fingerprint_rewritten = rw\<rparr>))"
  by (auto simp: check_binding_def bound_to_def Let_def split: option.splits)

lemma check_binding_default [simp]:
  "check_binding session_data_default fps =
     (session_data_default, \<lparr>bc_invalidated = False, fingerprint_rewritten = False\<rparr>)"
  by (simp add: check_binding_def session_data_default_def)

text \<open>What a kept row satisfied, by what the registry answered.\<close>

definition vetted ::
  "session_data \<Rightarrow> session_config \<Rightarrow> ('w, 'e) load_policy \<Rightarrow> session_id \<Rightarrow> 'w \<Rightarrow> bool" where
  "vetted d cfg pol sid w \<longleftrightarrow>
     (\<forall>a. auth_state d = Authenticated a \<longrightarrow>
        \<not> outlived pol (max_authenticated_age cfg) (authn_time a) \<and>
        (\<forall>imp. ad_impersonator a = Some imp \<longrightarrow> \<not> outlived pol (max_impersonation_age cfg) (since imp)) \<and>
        (\<forall>reg. pol_registry pol = Some reg \<longrightarrow>
           fst (liveness reg (ad_user_id a) sid w) = Valid \<or>
           fst (liveness reg (ad_user_id a) sid w) = Unknown \<and> pol_unknown pol = Accept))"

lemma verdict_Keep:
  "fst (authenticated_session_verdict d cfg pol sid w) = Keep \<longleftrightarrow> vetted d cfg pol sid w"
  by (auto simp: authenticated_session_verdict_def vetted_def
      split: auth_state.splits option.splits session_liveness.splits prod.splits unknown_liveness.splits)

lemma load_stored_session_cases:
  obtains (kept) row w1 w2 where "load st sid w = (Inr (Some row), w1)" "vetted row cfg pol sid w1"
      "authenticated_session_verdict (fst (migrate row)) cfg pol sid w1 = (Keep, w2)"
      "load_stored_session st sid cfg pol w =
         (\<lparr>ss_existing_id = Some sid, ss_data = fst (migrate row), ss_loaded_row = Some row,
           ss_session_ended = False\<rparr>, w2)"
  | (fresh) ended w2 where
      "load_stored_session st sid cfg pol w = (stored_session_fresh\<lparr>ss_session_ended := ended\<rparr>, w2)"
proof (cases "load st sid w")
  case (Pair r w1)
  show thesis
  proof (cases "\<exists>row. r = Inr (Some row) \<and> vetted row cfg pol sid w1")
    case True
    then obtain row where row: "r = Inr (Some row)" "vetted row cfg pol sid w1" by blast
    then have "fst (authenticated_session_verdict (fst (migrate row)) cfg pol sid w1) = Keep"
      by (simp add: verdict_Keep) (simp add: vetted_def)
    then obtain w2 where "authenticated_session_verdict (fst (migrate row)) cfg pol sid w1 = (Keep, w2)"
      by (metis prod.collapse)
    with row Pair show thesis by (intro kept) (simp_all add: load_stored_session_def Let_def)
  next
    case False
    have "\<exists>ended w2. load_stored_session st sid cfg pol w = (stored_session_fresh\<lparr>ss_session_ended := ended\<rparr>, w2)"
    proof (cases "\<exists>row. r = Inr (Some row)")
      case True
      then obtain row where row: "r = Inr (Some row)" by blast
      with False have "fst (authenticated_session_verdict (fst (migrate row)) cfg pol sid w1) \<noteq> Keep"
        by (simp add: verdict_Keep) (simp add: vetted_def)
      with row Pair show ?thesis
        by (cases "authenticated_session_verdict (fst (migrate row)) cfg pol sid w1";
            cases "fst (authenticated_session_verdict (fst (migrate row)) cfg pol sid w1)")
          (auto simp: load_stored_session_def Let_def stored_session_fresh_def)
    qed (use Pair in \<open>auto simp: load_stored_session_def stored_session_fresh_def split: sum.splits option.splits\<close>)
    then show thesis using fresh by blast
  qed
qed

abbreviation presented_cookie ::
  "crypto \<Rightarrow> signing_key_ring \<Rightarrow> session_config \<Rightarrow> to_str \<Rightarrow> header_map \<Rightarrow> verified_session_id option" where
  "presented_cookie c ring cfg to_str headers \<equiv>
     Option.bind (extract_named_cookie to_str headers (cookie_name cfg) MAX_COOKIE_VALUE_BYTES)
       (decode_cookie c ring)"

lemma load_session_no_cookie:
  "presented_cookie c ring cfg to_str headers = None \<Longrightarrow>
     load_session st c ring cfg to_str headers fps r pol w =
       (\<lparr>lo_id = fst (mint r), lo_data = session_data_default, existing_id = None,
         binding_invalidated = False, rotation_fallback_used = False, session_ended = False,
         loaded_row = None\<rparr>, snd (mint r), w)"
  by (simp add: load_session_def stored_session_fresh_def case_prod_beta Let_def)

lemma load_session_fresh:
  assumes "presented_cookie c ring cfg to_str headers = Some v"
    "load_stored_session st (verified_id v) cfg pol w = (stored_session_fresh\<lparr>ss_session_ended := ended\<rparr>, w')"
  shows "load_session st c ring cfg to_str headers fps r pol w =
    (\<lparr>lo_id = fst (mint r), lo_data = session_data_default, existing_id = None,
      binding_invalidated = False, rotation_fallback_used = verified_by_previous v,
      session_ended = ended, loaded_row = None\<rparr>, snd (mint r), w')"
  using assms by (simp add: load_session_def stored_session_fresh_def case_prod_beta Let_def)

lemma load_session_kept:
  assumes "presented_cookie c ring cfg to_str headers = Some v"
    "load_stored_session st (verified_id v) cfg pol w =
       (\<lparr>ss_existing_id = Some sid, ss_data = d, ss_loaded_row = Some row, ss_session_ended = False\<rparr>, w')"
  shows "load_session st c ring cfg to_str headers fps r pol w =
    (if bound_to fps d
     then (\<lparr>lo_id = sid, lo_data = fst (check_binding d fps), existing_id = Some sid,
            binding_invalidated = False,
            rotation_fallback_used = (verified_by_previous v \<or>
              fingerprint_rewritten (snd (check_binding d fps))),
            session_ended = False, loaded_row = Some row\<rparr>, r, w')
     else (\<lparr>lo_id = fst (mint r), lo_data = session_data_default, existing_id = None,
            binding_invalidated = True, rotation_fallback_used = verified_by_previous v,
            session_ended = False, loaded_row = None\<rparr>, snd (mint r), w'))"
proof (cases "bound_to fps d")
  case True
  then have "bc_invalidated (snd (check_binding d fps)) = False"
    by (simp add: check_binding_bound Let_def)
  with True assms show ?thesis by (simp add: load_session_def case_prod_beta Let_def)
next
  case False
  with assms show ?thesis by (simp add: load_session_def check_binding_refused case_prod_beta Let_def)
qed

lemma checked_row:
  "bound_to fps d \<Longrightarrow> auth_state (fst (check_binding d fps)) = auth_state d"
  "bound_to fps d \<Longrightarrow> custom (fst (check_binding d fps)) = custom d"
  "bound_to fps d \<Longrightarrow> revision (fst (check_binding d fps)) = revision d"
  "bound_to fps d \<Longrightarrow> fp_current fps \<noteq> None \<Longrightarrow> \<not> is_guest (auth_state d) \<Longrightarrow>
     fingerprint (fst (check_binding d fps)) = fp_current fps"
  by (auto simp: check_binding_bound Let_def bound_to_def)

lemma bound_to_migrate [simp]: "bound_to fps (fst (migrate d)) = bound_to fps d"
  by (simp add: bound_to_def)

text \<open>Every load ends in one of three ways.\<close>

lemma load_session_cases:
  obtains (trusted) v row w1 where "presented_cookie c ring cfg to_str headers = Some v"
      "load st (verified_id v) w = (Inr (Some row), w1)" "vetted row cfg pol (verified_id v) w1"
      "bound_to fps row"
      "existing_id (fst (load_session st c ring cfg to_str headers fps r pol w)) = Some (verified_id v)"
      "lo_id (fst (load_session st c ring cfg to_str headers fps r pol w)) = verified_id v"
      "lo_data (fst (load_session st c ring cfg to_str headers fps r pol w)) =
         fst (check_binding (fst (migrate row)) fps)"
      "loaded_row (fst (load_session st c ring cfg to_str headers fps r pol w)) = Some row"
  | (guest) ended invalid fallback w' where
      "load_session st c ring cfg to_str headers fps r pol w =
         (\<lparr>lo_id = fst (mint r), lo_data = session_data_default, existing_id = None,
           binding_invalidated = invalid, rotation_fallback_used = fallback,
           session_ended = ended, loaded_row = None\<rparr>, snd (mint r), w')"
proof (cases "presented_cookie c ring cfg to_str headers")
  case None
  from load_session_no_cookie [OF this] show thesis by (rule guest)
next
  case (Some v)
  show thesis
  proof (cases rule: load_stored_session_cases [of st "verified_id v" w cfg pol])
    case (kept row w1 w2)
    show thesis
    proof (cases "bound_to fps row")
      case True
      with kept load_session_kept [OF Some kept(4), of fps r] show thesis by (intro trusted [OF Some]) simp_all
    next
      case False
      with load_session_kept [OF Some kept(4), of fps r] show thesis by (intro guest) simp
    qed
  next
    case (fresh ended w2)
    from load_session_fresh [OF Some fresh] show thesis by (rule guest)
  qed
qed

subsection \<open>Loading among other requests\<close>

text \<open>The row of a session that is not registered is never kept, and is at most removed.\<close>

abbreviation at_most_removes ::
  "session_id \<Rightarrow> table \<times> registrations \<Rightarrow> table \<times> registrations \<Rightarrow> bool" where
  "at_most_removes sid v v' \<equiv> snd v' = snd v \<and> (fst v' = fst v \<or> fst v' = (fst v)(sid := None))"

definition unregistered_row :: "user_id \<Rightarrow> session_id \<Rightarrow> table \<times> registrations \<Rightarrow> bool" where
  "unregistered_row u sid v \<longleftrightarrow> sid \<notin> set (snd v u) \<and>
     (\<forall>x. fst v sid = Some x \<longrightarrow> (\<exists>a. auth_state x = Authenticated a \<and> ad_user_id a = u))"

context session_services
begin

text \<open>The registry's answer about a session that is not registered.\<close>

lemma liveness_unregistered:
  assumes "env_keeps (\<lambda>s. good s \<and> P (seen s)) w" "\<And>v. P v \<Longrightarrow> sid \<notin> set (snd v u)"
    and "liveness (disturbed_registry reg) u sid w = (l, w')"
  shows "l \<noteq> Valid \<and> traced good seen P (=) w w'"
proof -
  define r where "r = fst (disturbed (reg_is_valid reg u sid) w)"
  have r: "disturbed (reg_is_valid reg u sid) w = (r, w')" and l: "l = answered r"
    using assms(3) by (simp_all add: liveness_answered r_def prod_eq_iff)
  have "P v \<Longrightarrow> P (snd (on_registrations (spec_is_valid u sid) v)) \<and> v = v \<and>
      v = snd (on_registrations (spec_is_valid u sid) v)" for v
    by (simp add: spec_is_valid_def on_registrations_def case_prod_beta)
  from disturbed_traced [OF is_valid_step assms(1) r, of "(=)", OF this]
  have t: "traced good seen P (=) w w'" and
    ans: "\<forall>x. r = Inr x \<longrightarrow> (\<exists>v. P v \<and> on_registrations (spec_is_valid u sid) v = (x, seen (current w')))"
    by blast+
  have "r \<noteq> Inr True"
  proof
    assume "r = Inr True"
    with ans obtain v where "P v" and v: "on_registrations (spec_is_valid u sid) v = (True, seen (current w'))"
      by blast
    from arg_cong [OF v, of fst] have "sid \<in> set (snd v u)" by (simp add: spec_is_valid_def)
    with assms(2) [OF \<open>P v\<close>] show False by contradiction
  qed
  with l t show ?thesis by simp
qed

lemma liveness_reads:
  assumes "env_keeps (\<lambda>s. good s \<and> P (seen s)) w" "liveness (disturbed_registry reg) u sid w = (l, w')"
  shows "traced good seen P (=) w w'"
proof -
  define r where "r = fst (disturbed (reg_is_valid reg u sid) w)"
  have r: "disturbed (reg_is_valid reg u sid) w = (r, w')"
    using assms(2) by (simp add: liveness_answered r_def prod_eq_iff)
  have "P v \<Longrightarrow> P (snd (on_registrations (spec_is_valid u sid) v)) \<and> v = v \<and>
      v = snd (on_registrations (spec_is_valid u sid) v)" for v
    by (simp add: spec_is_valid_def on_registrations_def case_prod_beta)
  from disturbed_traced [OF is_valid_step assms(1) r, of "(=)", OF this] show ?thesis by blast
qed

lemma load_step_traced:
  assumes "env_keeps (\<lambda>s. good s \<and> P (seen s)) w" "disturbed (load st sid) w = (r, w')"
  shows "traced good seen P (=) w w'" "r = Inr row \<Longrightarrow> \<exists>v. P v \<and> fst v sid = row"
proof -
  have "P v \<Longrightarrow> P (snd (on_table (spec_load sid) v)) \<and> v = v \<and> v = snd (on_table (spec_load sid) v)" for v
    by (simp add: spec_load_def on_table_def case_prod_beta)
  from disturbed_traced [OF load_step assms, of "(=)", OF this]
  have t: "traced good seen P (=) w w'" and
    ans: "\<forall>x. r = Inr x \<longrightarrow> (\<exists>v. P v \<and> on_table (spec_load sid) v = (x, seen (current w')))"
    by blast+
  from t show "traced good seen P (=) w w'" .
  assume "r = Inr row"
  with ans obtain v where "P v" and v: "on_table (spec_load sid) v = (row, seen (current w'))" by blast
  from arg_cong [OF v, of fst] \<open>P v\<close> show "\<exists>v. P v \<and> fst v sid = row"
    by (intro exI [of _ v]) (simp add: spec_load_def)
qed

lemma delete_step_traced:
  assumes "env_keeps (\<lambda>s. good s \<and> P (seen s)) w" "disturbed (delete st sid) w = (r, w')"
    and "\<And>v. P v \<Longrightarrow> P ((fst v)(sid := None), snd v)"
  shows "traced good seen P (at_most_removes sid) w w'"
proof -
  have "P v \<Longrightarrow> P (snd (on_table (spec_delete sid) v)) \<and> at_most_removes sid v v \<and>
      at_most_removes sid v (snd (on_table (spec_delete sid) v))" for v
    using assms(3) [of v] by (simp add: spec_delete_def on_table_def case_prod_beta)
  from disturbed_traced [OF delete_step assms(1,2), of "at_most_removes sid", OF this]
  show ?thesis by blast
qed

lemma verdict_unregistered:
  assumes "env_keeps (\<lambda>s. good s \<and> unregistered_row u sid (seen s)) w"
    and "auth_state d = Authenticated a" "ad_user_id a = u"
    and "pol_registry pol = Some (disturbed_registry reg)" "pol_unknown pol = Reject"
    and "authenticated_session_verdict d cfg pol sid w = (l, w')"
  shows "l \<noteq> Keep \<and> traced good seen (unregistered_row u sid) (=) w w'"
proof -
  obtain lv w1 where lv: "liveness (disturbed_registry reg) u sid w = (lv, w1)" by fastforce
  have "unregistered_row u sid v \<Longrightarrow> sid \<notin> set (snd v u)" for v by (simp add: unregistered_row_def)
  from liveness_unregistered [OF assms(1) this lv]
  have "lv \<noteq> Valid" "traced good seen (unregistered_row u sid) (=) w w1" by simp_all
  with assms(2-6) lv traced_refl [of good "unregistered_row u sid" seen w "(=)", OF assms(1)] show ?thesis
    by (auto simp: authenticated_session_verdict_def split: if_splits session_liveness.splits)
qed

lemma load_unregistered:
  assumes "env_keeps (\<lambda>s. good s \<and> unregistered_row u sid (seen s)) w"
    and "pol_registry pol = Some (disturbed_registry reg)" "pol_unknown pol = Reject"
    and "load_stored_session (disturbed_store st) sid cfg pol w = (ss, w')"
  shows "ss_existing_id ss = None \<and> traced good seen (unregistered_row u sid) (at_most_removes sid) w w'"
proof -
  let ?P = "unregistered_row u sid"
  obtain r w1 where r: "disturbed (load st sid) w = (r, w1)" by fastforce
  note t1 = load_step_traced [OF assms(1) r]
  have t1R: "traced good seen ?P (at_most_removes sid) w w1" by (rule traced_mono [OF t1(1)]) simp
  show ?thesis
  proof (cases "\<exists>row. r = Inr (Some row)")
    case False
    with r assms(4) t1R show ?thesis
      by (auto simp: load_stored_session_def stored_session_fresh_def split: sum.splits option.splits)
  next
    case True
    then obtain row where row: "r = Inr (Some row)" by blast
    from t1(2) [OF row] obtain a where a: "auth_state row = Authenticated a" "ad_user_id a = u"
      by (auto simp: unregistered_row_def)
    obtain l w2 where l: "authenticated_session_verdict (fst (migrate row)) cfg pol sid w1 = (l, w2)"
      by fastforce
    from verdict_unregistered [OF traced_env [OF t1(1)] _ a(2) assms(2,3) l] a
    have l': "l \<noteq> Keep" and t2: "traced good seen ?P (=) w1 w2" by simp_all
    have t12: "traced good seen ?P (at_most_removes sid) w w2"
      by (rule traced_trans [OF t1R]) (rule traced_mono [OF t2], simp)
    obtain rd w3 where rd: "disturbed (delete st sid) w2 = (rd, w3)" by fastforce
    have "traced good seen ?P (at_most_removes sid) w2 w3"
      by (rule delete_step_traced [OF traced_env [OF t12] rd]) (simp add: unregistered_row_def)
    from traced_trans [OF t12 this] t12 l' r row l rd assms(4) show ?thesis
      by (cases l) (auto simp: load_stored_session_def stored_session_fresh_def Let_def)
  qed
qed

end

subsection \<open>Properties\<close>

text \<open>
  C15. A handler runs under an id and data that came from the client only when the whole chain of
  trust held. Either the request runs as a fresh guest, under an id minted for it and with
  default data; or the cookie verified, the store held a row under exactly that id, the row was
  within the age caps and confirmed by the registry (or the registry could not answer and the
  policy accepts that), and its binding fingerprint is the request's; then the session is that
  row.
\<close>

theorem load_trusts_only_vetted_sessions:
  "let lo = fst (load_session st c ring cfg to_str headers fps r pol w)
   in case existing_id lo of
        None \<Rightarrow> lo_id lo = fst (mint r) \<and> lo_data lo = session_data_default \<and> loaded_row lo = None
      | Some sid \<Rightarrow>
          lo_id lo = sid \<and>
          (\<exists>v row w1. presented_cookie c ring cfg to_str headers = Some v \<and> verified_id v = sid \<and>
             load st sid w = (Inr (Some row), w1) \<and> vetted row cfg pol sid w1 \<and> bound_to fps row \<and>
             loaded_row lo = Some row \<and> auth_state (lo_data lo) = auth_state row \<and>
             custom (lo_data lo) = custom row \<and> revision (lo_data lo) = revision row)"
proof (cases rule: load_session_cases [where c = c and ring = ring and cfg = cfg and to_str = to_str and
      headers = headers and st = st and w = w and pol = pol and fps = fps and r = r])
  case (trusted v row w1)
  then show ?thesis unfolding Let_def by (simp add: checked_row)
next
  case (guest ended invalid fallback w')
  then show ?thesis by simp
qed


lemma presented_signed:
  assumes "crypto_laws c" "list_all is_cookie_token_byte (cookie_name cfg)" "cookie_name cfg \<noteq> []"
    and "to_str (cookie_name cfg @ ''='' @ sign_cookie c ring sid) =
      Some (cookie_name cfg @ ''='' @ sign_cookie c ring sid)"
  shows "presented_cookie c ring cfg to_str
      [(''cookie'', cookie_name cfg @ ''='' @ sign_cookie c ring sid)] =
    Some \<lparr>verified_id = sid, verified_by_previous = False\<rparr>"
  using extract_signed [OF assms(1-3), of to_str ring sid] assms(4) decode_own [OF assms(1)]
  by (simp add: decode_cookie_def sign_cookie_def)

lemma default_cookie_name_valid:
  "list_all is_cookie_token_byte (cookie_name session_config_default)"
  by (simp add: session_config_default_def is_cookie_token_byte_def Let_def)


end
