(* ===== verification/Session_Finalize.thy ===== *)
theory Session_Finalize
  imports Session_Load
begin

section \<open>Writing the session back\<close>

text \<open>
  \<^verbatim>\<open>session/layer/lifecycle/finalize.rs\<close>, \<^verbatim>\<open>session/layer/lifecycle/registry.rs\<close> and the
  request of \<^verbatim>\<open>session/layer/service.rs\<close>: after the handler the session is saved, swapped,
  merged or rotated in the store, the registry entry of a rotated session moves with it, and the
  cookie is set when a row backs it.
\<close>

subsection \<open>Definitions\<close>

record rotation =
  was_authenticated :: bool
  rot_user_id :: user_id
  rot_old_id :: session_id
  rot_new_id :: session_id

record finalize_outcome =
  final_id :: session_id
  session_changed :: bool
  fo_rotation :: "rotation option"

record cycled =
  cy_id :: session_id
  cy_rotation :: "rotation option"
  cy_cookie :: bool

definition touch_is_due :: "time_limits \<Rightarrow> datetime option \<Rightarrow> datetime \<Rightarrow> duration \<Rightarrow> bool" where
  "touch_is_due lim touched now ttl =
     (case touched of
        None \<Rightarrow> True
      | Some t \<Rightarrow> (case from_std lim (ttl div 2) of None \<Rightarrow> False | Some half \<Rightarrow> half \<le> now - t))"

definition set_loaded :: "session_data \<Rightarrow> session_inner \<Rightarrow> session_inner" where
  "set_loaded d si = si\<lparr>consume := map_option (\<lambda>t. t\<lparr>loaded := Some d\<rparr>) (consume si)\<rparr>"

definition loaded_base :: "session_inner \<Rightarrow> session_data option" where
  "loaded_base si = Option.bind (consume si) loaded"

definition write_changes ::
  "json_ser \<Rightarrow> ('w, 'e) session_store \<Rightarrow> session_config \<Rightarrow> session_inner \<Rightarrow> u64 \<Rightarrow> 'w \<Rightarrow>
     ('e + conditional_update) \<times> session_inner \<times> 'w" where
  "write_changes ser st cfg si loaded_revision w =
     (let sw = \<lparr>swap_row = inner_id si, swap_base = loaded_base si, swap_local = data si,
                swap_expected = loaded_revision, swap_ttl = cfg_ttl cfg,
                swap_max_custom_bytes = cfg_max_custom_bytes cfg\<rparr>
      in case swap_merging ser st sw (\<lambda>p d. (True, d, p)) () w of
           (Inl e, w') \<Rightarrow> (Inl e, si, w')
         | (Inr (SwapWritten d, _), w') \<Rightarrow> (Inr Written, (set_loaded d si)\<lparr>data := d\<rparr>, w')
         | (Inr (SwapGone, _), w') \<Rightarrow> (Inr Gone, si, w')
         | (Inr (SwapConflict, _), w') \<Rightarrow> (Inr Conflict, si, w')
         | (Inr (SwapDeclined, _), w') \<Rightarrow> (Inr Conflict, si, w'))"

definition merged_for_rotation ::
  "json_ser \<Rightarrow> session_config \<Rightarrow> session_data \<Rightarrow> session_data \<Rightarrow> session_data \<Rightarrow> session_data" where
  "merged_for_rotation ser cfg base loc fresh =
     (let merged = (merge_rotating base loc fresh)
            \<lparr>revision := revision fresh + 1,
             touched_at := opt_max (touched_at loc) (touched_at fresh)\<rparr>
      in merged\<lparr>custom := cap_custom ser (cfg_max_custom_bytes cfg) (custom merged)\<rparr>)"

definition merge_concurrent_writes ::
  "json_ser \<Rightarrow> ('w, 'e) session_store \<Rightarrow> session_config \<Rightarrow> session_inner \<Rightarrow> session_id \<Rightarrow> 'w \<Rightarrow>
     ('e + u64 option) \<times> session_inner \<times> 'w" where
  "merge_concurrent_writes ser st cfg si old_id w =
     (case loaded_base si of
        None \<Rightarrow> (Inr None, si, w)
      | Some base \<Rightarrow>
          (case load st old_id w of
             (Inl e, w') \<Rightarrow> (Inl e, si, w')
           | (Inr None, w') \<Rightarrow> (Inr (Some (revision base)), si, w')
           | (Inr (Some fresh), w') \<Rightarrow>
               if revision fresh = revision base then (Inr (Some (revision base)), si, w')
               else (Inr (Some (revision fresh)),
                     (set_loaded fresh si)\<lparr>data := merged_for_rotation ser cfg base (data si) fresh\<rparr>, w')))"

abbreviation CYCLE_ATTEMPTS :: nat where
  "CYCLE_ATTEMPTS \<equiv> 4"

fun cycle_rounds ::
  "nat \<Rightarrow> json_ser \<Rightarrow> ('w, 'e) session_store \<Rightarrow> session_config \<Rightarrow> session_id \<Rightarrow> session_id \<Rightarrow> bool \<Rightarrow>
     session_inner \<Rightarrow> 'w \<Rightarrow> ('e + cycle_outcome) \<times> session_inner \<times> 'w" where
  "cycle_rounds 0 ser st cfg old_id new_id existing si w = (Inr CycleConflict, si, w)"
| "cycle_rounds (Suc n) ser st cfg old_id new_id existing si w =
     (case (if existing then merge_concurrent_writes ser st cfg si old_id w else (Inr None, si, w)) of
        (Inl e, si1, w1) \<Rightarrow> (Inl e, si1, w1)
      | (Inr checked, si1, w1) \<Rightarrow>
          (case (case checked of
                   Some found_rev \<Rightarrow>
                     cycle_if_revision st old_id new_id (data si1) (cfg_ttl cfg) existing found_rev w1
                 | None \<Rightarrow> cycle st old_id new_id (data si1) (cfg_ttl cfg) existing w1) of
             (r, w2) \<Rightarrow>
               if r = Inr CycleConflict then cycle_rounds n ser st cfg old_id new_id existing si1 w2
               else (r, si1, w2)))"

definition retire_id :: "session_inner \<Rightarrow> session_id \<times> session_inner" where
  "retire_id si =
     (case pre_cycle_id si of
        Some old_id \<Rightarrow> (old_id, si\<lparr>pre_cycle_id := None\<rparr>)
      | None \<Rightarrow> (let (new_id, r) = mint (inner_rng si) in
                (inner_id si, si\<lparr>inner_id := new_id, inner_rng := r\<rparr>)))"

definition cycle_session ::
  "json_ser \<Rightarrow> ('w, 'e) session_store \<Rightarrow> session_config \<Rightarrow> session_inner \<Rightarrow> session_id option \<Rightarrow> 'w \<Rightarrow>
     cycled \<times> session_inner \<times> 'w" where
  "cycle_session ser st cfg si existing w =
     (let (old_id, si1) = retire_id si;
          new_id = inner_id si1;
          was_auth = (case loaded_base si1 of None \<Rightarrow> False | Some d \<Rightarrow> is_authenticated (auth_state d))
      in case cycle_rounds CYCLE_ATTEMPTS ser st cfg old_id new_id (existing \<noteq> None) si1 w of
           (Inr Rotated, si2, w') \<Rightarrow>
             (\<lparr>cy_id = new_id,
               cy_rotation = (case authenticated_user_id (auth_of si2) of
                  Some u \<Rightarrow> if old_id \<noteq> new_id
                     then Some \<lparr>was_authenticated = was_auth, rot_user_id = u,
                                rot_old_id = old_id, rot_new_id = new_id\<rparr>
                     else None
                | None \<Rightarrow> None),
               cy_cookie = True\<rparr>, si2, w')
         | (Inr CycleConflict, si2, w') \<Rightarrow>
             (\<lparr>cy_id = new_id, cy_rotation = None, cy_cookie = True\<rparr>,
              si2\<lparr>data := session_data_default\<rparr>, snd (delete st old_id w'))
         | (Inr SessionGone, si2, w') \<Rightarrow>
             (\<lparr>cy_id = new_id, cy_rotation = None, cy_cookie = False\<rparr>,
              si2\<lparr>data := session_data_default\<rparr>, w')
         | (Inl e, si2, w') \<Rightarrow>
             (\<lparr>cy_id = new_id, cy_rotation = None, cy_cookie = True\<rparr>,
              si2\<lparr>data := session_data_default\<rparr>, snd (delete st old_id w')))"

text \<open>What every write does to the data first: the size cap, the next revision, the stamp.\<close>

definition stamped :: "json_ser \<Rightarrow> session_config \<Rightarrow> datetime \<Rightarrow> session_inner \<Rightarrow> session_inner" where
  "stamped ser cfg now si =
     si\<lparr>data := (data si)\<lparr>custom := cap_custom ser (cfg_max_custom_bytes cfg) (custom_of si),
                        revision := revision (data si) + 1, touched_at := Some now\<rparr>\<rparr>"

definition touch_due :: "time_limits \<Rightarrow> session_config \<Rightarrow> datetime \<Rightarrow> session_inner \<Rightarrow> session_id option \<Rightarrow> bool" where
  "touch_due lim cfg now si existing \<longleftrightarrow> existing \<noteq> None \<and> \<not> modified si \<and> \<not> regenerate si \<and>
     touch_is_due lim (touched_at (data si)) now (cfg_ttl cfg)"

definition write_stored ::
  "json_ser \<Rightarrow> ('w, 'e) session_store \<Rightarrow> session_config \<Rightarrow> bool \<Rightarrow> session_inner \<Rightarrow> u64 \<Rightarrow> 'w \<Rightarrow>
     ('e + conditional_update) \<times> session_inner \<times> 'w" where
  "write_stored ser st cfg due si loaded_revision w =
     (if due
      then (case update_if_revision st (inner_id si) loaded_revision (data si) (cfg_ttl cfg) w of
              (r, w') \<Rightarrow> (r, si, w'))
      else write_changes ser st cfg si loaded_revision w)"

definition after_write ::
  "bool \<Rightarrow> ('e + conditional_update) \<times> session_inner \<times> 'w \<Rightarrow> finalize_outcome \<times> session_inner \<times> 'w" where
  "after_write due run =
     (case run of (r, si, w) \<Rightarrow>
        (\<lparr>final_id = inner_id si,
          session_changed = (r = Inr Written \<or> r = Inr Conflict \<and> due),
          fo_rotation = None\<rparr>,
         if r = Inr Gone then si\<lparr>data := session_data_default\<rparr> else si, w))"

definition finalize_session ::
  "json_ser \<Rightarrow> time_limits \<Rightarrow> ('w, 'e) session_store \<Rightarrow> session_config \<Rightarrow> datetime \<Rightarrow> session_inner \<Rightarrow>
     session_id option \<Rightarrow> 'w \<Rightarrow> finalize_outcome \<times> session_inner \<times> 'w" where
  "finalize_session ser lim st cfg now si existing w =
     (let fresh_needed = (existing = None \<and> (modified si \<or> needs_persist si));
          due = touch_due lim cfg now si existing;
          loaded_revision = revision (data si);
          si1 = stamped ser cfg now si
      in if \<not> (modified si \<or> regenerate si \<or> fresh_needed \<or> due)
         then (\<lparr>final_id = inner_id si, session_changed = False, fo_rotation = None\<rparr>, si, w)
         else if regenerate si
         then (case cycle_session ser st cfg si1 existing w of
                 (cy, si2, w') \<Rightarrow>
                   (\<lparr>final_id = cy_id cy, session_changed = cy_cookie cy,
                     fo_rotation = cy_rotation cy\<rparr>, si2, w'))
         else if existing \<noteq> None
         then after_write due (write_stored ser st cfg due si1 loaded_revision w)
         else (case save st (inner_id si1) (data si1) (cfg_ttl cfg) w of
                 (r, w') \<Rightarrow>
                   (\<lparr>final_id = inner_id si1, session_changed = (case r of Inl _ \<Rightarrow> False | Inr _ \<Rightarrow> True),
                     fo_rotation = None\<rparr>, si1, w')))"

lemma stamped_simps [simp]:
  "inner_id (stamped ser cfg now si) = inner_id si"
  "pre_cycle_id (stamped ser cfg now si) = pre_cycle_id si"
  "inner_rng (stamped ser cfg now si) = inner_rng si"
  "consume (stamped ser cfg now si) = consume si"
  "auth_of (stamped ser cfg now si) = auth_of si"
  "custom_of (stamped ser cfg now si) = cap_custom ser (cfg_max_custom_bytes cfg) (custom_of si)"
  "revision (data (stamped ser cfg now si)) = revision (data si) + 1"
  by (simp_all add: stamped_def)

lemma finalize_idle:
  "\<not> (modified si \<or> regenerate si \<or> existing = None \<and> needs_persist si \<or> touch_due lim cfg now si existing) \<Longrightarrow>
     finalize_session ser lim st cfg now si existing w =
       (\<lparr>final_id = inner_id si, session_changed = False, fo_rotation = None\<rparr>, si, w)"
  by (auto simp: finalize_session_def Let_def)

lemma finalize_rotate:
  "regenerate si \<Longrightarrow> finalize_session ser lim st cfg now si existing w =
     (case cycle_session ser st cfg (stamped ser cfg now si) existing w of
        (cy, si2, w') \<Rightarrow>
          (\<lparr>final_id = cy_id cy, session_changed = cy_cookie cy, fo_rotation = cy_rotation cy\<rparr>, si2, w'))"
  by (simp add: finalize_session_def Let_def)

lemma finalize_stored:
  "\<not> regenerate si \<Longrightarrow> existing \<noteq> None \<Longrightarrow> modified si \<or> touch_due lim cfg now si existing \<Longrightarrow>
     finalize_session ser lim st cfg now si existing w =
       after_write (touch_due lim cfg now si existing)
         (write_stored ser st cfg (touch_due lim cfg now si existing) (stamped ser cfg now si)
           (revision (data si)) w)"
  by (auto simp: finalize_session_def Let_def)

lemma finalize_fresh:
  "\<not> regenerate si \<Longrightarrow> modified si \<or> needs_persist si \<Longrightarrow>
     finalize_session ser lim st cfg now si None w =
       (case save st (inner_id si) (data (stamped ser cfg now si)) (cfg_ttl cfg) w of
          (r, w') \<Rightarrow>
            (\<lparr>final_id = inner_id si, session_changed = (case r of Inl _ \<Rightarrow> False | Inr _ \<Rightarrow> True),
              fo_rotation = None\<rparr>, stamped ser cfg now si, w'))"
  by (simp add: finalize_session_def Let_def)

subsubsection \<open>The registry entry of a rotated session\<close>

definition end_untracked :: "('w, 'e) session_store \<Rightarrow> session_id \<Rightarrow> 'w \<Rightarrow> bool \<times> 'w" where
  "end_untracked st sid w = (False, snd (delete st sid w))"

definition on_untracked ::
  "unknown_liveness \<Rightarrow> ('w, 'e) session_store \<Rightarrow> session_id \<Rightarrow> 'w \<Rightarrow> bool \<times> 'w" where
  "on_untracked unknown st sid w =
     (case unknown of Accept \<Rightarrow> (True, w) | Reject \<Rightarrow> end_untracked st sid w)"

definition end_revoked_rotation ::
  "('w, 'e) session_registry \<Rightarrow> ('w, 'e) session_store \<Rightarrow> rotation \<Rightarrow> 'w \<Rightarrow> bool \<times> 'w" where
  "end_revoked_rotation reg st rot w =
     end_untracked st (rot_new_id rot)
       (snd (reg_invalidate_session reg (rot_user_id rot) (rot_new_id rot) w))"

definition reread_old_id ::
  "('w, 'e) session_registry \<Rightarrow> ('w, 'e) session_store \<Rightarrow> rotation \<Rightarrow> unknown_liveness \<Rightarrow> 'w \<Rightarrow>
     bool option \<times> 'w" where
  "reread_old_id reg st rot unknown w =
     (case liveness reg (rot_user_id rot) (rot_old_id rot) w of
        (Valid, w') \<Rightarrow> (None, w')
      | (LivenessGone, w') \<Rightarrow> map_prod Some id (end_revoked_rotation reg st rot w')
      | (Unknown, w') \<Rightarrow>
          (case unknown of
             Accept \<Rightarrow> (None, w')
           | Reject \<Rightarrow> map_prod Some id (end_revoked_rotation reg st rot w')))"

text \<open>After the new id is registered: read the old one again, then retire it.\<close>

definition retire_old_entry ::
  "('w, 'e) session_registry \<Rightarrow> ('w, 'e) session_store \<Rightarrow> rotation \<Rightarrow> unknown_liveness \<Rightarrow> 'w \<Rightarrow> bool \<times> 'w" where
  "retire_old_entry reg st rot unknown w =
     (case reread_old_id reg st rot unknown w of
        (Some ended, w') \<Rightarrow> (ended, w')
      | (None, w') \<Rightarrow>
          (True, snd (reg_invalidate_session reg (rot_user_id rot) (rot_old_id rot) w')))"

definition move_registry_entry ::
  "('w, 'e) session_store \<Rightarrow> ('w, 'e) session_registry \<Rightarrow> rotation \<Rightarrow> unknown_liveness \<Rightarrow> 'w \<Rightarrow> bool \<times> 'w" where
  "move_registry_entry st reg rot unknown w =
     (let u = rot_user_id rot; new_id = rot_new_id rot in
      case liveness reg u (rot_old_id rot) w of
        (Valid, w1) \<Rightarrow>
          (case handle_register reg u new_id w1 of
             (False, w2) \<Rightarrow> on_untracked unknown st new_id w2
           | (True, w2) \<Rightarrow> retire_old_entry reg st rot unknown w2)
      | (LivenessGone, w1) \<Rightarrow>
          (case liveness reg u new_id w1 of
             (Valid, w2) \<Rightarrow>
               if was_authenticated rot then end_revoked_rotation reg st rot w2 else (True, w2)
           | (LivenessGone, w2) \<Rightarrow> end_untracked st new_id w2
           | (Unknown, w2) \<Rightarrow> on_untracked unknown st new_id w2)
      | (Unknown, w1) \<Rightarrow>
          (case handle_register reg u new_id w1 of
             (True, w2) \<Rightarrow> retire_old_entry reg st rot unknown w2
           | (False, w2) \<Rightarrow> on_untracked unknown st new_id w2))"

definition settle_registry ::
  "('w, 'e) session_store \<Rightarrow> ('w, 'e) session_registry option \<Rightarrow> unknown_liveness \<Rightarrow>
     finalize_outcome \<Rightarrow> 'w \<Rightarrow> bool \<times> 'w" where
  "settle_registry st registry unknown outcome w =
     (case (registry, fo_rotation outcome) of
        (Some reg, Some rot) \<Rightarrow> move_registry_entry st reg rot unknown w
      | _ \<Rightarrow> (True, w))"

subsubsection \<open>The request\<close>

definition finish_run ::
  "json_ser \<Rightarrow> ('w, 'e) session_store \<Rightarrow> session_config \<Rightarrow> ('w, 'e) load_policy \<Rightarrow> session_inner \<Rightarrow>
     session_id option \<Rightarrow> 'w \<Rightarrow> (finalize_outcome \<times> bool) \<times> session_inner \<times> 'w" where
  "finish_run ser st cfg pol si existing w =
     (case finalize_session ser (pol_limits pol) st cfg (pol_now pol) si existing w of
        (outcome, si', w1) \<Rightarrow>
          (case settle_registry st (pol_registry pol) (pol_unknown pol) outcome w1 of
             (registered, w2) \<Rightarrow> ((outcome, registered), si', w2)))"

definition apply_session_cookie ::
  "to_str \<Rightarrow> (set_cookie \<Rightarrow> string option) \<Rightarrow> crypto \<Rightarrow> signing_key_ring \<Rightarrow> session_config \<Rightarrow>
     finalize_outcome \<Rightarrow> bool \<Rightarrow> header_map \<Rightarrow> header_map" where
  "apply_session_cookie to_str render c ring cfg outcome registered headers =
     (if session_changed outcome \<and> registered
      then (case build_set_cookie render c ring cfg (final_id outcome) of
              Some hv \<Rightarrow> mark_cookie_response to_str (hm_append ''set-cookie'' hv headers)
            | None \<Rightarrow> headers)
      else headers)"

subsubsection \<open>The service's call\<close>

datatype device_resolution = Resolved "device_id option" | ResolutionFailed

text \<open>The resolver's answer and the cookie it left are parameters; \<open>None\<close> is no resolver.\<close>

definition resolve_device ::
  "(load_outcome \<Rightarrow> 'w \<Rightarrow> device_resolution \<times> string option \<times> 'w) option \<Rightarrow> load_outcome \<Rightarrow> 'w \<Rightarrow>
     load_outcome \<times> bool \<times> string option \<times> 'w" where
  "resolve_device resolver lo w =
     (case resolver of
        None \<Rightarrow> (lo, False, None, w)
      | Some resolve \<Rightarrow>
          (case resolve lo w of
             (Resolved dev, cookie, w') \<Rightarrow>
               if dev \<noteq> data_device_id (lo_data lo)
               then (lo\<lparr>lo_data := (lo_data lo)\<lparr>data_device_id := dev\<rparr>\<rparr>, True, cookie, w')
               else (lo, False, cookie, w')
           | (ResolutionFailed, cookie, w') \<Rightarrow> (lo, False, cookie, w')))"

datatype 'x response = Forbidden | HandlerError 'x | Answered header_map

definition session_call ::
  "json_ser \<Rightarrow> ('w, 'e) session_store \<Rightarrow> crypto \<Rightarrow> signing_key_ring \<Rightarrow> session_config \<Rightarrow>
     (set_cookie \<Rightarrow> string option) \<Rightarrow> to_str \<Rightarrow> ('w, 'e) load_policy \<Rightarrow> datetime \<Rightarrow> ('q \<Rightarrow> bytes option) option \<Rightarrow>
     (load_outcome \<Rightarrow> 'w \<Rightarrow> device_resolution \<times> string option \<times> 'w) option \<Rightarrow> ('q \<Rightarrow> bool) \<Rightarrow>
     (session_inner \<Rightarrow> 'w \<Rightarrow> ('x + header_map) \<times> session_inner \<times> 'w) \<Rightarrow>
     header_map \<Rightarrow> 'q \<Rightarrow> rng \<Rightarrow> 'w \<Rightarrow> 'x response \<times> session_inner option \<times> 'w" where
  "session_call ser st c ring cfg render to_str pol finish_now binding resolver admitted handler headers req r w =
     (if \<not> admitted req then (Forbidden, None, w)
      else
        let fps = request_fingerprints binding c ring req;
            (lo0, r1, w1) = load_session st c ring cfg to_str headers fps r pol w;
            (lo, device_changed, device_cookie, w2) = resolve_device resolver lo0 w1;
            pending = (if binding \<noteq> None \<and> fingerprint (lo_data lo) = None then fp_current fps else None);
            si0 = seed_session_state lo device_changed pending cfg r1;
            (answer, si1, w3) = handler si0 w2;
            ((outcome, registered), si2, w4) = finish_run ser st cfg (pol\<lparr>pol_now := finish_now\<rparr>) si1 (existing_id lo) w3
        in case answer of
             Inl e \<Rightarrow> (HandlerError e, Some si2, w4)
           | Inr hs \<Rightarrow>
               (Answered
                  (let hs1 = apply_session_cookie to_str render c ring cfg outcome registered hs
                   in case device_cookie of
                        None \<Rightarrow> hs1
                      | Some ck \<Rightarrow> mark_cookie_response to_str (hm_append ''set-cookie'' ck hs1)),
                Some si2, w4))"

subsection \<open>A session that ended meanwhile\<close>

context session_services
begin

lemma update_gone:
  assumes "env_keeps (\<lambda>s. good s \<and> P (seen s)) w" "\<And>v. P v \<Longrightarrow> fst v sid = None"
    and "disturbed (update_if_revision st sid expected d ttl) w = (r, w')"
  shows "traced good seen P (=) w w' \<and> (\<forall>x. r = Inr x \<longrightarrow> x = Gone)"
proof -
  have step: "P v \<Longrightarrow> on_table (spec_update_if_revision sid expected d ttl) v = (Gone, v)" for v
    using assms(2) [of v] by (simp add: spec_update_if_revision_def on_table_def case_prod_beta)
  then have "P v \<Longrightarrow> P (snd (on_table (spec_update_if_revision sid expected d ttl) v)) \<and> v = v \<and>
      v = snd (on_table (spec_update_if_revision sid expected d ttl) v)" for v
    by simp
  from disturbed_traced [OF update_if_revision_step assms(1,3), of "(=)", OF this] step
  show ?thesis by fastforce
qed

lemma cycle_gone:
  assumes "env_keeps (\<lambda>s. good s \<and> P (seen s)) w" "\<And>v. P v \<Longrightarrow> fst v old_id = None" "0 < ttl"
    and "disturbed (case checked of
          Some e \<Rightarrow> cycle_if_revision st old_id new_id d ttl True e
        | None \<Rightarrow> cycle st old_id new_id d ttl True) w = (r, w')"
  shows "traced good seen P (=) w w' \<and> (\<forall>x. r = Inr x \<longrightarrow> x = SessionGone)"
proof -
  define f where "f = (case checked of
      Some e \<Rightarrow> on_table (spec_cycle_if_revision old_id new_id d ttl True e)
    | None \<Rightarrow> on_table (spec_cycle old_id new_id d ttl True))"
  have impl: "implements good seen (case checked of
          Some e \<Rightarrow> cycle_if_revision st old_id new_id d ttl True e
        | None \<Rightarrow> cycle st old_id new_id d ttl True) f"
    unfolding f_def by (cases checked) (simp_all add: cycle_step cycle_if_revision_step)
  have step: "P v \<Longrightarrow> f v = (SessionGone, v)" for v
    using assms(2) [of v] assms(3)
    by (cases checked) (simp_all add: f_def spec_cycle_if_revision_def spec_cycle_def on_table_def case_prod_beta)
  then have "P v \<Longrightarrow> P (snd (f v)) \<and> v = v \<and> v = snd (f v)" for v by simp
  from disturbed_traced [OF impl assms(1,4), of "(=)", OF this] step show ?thesis by fastforce
qed

lemma write_changes_gone:
  assumes "env_keeps (\<lambda>s. good s \<and> P (seen s)) w" "\<And>v. P v \<Longrightarrow> fst v (inner_id si) = None"
    and "write_changes ser (disturbed_store st) cfg si e w = (r, si', w')"
  shows "traced good seen P (=) w w' \<and> (\<forall>x. r = Inr x \<longrightarrow> x = Gone) \<and> si' = si"
proof -
  let ?next = "stamp_next ser (cfg_max_custom_bytes cfg) e (data si)"
  obtain r1 w1 where r1: "disturbed (update_if_revision st (inner_id si) e ?next (cfg_ttl cfg)) w = (r1, w1)"
    by fastforce
  note gone = update_gone [OF assms(1,2) r1]
  show ?thesis
  proof (cases r1)
    case (Inl x)
    with r1 gone assms(3) show ?thesis
      by (auto simp: write_changes_def swap_merging_def numeral_3_eq_3 swap_attempts_Suc act_bind_apply)
  next
    case (Inr x)
    with gone have "x = Gone" by simp
    with r1 gone assms(3) Inr show ?thesis
      by (auto simp: write_changes_def swap_merging_def numeral_3_eq_3 swap_attempts_Suc act_bind_apply)
  qed
qed

lemma merge_gone:
  assumes "env_keeps (\<lambda>s. good s \<and> P (seen s)) w" "\<And>v. P v \<Longrightarrow> fst v old_id = None"
    and "merge_concurrent_writes ser (disturbed_store st) cfg si old_id w = (r, si', w')"
  shows "traced good seen P (=) w w' \<and> si' = si"
proof (cases "loaded_base si")
  case None
  with assms(1,3) show ?thesis
    using traced_refl [of good P seen w "(=)"] by (simp add: merge_concurrent_writes_def)
next
  case (Some base)
  obtain r1 w1 where r1: "disturbed (load st old_id) w = (r1, w1)" by fastforce
  note t = load_step_traced [OF assms(1) r1]
  have "r1 \<noteq> Inr (Some row)" for row using t(2) assms(2) by fastforce
  with r1 t(1) Some assms(3) show ?thesis
    by (auto simp: merge_concurrent_writes_def split: sum.splits option.splits)
qed

lemma cycle_rounds_gone:
  assumes "env_keeps (\<lambda>s. good s \<and> P (seen s)) w" "\<And>v. P v \<Longrightarrow> fst v old_id = None" "0 < cfg_ttl cfg"
    and "cycle_rounds (Suc n) ser (disturbed_store st) cfg old_id new_id True si w = (r, si', w')"
  shows "traced good seen P (=) w w' \<and> (\<forall>x. r = Inr x \<longrightarrow> x = SessionGone) \<and> si' = si"
proof -
  obtain m si1 w1 where m: "merge_concurrent_writes ser (disturbed_store st) cfg si old_id w = (m, si1, w1)"
    by (metis prod_cases3)
  note tm = merge_gone [OF assms(1,2) m]
  show ?thesis
  proof (cases m)
    case (Inl e)
    with m tm assms(4) show ?thesis by auto
  next
    case (Inr checked)
    obtain rc w2 where rc: "disturbed (case checked of
          Some e \<Rightarrow> cycle_if_revision st old_id new_id (data si1) (cfg_ttl cfg) True e
        | None \<Rightarrow> cycle st old_id new_id (data si1) (cfg_ttl cfg) True) w1 = (rc, w2)" by fastforce
    have env1: "env_keeps (\<lambda>s. good s \<and> P (seen s)) w1" using tm by (blast intro: traced_env)
    from cycle_gone [OF env1 assms(2,3) rc]
    have tc: "traced good seen P (=) w1 w2" "\<forall>x. rc = Inr x \<longrightarrow> x = SessionGone" by simp_all
    from rc have call: "(case checked of
          Some e \<Rightarrow> cycle_if_revision (disturbed_store st) old_id new_id (data si1) (cfg_ttl cfg) True e w1
        | None \<Rightarrow> cycle (disturbed_store st) old_id new_id (data si1) (cfg_ttl cfg) True w1) = (rc, w2)"
      by (cases checked) simp_all
    have "rc \<noteq> Inr CycleConflict" using tc(2) by auto
    with m Inr call assms(4) have "r = rc" "w' = w2" "si' = si1" by simp_all
    with tm tc traced_trans [of good seen P "(=)" w w1 w2] show ?thesis by simp
  qed
qed

lemma cycle_session_gone:
  assumes "env_keeps (\<lambda>s. good s \<and> P (seen s)) w" "\<And>v. P v \<Longrightarrow> fst v (fst (retire_id si)) = None"
    and "0 < cfg_ttl cfg" "existing \<noteq> None"
    and "cycle_session ser (disturbed_store st) cfg si existing w = (cy, si', w')"
  shows "traced good seen P (=) w w' \<and> cy_rotation cy = None \<and> data si' = session_data_default"
proof -
  obtain old_id si1 where si1: "retire_id si = (old_id, si1)" by fastforce
  obtain r si2 w1 where r: "cycle_rounds CYCLE_ATTEMPTS ser (disturbed_store st) cfg old_id (inner_id si1) True si1 w =
      (r, si2, w1)" by (metis prod_cases3)
  have gone: "P v \<Longrightarrow> fst v old_id = None" for v using assms(2) [of v] si1 by simp
  have "Suc 3 = CYCLE_ATTEMPTS" by simp
  from cycle_rounds_gone [OF assms(1) gone assms(3) r [folded this]]
  have t: "traced good seen P (=) w w1" "\<forall>x. r = Inr x \<longrightarrow> x = SessionGone" by simp_all
  obtain rd w2 where rd: "disturbed (delete st old_id) w1 = (rd, w2)" by fastforce
  have "P v \<Longrightarrow> on_table (spec_delete old_id) v = ((), v)" for v
    using gone [of v] by (simp add: spec_delete_def on_table_def case_prod_beta fun_upd_idem)
  then have "P v \<Longrightarrow> P (snd (on_table (spec_delete old_id) v)) \<and> v = v \<and>
      v = snd (on_table (spec_delete old_id) v)" for v by simp
  from disturbed_traced [OF delete_step traced_env [OF t(1)] rd, of "(=)", OF this]
  have "traced good seen P (=) w1 w2" by blast
  from traced_trans [OF t(1) this] t si1 r rd assms(4,5) show ?thesis
    by (auto simp: cycle_session_def Let_def split: sum.splits)
qed

lemma finalize_gone:
  assumes "env_keeps (\<lambda>s. good s \<and> P (seen s)) w" "0 < cfg_ttl cfg" "existing \<noteq> None"
    and "\<And>v. P v \<Longrightarrow> fst v (case pre_cycle_id si of Some old \<Rightarrow> old | None \<Rightarrow> inner_id si) = None"
    and "pre_cycle_id si \<noteq> None \<Longrightarrow> regenerate si"
    and "finalize_session ser lim (disturbed_store st) cfg now si existing w = (fo, si', w')"
  shows "traced good seen P (=) w w' \<and> fo_rotation fo = None \<and>
    (session_changed fo \<longrightarrow> data si' = session_data_default)"
proof -
  let ?si1 = "stamped ser cfg now si" and ?due = "touch_due lim cfg now si existing"
  consider (idle) "\<not> (modified si \<or> regenerate si \<or> ?due)" | (rotate) "regenerate si"
    | (stored) "\<not> regenerate si" "modified si \<or> ?due" by blast
  then show ?thesis
  proof cases
    case idle
    with assms(3,6) have "w' = w" "fo_rotation fo = None" "\<not> session_changed fo"
      by (auto simp: finalize_idle)
    with traced_refl [of good P seen w "(=)", OF assms(1)] show ?thesis by simp
  next
    case rotate
    obtain cy si2 w2 where cy: "cycle_session ser (disturbed_store st) cfg ?si1 existing w = (cy, si2, w2)"
      by (metis prod_cases3)
    have "P v \<Longrightarrow> fst v (fst (retire_id ?si1)) = None" for v
      using assms(4) [of v] by (simp add: retire_id_def case_prod_beta split: option.splits)
    from cycle_session_gone [OF assms(1) this assms(2,3) cy] cy assms(6) show ?thesis
      by (auto simp: finalize_rotate [OF rotate])
  next
    case stored
    have row: "P v \<Longrightarrow> fst v (inner_id ?si1) = None" for v
      using assms(4) [of v] assms(5) stored(1) by (auto split: option.splits)
    obtain r si2 w2 where r: "write_stored ser (disturbed_store st) cfg ?due ?si1 (revision (data si)) w = (r, si2, w2)"
      by (metis prod_cases3)
    have "traced good seen P (=) w w2 \<and> (\<forall>x. r = Inr x \<longrightarrow> x = Gone)"
    proof (cases ?due)
      case True
      with r have "disturbed (update_if_revision st (inner_id ?si1) (revision (data si)) (data ?si1) (cfg_ttl cfg)) w =
          (r, w2)"
        by (auto simp: write_stored_def case_prod_beta)
      from update_gone [OF assms(1) row this] show ?thesis .
    next
      case False
      with r have "write_changes ser (disturbed_store st) cfg ?si1 (revision (data si)) w = (r, si2, w2)"
        by (simp add: write_stored_def)
      from write_changes_gone [OF assms(1) row this] show ?thesis by blast
    qed
    with r assms(6) show ?thesis
      by (auto simp: finalize_stored [OF stored(1) assms(3) stored(2)] after_write_def)
  qed
qed

end

subsection \<open>A rotation among other requests\<close>

text \<open>
  What a request that left a key alone holds for it: the value of the row it stands on, or
  nothing (when it removed the key or the size cap cleared the bag).
\<close>

definition left_alone :: "string \<Rightarrow> session_data \<Rightarrow> session_data \<Rightarrow> bool" where
  "left_alone k base d \<longleftrightarrow>
     json_get (custom d) k = json_get (custom base) k \<or> json_get (custom d) k = None"

lemma json_get_cap: "json_get (cap_custom ser n bag) k = json_get bag k \<or> json_get (cap_custom ser n bag) k = None"
  using cap_custom_cases [of ser n bag] by auto

lemma left_alone_merged: "left_alone k base loc \<Longrightarrow> left_alone k fresh (merged_for_rotation ser cfg base loc fresh)"
  using json_get_cap [of ser "cfg_max_custom_bytes cfg" "custom (merge_rotating base loc fresh)" k]
  by (auto simp: left_alone_def merged_for_rotation_def merge_rotating_def merge_data_def
      json_get_merge_custom Let_def split: if_splits)

lemma left_alone_stamped: "left_alone k base (data si) \<Longrightarrow> left_alone k base (data (stamped ser cfg now si))"
  using json_get_cap [of ser "cfg_max_custom_bytes cfg" "custom_of si" k] by (auto simp: left_alone_def)

text \<open>What a rotation may do to the table: nothing, remove the old row, or move a live one.\<close>

definition moves_row ::
  "session_id \<Rightarrow> session_id \<Rightarrow> table \<times> registrations \<Rightarrow> table \<times> registrations \<Rightarrow> bool" where
  "moves_row old_id new_id v v' \<longleftrightarrow> snd v' = snd v \<and>
     (fst v' = fst v \<or> fst v' = (fst v)(old_id := None) \<or>
      fst v old_id \<noteq> None \<and> (\<exists>d. fst v' = (fst v)(old_id := None, new_id \<mapsto> d)))"

lemma moves_row_refl [simp]: "moves_row old_id new_id v v"
  by (simp add: moves_row_def)

text \<open>Each revision of the old row has one content.\<close>

definition one_content :: "(u64 \<Rightarrow> session_data) \<Rightarrow> session_id \<Rightarrow> table \<times> registrations \<Rightarrow> bool" where
  "one_content h sid v \<longleftrightarrow> (\<forall>x. fst v sid = Some x \<longrightarrow> x = h (revision x))"

lemma one_content_moved: "old_id \<noteq> new_id \<Longrightarrow> moves_row old_id new_id v v' \<Longrightarrow> one_content h old_id v \<Longrightarrow> one_content h old_id v'"
  by (auto simp: one_content_def moves_row_def)

text \<open>The request stands on a row of the store's history and left the key alone.\<close>

definition stands_on :: "(u64 \<Rightarrow> session_data) \<Rightarrow> string \<Rightarrow> session_inner \<Rightarrow> session_data \<Rightarrow> bool" where
  "stands_on h k si base \<longleftrightarrow> loaded_base si = Some base \<and> base = h (revision base) \<and> left_alone k base (data si)"

lemma loaded_base_set_loaded: "loaded_base si = Some base \<Longrightarrow> loaded_base (set_loaded d si\<lparr>data := d'\<rparr>) = Some d"
  by (cases "consume si") (simp_all add: loaded_base_def set_loaded_def)

text \<open>Of the table, nothing changes or the row of the new id goes.\<close>

abbreviation drops_new :: "session_id \<Rightarrow> table \<times> registrations \<Rightarrow> table \<times> registrations \<Rightarrow> bool" where
  "drops_new sid v v' \<equiv> fst v' = fst v \<or> fst v' = (fst v)(sid := None)"

context session_services
begin

lemma merge_step:
  assumes "env_keeps (\<lambda>s. good s \<and> one_content h old_id (seen s)) w" "stands_on h k si base"
    and "merge_concurrent_writes ser (disturbed_store st) cfg si old_id w = (r, si', w')"
  shows "traced good seen (one_content h old_id) (=) w w' \<and>
    (\<exists>base'. stands_on h k si' base' \<and> (\<forall>x. r = Inr x \<longrightarrow> x = Some (revision base')))"
proof -
  obtain r1 w1 where r1: "disturbed (load st old_id) w = (r1, w1)" by fastforce
  note t = load_step_traced [OF assms(1) r1]
  from assms(2) have base: "loaded_base si = Some base" by (simp add: stands_on_def)
  show ?thesis
  proof (cases "\<exists>fresh. r1 = Inr (Some fresh) \<and> revision fresh \<noteq> revision base")
    case True
    then obtain fresh where fresh: "r1 = Inr (Some fresh)" "revision fresh \<noteq> revision base" by blast
    from t(2) [OF fresh(1)] have "fresh = h (revision fresh)" by (auto simp: one_content_def)
    with fresh r1 base t(1) assms(2,3) show ?thesis
      by (auto simp: merge_concurrent_writes_def stands_on_def loaded_base_set_loaded left_alone_merged)
  next
    case False
    with r1 base t(1) assms(2,3) show ?thesis
      by (auto simp: merge_concurrent_writes_def split: sum.splits option.splits)
  qed
qed

lemma cycle_call:
  assumes "env_keeps (\<lambda>s. good s \<and> one_content h old_id (seen s)) w" "0 < ttl" "old_id \<noteq> new_id"
    and "disturbed (cycle_if_revision st old_id new_id d ttl True expected) w = (r, w')"
  shows "traced good seen (one_content h old_id) (moves_row old_id new_id) w w'"
    and "r = Inr Rotated \<Longrightarrow> \<exists>a x. effects w' = (a, current w') # effects w \<and>
      fst (seen a) old_id = Some x \<and> x = h expected \<and> snd (seen (current w')) = snd (seen a) \<and>
      fst (seen (current w')) = (fst (seen a))(old_id := None, new_id \<mapsto> d)"
    and "r = Inr CycleConflict \<Longrightarrow> traced good seen (one_content h old_id) (=) w w'"
proof -
  let ?f = "on_table (spec_cycle_if_revision old_id new_id d ttl True expected)"
  have moves: "moves_row old_id new_id v (snd (?f v))" for v
    using assms(2) by (auto simp: moves_row_def spec_cycle_if_revision_def spec_cycle_def on_table_def
        split: prod.splits)
  have "one_content h old_id v \<Longrightarrow> one_content h old_id (snd (?f v)) \<and> moves_row old_id new_id v v \<and>
      moves_row old_id new_id v (snd (?f v))" for v
    using one_content_moved [OF assms(3) moves] by (simp add: moves)
  from disturbed_traced [OF cycle_if_revision_step assms(1,4), of "moves_row old_id new_id", OF this]
  show t: "traced good seen (one_content h old_id) (moves_row old_id new_id) w w'" by blast
  let ?a = "moved 1 w"
  have a: "good ?a" "one_content h old_id (seen ?a)" using env_keeps_moved [OF assms(1)] by simp_all
  note shape = disturbed_shape [OF assms(4)]
  have out: "\<forall>x. r = Inr x \<longrightarrow> (x, seen (current w')) = ?f (seen ?a)"
    using implements_outcome [OF cycle_if_revision_step a(1), where r = r and c = "current w'"] shape by blast
  {
    assume "r = Inr Rotated"
    with out have "?f (seen ?a) = (Rotated, seen (current w'))" by simp
    then obtain x where x: "fst (seen ?a) old_id = Some x" "revision x = expected"
      "seen (current w') = ((fst (seen ?a))(old_id := None, new_id \<mapsto> d), snd (seen ?a))"
      using assms(2) by (auto simp: spec_cycle_if_revision_def spec_cycle_def on_table_def
          split: prod.splits if_splits)
    with a(2) have "x = h expected" by (auto simp: one_content_def)
    with x shape show "\<exists>a x. effects w' = (a, current w') # effects w \<and>
      fst (seen a) old_id = Some x \<and> x = h expected \<and> snd (seen (current w')) = snd (seen a) \<and>
      fst (seen (current w')) = (fst (seen a))(old_id := None, new_id \<mapsto> d)"
      by (intro exI [of _ ?a] exI [of _ x]) simp
  next
    assume "r = Inr CycleConflict"
    with out have "?f (seen ?a) = (CycleConflict, seen (current w'))" by simp
    then have "seen (current w') = seen ?a"
      by (auto simp: spec_cycle_if_revision_def spec_cycle_def on_table_def split: prod.splits if_splits)
    with shape traced_env [OF t] show "traced good seen (one_content h old_id) (=) w w'"
      unfolding traced_def by (intro conjI exI [of _ "[(?a, current w')]"]) auto
  }
qed

lemma cycle_rounds_moves:
  assumes "env_keeps (\<lambda>s. good s \<and> one_content h old_id (seen s)) w" "stands_on h k si base"
    and "0 < cfg_ttl cfg" "old_id \<noteq> new_id"
    and "cycle_rounds n ser (disturbed_store st) cfg old_id new_id True si w = (r, si', w')"
  shows "traced good seen (one_content h old_id) (moves_row old_id new_id) w w' \<and>
    (r = Inr Rotated \<longrightarrow> (\<exists>a es x. effects w' = (a, current w') # es @ effects w \<and>
       (\<forall>(p, q) \<in> set es. seen p = seen q) \<and> fst (seen a) old_id = Some x \<and>
       snd (seen (current w')) = snd (seen a) \<and>
       fst (seen (current w')) = (fst (seen a))(old_id := None, new_id \<mapsto> data si') \<and>
       left_alone k x (data si')))"
  using assms
proof (induction n arbitrary: si base w)
  case 0
  then show ?case using traced_refl [of good "one_content h old_id" seen w "moves_row old_id new_id"] by auto
next
  case (Suc n)
  let ?P = "one_content h old_id"
  obtain m si1 w1 where m: "merge_concurrent_writes ser (disturbed_store st) cfg si old_id w = (m, si1, w1)"
    by (metis prod_cases3)
  from merge_step [OF Suc.prems(1,2) m] obtain base1 where t1: "traced good seen ?P (=) w w1"
    and base1: "stands_on h k si1 base1" "\<forall>x. m = Inr x \<longrightarrow> x = Some (revision base1)" by blast
  have t1R: "traced good seen ?P (moves_row old_id new_id) w w1" by (rule traced_mono [OF t1]) simp
  show ?case
  proof (cases m)
    case (Inl e)
    with m t1R Suc.prems(5) show ?thesis by auto
  next
    case (Inr checked)
    with base1 have checked: "checked = Some (revision base1)" by simp
    obtain rc w2 where rc: "disturbed (cycle_if_revision st old_id new_id (data si1) (cfg_ttl cfg) True
        (revision base1)) w1 = (rc, w2)" by fastforce
    note call = cycle_call [OF traced_env [OF t1] Suc.prems(3,4) rc]
    have t2R: "traced good seen ?P (moves_row old_id new_id) w w2" by (rule traced_trans [OF t1R call(1)])
    show ?thesis
    proof (cases "rc = Inr CycleConflict")
      case True
      with m Inr checked rc Suc.prems(5)
      have rest: "cycle_rounds n ser (disturbed_store st) cfg old_id new_id True si1 w2 = (r, si', w')" by simp
      note IH = Suc.IH [OF traced_env [OF t2R] base1(1) Suc.prems(3,4) rest]
      have quiet: "traced good seen ?P (=) w w2" by (rule traced_trans [OF t1 call(3) [OF True]])
      then obtain es where es: "effects w2 = es @ effects w" "\<forall>(p, q) \<in> set es. seen p = seen q"
        by (rule traced_effects)
      show ?thesis
      proof (intro conjI impI)
        show "traced good seen ?P (moves_row old_id new_id) w w'" using IH traced_trans [OF t2R] by blast
        assume "r = Inr Rotated"
        with IH obtain a es' x where run: "effects w' = (a, current w') # es' @ effects w2"
          "\<forall>(p, q) \<in> set es'. seen p = seen q" "fst (seen a) old_id = Some x"
          "snd (seen (current w')) = snd (seen a)"
          "fst (seen (current w')) = (fst (seen a))(old_id := None, new_id \<mapsto> data si')"
          "left_alone k x (data si')" by blast
        show "\<exists>a es x. effects w' = (a, current w') # es @ effects w \<and>
          (\<forall>(p, q) \<in> set es. seen p = seen q) \<and> fst (seen a) old_id = Some x \<and>
          snd (seen (current w')) = snd (seen a) \<and>
          fst (seen (current w')) = (fst (seen a))(old_id := None, new_id \<mapsto> data si') \<and>
          left_alone k x (data si')"
          by (intro exI [of _ a] exI [of _ "es' @ es"] exI [of _ x]) (use run es in auto)
      qed
    next
      case False
      with m Inr checked rc Suc.prems(5) have res: "r = rc" "si' = si1" "w' = w2" by auto
      from t1 obtain es where es: "effects w1 = es @ effects w" "\<forall>(p, q) \<in> set es. seen p = seen q"
        by (rule traced_effects)
      show ?thesis
      proof (intro conjI impI)
        show "traced good seen ?P (moves_row old_id new_id) w w'" using t2R res by simp
        assume "r = Inr Rotated"
        with call(2) res obtain a x where run: "effects w' = (a, current w') # effects w1"
          "fst (seen a) old_id = Some x" "x = h (revision base1)" "snd (seen (current w')) = snd (seen a)"
          "fst (seen (current w')) = (fst (seen a))(old_id := None, new_id \<mapsto> data si')" by blast
        from base1(1) run(3) have "x = base1" by (simp add: stands_on_def)
        with base1(1) res have "left_alone k x (data si')" by (simp add: stands_on_def)
        with run es show "\<exists>a es x. effects w' = (a, current w') # es @ effects w \<and>
          (\<forall>(p, q) \<in> set es. seen p = seen q) \<and> fst (seen a) old_id = Some x \<and>
          snd (seen (current w')) = snd (seen a) \<and>
          fst (seen (current w')) = (fst (seen a))(old_id := None, new_id \<mapsto> data si') \<and>
          left_alone k x (data si')"
          by (intro exI [of _ a] exI [of _ es] exI [of _ x]) simp
      qed
    qed
  qed
qed

lemma rotation_moves:
  assumes "env_keeps (\<lambda>s. good s \<and> one_content h (fst (retire_id si)) (seen s)) w"
    and "regenerate si" "existing \<noteq> None" "0 < cfg_ttl cfg"
    and "fst (retire_id si) \<noteq> inner_id (snd (retire_id si))" "stands_on h k si base"
    and "finalize_session ser lim (disturbed_store st) cfg now si existing w = (fo, si', w')"
  shows "traced good seen (one_content h (fst (retire_id si)))
      (moves_row (fst (retire_id si)) (inner_id (snd (retire_id si)))) w w' \<and>
    final_id fo = inner_id (snd (retire_id si)) \<and>
    (data si' = session_data_default \<and> fo_rotation fo = None \<or>
     (\<exists>a es x. effects w' = (a, current w') # es @ effects w \<and>
       (\<forall>(p, q) \<in> set es. seen p = seen q) \<and> fst (seen a) (fst (retire_id si)) = Some x \<and>
       snd (seen (current w')) = snd (seen a) \<and>
       fst (seen (current w')) = (fst (seen a))(fst (retire_id si) := None, final_id fo \<mapsto> data si') \<and>
       left_alone k x (data si')))"
proof -
  let ?si0 = "stamped ser cfg now si"
  define old_id new_id si1 where "old_id = fst (retire_id si)" "new_id = inner_id (snd (retire_id si))"
    and si1: "si1 = snd (retire_id ?si0)"
  note ids = \<open>old_id = _\<close> \<open>new_id = _\<close>
  have retire: "retire_id ?si0 = (old_id, si1)" "inner_id si1 = new_id"
    by (simp_all add: si1 ids retire_id_def mint_def split: option.split)
  have "loaded_base si1 = loaded_base si" "data si1 = data ?si0"
    by (simp_all add: si1 retire_id_def loaded_base_def mint_def split: option.split)
  with assms(6) have stands: "stands_on h k si1 base" by (simp add: stands_on_def left_alone_stamped)
  obtain r si2 w1 where r: "cycle_rounds CYCLE_ATTEMPTS ser (disturbed_store st) cfg old_id new_id True si1 w =
      (r, si2, w1)" by (metis prod_cases3)
  note run = cycle_rounds_moves [OF assms(1) [folded ids] stands assms(4) assms(5) [folded ids] r]
  then have t: "traced good seen (one_content h old_id) (moves_row old_id new_id) w w1" by blast
  obtain rd w2 where rd: "disturbed (delete st old_id) w1 = (rd, w2)" by fastforce
  have "traced good seen (one_content h old_id) (at_most_removes old_id) w1 w2"
    by (rule delete_step_traced [OF traced_env [OF t] rd]) (simp add: one_content_def)
  then have "traced good seen (one_content h old_id) (moves_row old_id new_id) w1 w2"
    by (rule traced_mono) (unfold moves_row_def, blast)
  from traced_trans [OF t this]
  have t2: "traced good seen (one_content h old_id) (moves_row old_id new_id) w w2" .
  have fin: "finalize_session ser lim (disturbed_store st) cfg now si existing w =
      (case cycle_session ser (disturbed_store st) cfg ?si0 existing w of
        (cy, si2, w') \<Rightarrow>
          (\<lparr>final_id = cy_id cy, session_changed = cy_cookie cy, fo_rotation = cy_rotation cy\<rparr>, si2, w'))"
    by (rule finalize_rotate [OF assms(2)])
  show ?thesis
  proof (cases "r = Inr Rotated")
    case True
    with fin r retire assms(3,7) have "w' = w1" "si' = si2" "final_id fo = new_id"
      by (auto simp: cycle_session_def Let_def)
    with run True show ?thesis unfolding ids [symmetric] by blast
  next
    case False
    with fin r rd retire assms(3,7)
    have "(w' = w1 \<or> w' = w2) \<and> data si' = session_data_default \<and> fo_rotation fo = None \<and> final_id fo = new_id"
      by (cases r) (auto simp: cycle_session_def Let_def split: cycle_outcome.splits)
    with t t2 show ?thesis unfolding ids [symmetric] by blast
  qed
qed

subsection \<open>The registry entry among other requests\<close>

text \<open>A session whose old id is revoked while its id rotates does not go on.\<close>

lemma register_revoked:
  assumes "env_keeps (\<lambda>s. good s \<and> old_id \<notin> set (snd (seen s) u)) w" "old_id \<noteq> new_id"
    and "handle_register (disturbed_registry reg) u new_id w = (b, w')"
  shows "traced good seen (\<lambda>v. old_id \<notin> set (snd v u)) (drops_new new_id) w w'"
proof -
  obtain r where r: "disturbed (reg_register reg u new_id) w = (r, w')"
    using assms(3) by (cases "disturbed (reg_register reg u new_id) w")
      (auto simp: handle_register_def split: sum.splits)
  have "old_id \<notin> set (snd v u) \<Longrightarrow>
      old_id \<notin> set (snd (snd (on_registrations (spec_register u new_id) v)) u) \<and> drops_new new_id v v \<and>
      drops_new new_id v (snd (on_registrations (spec_register u new_id) v))" for v
    using assms(2) by (simp add: spec_register_def)
  from disturbed_traced [OF register_step assms(1) r, of "drops_new new_id", OF this] show ?thesis by blast
qed

lemma end_untracked_revoked:
  assumes "env_keeps (\<lambda>s. good s \<and> old_id \<notin> set (snd (seen s) u)) w"
    and "end_untracked (disturbed_store st) new_id w = (b, w')"
  shows "\<not> b \<and> traced good seen (\<lambda>v. old_id \<notin> set (snd v u)) (drops_new new_id) w w'"
proof -
  obtain r where r: "disturbed (delete st new_id) w = (r, w')" and "\<not> b"
    using assms(2) by (cases "disturbed (delete st new_id) w") (auto simp: end_untracked_def)
  have "traced good seen (\<lambda>v. old_id \<notin> set (snd v u)) (at_most_removes new_id) w w'"
    by (rule delete_step_traced [OF assms(1) r]) simp
  then have "traced good seen (\<lambda>v. old_id \<notin> set (snd v u)) (drops_new new_id) w w'"
    by (rule traced_mono) blast
  with \<open>\<not> b\<close> show ?thesis by simp
qed

lemma end_revoked:
  assumes "env_keeps (\<lambda>s. good s \<and> rot_old_id rot \<notin> set (snd (seen s) (rot_user_id rot))) w"
    and "end_revoked_rotation (disturbed_registry reg) (disturbed_store st) rot w = (b, w')"
  shows "\<not> b \<and> traced good seen (\<lambda>v. rot_old_id rot \<notin> set (snd v (rot_user_id rot)))
    (drops_new (rot_new_id rot)) w w'"
proof -
  let ?u = "rot_user_id rot" and ?old = "rot_old_id rot" and ?new = "rot_new_id rot"
  obtain r w1 where r: "disturbed (reg_invalidate_session reg ?u ?new) w = (r, w1)" by fastforce
  have "?old \<notin> set (snd v ?u) \<Longrightarrow>
      ?old \<notin> set (snd (snd (on_registrations (spec_invalidate_session ?u ?new) v)) ?u) \<and> drops_new ?new v v \<and>
      drops_new ?new v (snd (on_registrations (spec_invalidate_session ?u ?new) v))" for v
    by (simp add: spec_invalidate_session_def)
  from disturbed_traced [OF invalidate_session_step assms(1) r, of "drops_new ?new", OF this]
  have t: "traced good seen (\<lambda>v. ?old \<notin> set (snd v ?u)) (drops_new ?new) w w1" by blast
  have "end_untracked (disturbed_store st) ?new w1 = (b, w')"
    using assms(2) r by (simp add: end_revoked_rotation_def)
  from end_untracked_revoked [OF traced_env [OF t] this] traced_trans [OF t] show ?thesis by blast
qed

lemma retire_revoked:
  assumes "env_keeps (\<lambda>s. good s \<and> rot_old_id rot \<notin> set (snd (seen s) (rot_user_id rot))) w"
    and "retire_old_entry (disturbed_registry reg) (disturbed_store st) rot Reject w = (b, w')"
  shows "\<not> b \<and> traced good seen (\<lambda>v. rot_old_id rot \<notin> set (snd v (rot_user_id rot)))
    (drops_new (rot_new_id rot)) w w'"
proof -
  let ?P = "\<lambda>v. rot_old_id rot \<notin> set (snd v (rot_user_id rot))"
  obtain l w1 where l: "liveness (disturbed_registry reg) (rot_user_id rot) (rot_old_id rot) w = (l, w1)"
    by fastforce
  from liveness_unregistered [where P = ?P, OF assms(1) _ l]
  have l': "l \<noteq> Valid" and t: "traced good seen ?P (=) w w1" by simp_all
  obtain b2 w2 where e: "end_revoked_rotation (disturbed_registry reg) (disturbed_store st) rot w1 = (b2, w2)"
    by fastforce
  from end_revoked [OF traced_env [OF t] e]
  have "\<not> b2" and t2: "traced good seen ?P (drops_new (rot_new_id rot)) w1 w2" by simp_all
  have "traced good seen ?P (drops_new (rot_new_id rot)) w w1" by (rule traced_mono [OF t]) simp
  from traced_trans [OF this t2] \<open>\<not> b2\<close> l l' e assms(2) show ?thesis
    by (cases l) (auto simp: retire_old_entry_def reread_old_id_def)
qed

lemma move_revoked:
  assumes "env_keeps (\<lambda>s. good s \<and> rot_old_id rot \<notin> set (snd (seen s) (rot_user_id rot))) w"
    and "was_authenticated rot" "rot_old_id rot \<noteq> rot_new_id rot"
    and "move_registry_entry (disturbed_store st) (disturbed_registry reg) rot Reject w = (b, w')"
  shows "\<not> b \<and> traced good seen (\<lambda>v. rot_old_id rot \<notin> set (snd v (rot_user_id rot)))
    (drops_new (rot_new_id rot)) w w'"
proof -
  let ?P = "\<lambda>v. rot_old_id rot \<notin> set (snd v (rot_user_id rot))" and ?R = "drops_new (rot_new_id rot)"
  let ?reg = "disturbed_registry reg" and ?st = "disturbed_store st" and ?u = "rot_user_id rot"
  have ended: "\<not> b3 \<and> traced good seen ?P ?R w w3"
    if "traced good seen ?P ?R w w2" "end_untracked ?st (rot_new_id rot) w2 = (b3, w3)" for w2 b3 w3
    using end_untracked_revoked [OF traced_env [OF that(1)] that(2)] traced_trans [OF that(1)] by blast
  obtain l w1 where l: "liveness ?reg ?u (rot_old_id rot) w = (l, w1)" by fastforce
  from liveness_unregistered [where P = ?P, OF assms(1) _ l]
  have l': "l \<noteq> Valid" and t: "traced good seen ?P (=) w w1" by simp_all
  have tR: "traced good seen ?P ?R w w1" by (rule traced_mono [OF t]) simp
  note env1 = traced_env [OF t]
  show ?thesis
  proof (cases l)
    case LivenessGone
    obtain n w2 where n: "liveness ?reg ?u (rot_new_id rot) w1 = (n, w2)" by fastforce
    have tn: "traced good seen ?P ?R w1 w2" using liveness_reads [OF env1 n] by (rule traced_mono) simp
    note t2 = traced_trans [OF tR tn]
    show ?thesis
    proof (cases n)
      case Valid
      with l LivenessGone n assms(2,4)
      have "end_revoked_rotation ?reg ?st rot w2 = (b, w')" by (simp add: move_registry_entry_def Let_def)
      from end_revoked [OF traced_env [OF t2] this] traced_trans [OF t2] show ?thesis by blast
    next
      case LivenessGone
      with \<open>l = LivenessGone\<close> l n assms(4) have "end_untracked ?st (rot_new_id rot) w2 = (b, w')"
        by (simp add: move_registry_entry_def Let_def)
      from ended [OF t2 this] show ?thesis .
    next
      case Unknown
      with LivenessGone l n assms(4) have "end_untracked ?st (rot_new_id rot) w2 = (b, w')"
        by (simp add: move_registry_entry_def on_untracked_def Let_def)
      from ended [OF t2 this] show ?thesis .
    qed
  next
    case Unknown
    obtain ok w2 where ok: "handle_register ?reg ?u (rot_new_id rot) w1 = (ok, w2)" by fastforce
    note t2 = traced_trans [OF tR register_revoked [OF env1 assms(3) ok]]
    show ?thesis
    proof (cases ok)
      case True
      with l Unknown ok assms(4) have "retire_old_entry ?reg ?st rot Reject w2 = (b, w')"
        by (simp add: move_registry_entry_def Let_def)
      from retire_revoked [OF traced_env [OF t2] this] traced_trans [OF t2] show ?thesis by blast
    next
      case False
      with Unknown l ok assms(4) have "end_untracked ?st (rot_new_id rot) w2 = (b, w')"
        by (simp add: move_registry_entry_def on_untracked_def Let_def)
      from ended [OF t2 this] show ?thesis .
    qed
  qed (use l' in simp)
qed

end

subsection \<open>Properties\<close>

text \<open>
  C17. A session that was ended while its request ran stays ended. Once its row is gone and no
  other request puts it back, finalizing a request that ran under it (idle refresh, changes or
  rotation) writes no row at all, whichever calls fail; nothing is registered for it, and a
  cookie is set only by a failed rotation, for a guest.
\<close>

theorem ended_session_is_not_revived:
  assumes "env_keeps (\<lambda>s. mem_services_good s \<and> fst (mem_services_seen s)
      (case pre_cycle_id si of Some old \<Rightarrow> old | None \<Rightarrow> inner_id si) = None) w"
    and "0 < cfg_ttl cfg" and "existing \<noteq> None" and "pre_cycle_id si \<noteq> None \<Longrightarrow> regenerate si"
    and "finalize_session ser lim (disturbed_store mem_services_store) cfg now si existing w = (fo, si', w')"
  shows "(\<exists>es. effects w' = es @ effects w \<and>
      (\<forall>(a, b) \<in> set es. mem_services_seen a = mem_services_seen b)) \<and>
    fo_rotation fo = None \<and> (session_changed fo \<longrightarrow> auth_of si' = Guest)"
proof -
  from mem_svc.finalize_gone [where P = "\<lambda>v. fst v (case pre_cycle_id si of Some old \<Rightarrow> old | None \<Rightarrow> inner_id si) = None",
      OF assms(1,2,3) _ assms(4,5)]
  show ?thesis by (auto simp: session_data_default_def elim!: traced_effects)
qed

theorem ended_session_is_not_revived_witness:
  "let run = finalize_session (\<lambda>_. []) example_limits (disturbed_store mem_services_store) session_config_default 6
         (example_inner 5 session_data_default session_data_default) (Some 5)
         (quiet empty_services :: (memory_services, unit) world)
   in fo_rotation (fst run) = None \<and>
      (\<forall>(a, b) \<in> set (effects (snd (snd run))). mem_services_seen a = mem_services_seen b)"
proof -
  let ?si = "example_inner 5 session_data_default session_data_default"
  let ?w = "quiet empty_services :: (memory_services, unit) world"
  let ?run = "finalize_session (\<lambda>_. []) example_limits (disturbed_store mem_services_store) session_config_default 6
    ?si (Some 5) ?w"
  have "env_keeps (\<lambda>s. mem_services_good s \<and> fst (mem_services_seen s)
      (case pre_cycle_id ?si of Some old \<Rightarrow> old | None \<Rightarrow> inner_id ?si) = None) ?w"
    "0 < cfg_ttl session_config_default" "Some 5 \<noteq> (None :: session_id option)"
    "pre_cycle_id ?si \<noteq> None \<Longrightarrow> regenerate ?si" "?run = (fst ?run, fst (snd ?run), snd (snd ?run))"
    by (simp_all add: example_inner_def session_config_default_def)
  from ended_session_is_not_revived [OF this] show ?thesis
    unfolding Let_def by (auto simp: quiet_def)
qed





end
