(* ===== verification/Session_Requests.thy ===== *)
theory Session_Requests
  imports Session_Finalize
begin

section \<open>From one request to the next\<close>

text \<open>
  What the parts of the session layer give together, on the in-memory services: a rotation moves
  the registry entry, and the session a response sets a cookie for is the session the next
  request loads.
\<close>

subsection \<open>The in-memory services answer every call\<close>

text \<open>A call that never fails does its abstract step.\<close>

definition answers :: "('s \<Rightarrow> bool) \<Rightarrow> ('s \<Rightarrow> 'm) \<Rightarrow> ('s, 'e, 'a) act \<Rightarrow> ('m \<Rightarrow> 'a \<times> 'm) \<Rightarrow> bool" where
  "answers good view m f \<longleftrightarrow> (\<forall>s. good s \<longrightarrow>
     (\<exists>x s'. m s = (Inr x, s') \<and> good s' \<and> f (view s) = (x, view s')))"

lemma answersI:
  assumes "implements good view m f" "\<And>s. \<not> isl (fst (m s))"
  shows "answers good view m f"
  unfolding answers_def
proof (intro allI impI)
  fix s assume "good s"
  from assms(2) [of s] obtain x where x: "fst (m s) = Inr x" by (cases "fst (m s)") simp_all
  with implementsD [OF assms(1) \<open>good s\<close>] have "good (snd (m s))" "(x, view (snd (m s))) = f (view s)" by simp_all
  with x show "\<exists>x s'. m s = (Inr x, s') \<and> good s' \<and> f (view s) = (x, view s')"
    by (intro exI [of _ x] exI [of _ "snd (m s)"]) (simp add: prod_eq_iff)
qed

lemma answersE:
  assumes "answers good view m f" "good s"
  obtains x s' where "m s = (Inr x, s')" "good s'" "f (view s) = (x, view s')"
  using assms unfolding answers_def by blast

lemma mem_ops_answer:
  "\<not> isl (fst (load mem_store sid s))" "\<not> isl (fst (save mem_store sid d ttl s))"
  "\<not> isl (fst (delete mem_store sid s))"
  "\<not> isl (fst (update_if_revision mem_store sid expected d ttl s))"
  "\<not> isl (fst (cycle mem_store old_id new_id d ttl require_old s))"
  "\<not> isl (fst (reg_register mem_registry u sid r))" "\<not> isl (fst (reg_is_valid mem_registry u sid r))"
  "\<not> isl (fst (reg_invalidate_session mem_registry u sid r))"
  by (simp_all add: mem_load_def mem_save_def mem_delete_def cas_by_revision_def mem_cas_attempts
      mem_cycle_def mem_registry_def mreg_register_def mreg_is_valid_def mreg_invalidate_session_def Let_def
      split: option.split prod.split)

lemma on_fst_answer: "(\<And>s. \<not> isl (fst (m s))) \<Longrightarrow> \<not> isl (fst (on_fst m v))"
  by (cases v) (simp add: on_fst_def case_prod_beta)

lemma on_snd_answer: "(\<And>s. \<not> isl (fst (m s))) \<Longrightarrow> \<not> isl (fst (on_snd m v))"
  by (cases v) (simp add: on_snd_def case_prod_beta)

lemma mem_services_answer:
  "answers mem_services_good mem_services_seen (load mem_services_store sid) (on_table (spec_load sid))"
  "answers mem_services_good mem_services_seen (save mem_services_store sid d ttl) (on_table (spec_save sid d ttl))"
  "answers mem_services_good mem_services_seen (delete mem_services_store sid) (on_table (spec_delete sid))"
  "answers mem_services_good mem_services_seen (cycle mem_services_store old_id new_id d ttl require_old)
     (on_table (spec_cycle old_id new_id d ttl require_old))"
  "answers mem_services_good mem_services_seen (reg_register mem_services_registry u sid)
     (on_registrations (spec_register u sid))"
  "answers mem_services_good mem_services_seen (reg_is_valid mem_services_registry u sid)
     (on_registrations (spec_is_valid u sid))"
  "answers mem_services_good mem_services_seen (reg_invalidate_session mem_services_registry u sid)
     (on_registrations (spec_invalidate_session u sid))"
  by (rule answersI, rule mem_svc.load_step mem_svc.save_step mem_svc.delete_step mem_svc.cycle_step mem_svc.register_step
        mem_svc.is_valid_step mem_svc.invalidate_session_step,
      simp only: mem_services_store_def mem_services_registry_def store_on_fst_sel registry_on_snd_sel,
      rule on_fst_answer on_snd_answer, rule mem_ops_answer)+

lemma mem_services_is_valid:
  assumes "mem_services_good w"
  obtains w' where "reg_is_valid (mem_services_registry :: (memory_services, 'e) session_registry) u sid w = (Inr (sid \<in> set (snd (mem_services_seen w) u)), w')"
    "mem_services_good w'" "mem_services_seen w' = mem_services_seen w"
proof -
  from mem_services_answer(6) assms obtain x w' where run: "reg_is_valid (mem_services_registry :: (memory_services, 'e) session_registry) u sid w = (Inr x, w')"
    "mem_services_good w'" "on_registrations (spec_is_valid u sid) (mem_services_seen w) = (x, mem_services_seen w')"
    by (rule answersE)
  from run(3) have "x = (sid \<in> set (snd (mem_services_seen w) u))" "mem_services_seen w' = mem_services_seen w"
    by (auto simp: on_registrations_def spec_is_valid_def case_prod_beta)
  with run that show thesis by simp
qed

subsection \<open>The registry entry moves with the session\<close>

lemma retire_valid_entry:
  assumes "mem_services_good w" "rot_old_id rot \<in> set (snd (mem_services_seen w) (rot_user_id rot))"
  obtains w' where "retire_old_entry (mem_services_registry :: (memory_services, 'e) session_registry) mem_services_store rot unknown w = (True, w')"
    "mem_services_good w'" "mem_services_seen w' = (fst (mem_services_seen w), (snd (mem_services_seen w))
       (rot_user_id rot := filter (\<lambda>s. s \<noteq> rot_old_id rot) (snd (mem_services_seen w) (rot_user_id rot))))"
proof -
  let ?reg = "mem_services_registry :: (memory_services, 'e) session_registry"
  obtain w1 where w1: "reg_is_valid ?reg (rot_user_id rot) (rot_old_id rot) w =
      (Inr (rot_old_id rot \<in> set (snd (mem_services_seen w) (rot_user_id rot))), w1)"
    "mem_services_good w1" "mem_services_seen w1 = mem_services_seen w"
    by (rule mem_services_is_valid [OF assms(1)])
  obtain x w2 where w2: "reg_invalidate_session ?reg (rot_user_id rot) (rot_old_id rot) w1 = (Inr x, w2)"
    "mem_services_good w2" "on_registrations (spec_invalidate_session (rot_user_id rot) (rot_old_id rot))
       (mem_services_seen w1) = (x, mem_services_seen w2)"
    by (rule answersE [OF mem_services_answer(7) w1(2)])
  from w2(3) w1(3) have "mem_services_seen w2 = (fst (mem_services_seen w), (snd (mem_services_seen w))
       (rot_user_id rot := filter (\<lambda>s. s \<noteq> rot_old_id rot) (snd (mem_services_seen w) (rot_user_id rot))))"
    by (simp add: on_registrations_def spec_invalidate_session_def case_prod_beta)
  with w1 w2 assms(2) that show thesis
    by (simp add: retire_old_entry_def reread_old_id_def liveness_answered answered_def)
qed

text \<open>
  C20. A session that stays authenticated keeps its place in the registry under its new id: when
  the registry holds the old id and not yet the new one, moving the entry succeeds, the user's
  sessions are the same with the old id gone and the new one last, and neither other users'
  sessions nor any stored row change.
\<close>

theorem rotation_moves_the_registry_entry:
  assumes "mem_services_good w" and "fo_rotation fo = Some rot" and "rot_old_id rot \<noteq> rot_new_id rot"
    and "rot_old_id rot \<in> set (snd (mem_services_seen w) (rot_user_id rot))"
    and "rot_new_id rot \<notin> set (snd (mem_services_seen w) (rot_user_id rot))"
    and "settle_registry mem_services_store
      (Some (mem_services_registry :: (memory_services, 'e) session_registry)) unknown fo w = (registered, w')"
  shows "registered \<and> fst (mem_services_seen w') = fst (mem_services_seen w) \<and>
    snd (mem_services_seen w') = (snd (mem_services_seen w))(rot_user_id rot :=
      filter (\<lambda>s. s \<noteq> rot_old_id rot) (snd (mem_services_seen w) (rot_user_id rot)) @ [rot_new_id rot])"
proof -
  let ?u = "rot_user_id rot" and ?g = "snd (mem_services_seen w)"
  let ?reg = "mem_services_registry :: (memory_services, 'e) session_registry"
  obtain w1 where w1: "reg_is_valid ?reg ?u (rot_old_id rot) w =
      (Inr (rot_old_id rot \<in> set (?g ?u)), w1)" "mem_services_good w1" "mem_services_seen w1 = mem_services_seen w"
    by (rule mem_services_is_valid [OF assms(1)])
  obtain x w2 where w2: "reg_register ?reg ?u (rot_new_id rot) w1 = (Inr x, w2)"
    "mem_services_good w2" "on_registrations (spec_register ?u (rot_new_id rot)) (mem_services_seen w1) =
       (x, mem_services_seen w2)"
    by (rule answersE [OF mem_services_answer(5) w1(2)])
  from w2(3) w1(3) assms(5) have seen2: "mem_services_seen w2 =
      (fst (mem_services_seen w), ?g(?u := ?g ?u @ [rot_new_id rot]))"
    by (simp add: on_registrations_def spec_register_def case_prod_beta)
  then have "rot_old_id rot \<in> set (snd (mem_services_seen w2) ?u)" using assms(4) by simp
  from retire_valid_entry [OF w2(2) this, of unknown] obtain w3 where
    w3: "retire_old_entry ?reg mem_services_store rot unknown w2 = (True, w3)"
    "mem_services_seen w3 = (fst (mem_services_seen w2), (snd (mem_services_seen w2))
       (?u := filter (\<lambda>s. s \<noteq> rot_old_id rot) (snd (mem_services_seen w2) ?u)))" by blast
  have "settle_registry mem_services_store (Some ?reg) unknown fo w = (True, w3)"
    using assms(2,4) w1(1) w2(1) w3(1)
    by (simp add: settle_registry_def move_registry_entry_def liveness_answered answered_def
        handle_register_def Let_def)
  with assms(3,6) w3(2) seen2 show ?thesis by simp
qed

theorem rotation_moves_the_registry_entry_witness:
  "let rot = \<lparr>was_authenticated = True, rot_user_id = 9, rot_old_id = 5, rot_new_id = 6\<rparr>;
       fo = \<lparr>final_id = 6, session_changed = True, fo_rotation = Some rot\<rparr>;
       w = snd (reg_register mem_services_registry 9 5 (example_services 6 session_data_default)
             :: (unit + unit) \<times> memory_services);
       run = settle_registry (mem_services_store :: (memory_services, unit) session_store)
         (Some mem_services_registry) Reject fo w
   in fst run \<and> snd (mem_services_seen (snd run)) 9 = [6]"
proof -
  let ?rot = "\<lparr>was_authenticated = True, rot_user_id = 9, rot_old_id = 5, rot_new_id = 6\<rparr>"
  let ?fo = "\<lparr>final_id = 6, session_changed = True, fo_rotation = Some ?rot\<rparr>"
  let ?s = "example_services 6 session_data_default"
  obtain x w where w: "reg_register mem_services_registry 9 5 ?s = ((Inr x, w) :: (unit + unit) \<times> memory_services)"
    "mem_services_good w" "on_registrations (spec_register 9 5) (mem_services_seen ?s) = (x, mem_services_seen w)"
    by (rule answersE [OF mem_services_answer(5) example_services_good])
  from arg_cong [OF w(3), of "\<lambda>v. snd (snd v) 9"] have "snd (mem_services_seen w) 9 = [5]"
    by (simp add: spec_register_def)
  with rotation_moves_the_registry_entry [where 'e = unit, OF w(2), of ?fo ?rot Reject, OF _ _ _ _ surjective_pairing] w(1)
  show ?thesis by (simp add: Let_def)
qed

text \<open>
  What the re-read of the old id does not cover: a revocation that lands between that read and the
  retirement of the old id. A revocation of all the user's sessions removes the new id too, so the
  next request finds it; a revocation of the old id alone is lost, and the new id stays valid.
\<close>

abbreviation late_rotation ::
  "(memory_services \<Rightarrow> memory_services) \<Rightarrow> bool \<times> (memory_services, unit) world" where
  "late_rotation revoke \<equiv>
     (let rot = \<lparr>was_authenticated = True, rot_user_id = 9, rot_old_id = 5, rot_new_id = 6\<rparr>;
          fo = \<lparr>final_id = 6, session_changed = True, fo_rotation = Some rot\<rparr>;
          late = \<lparr>before = revoke, fault = None, landed = True\<rparr>
      in settle_registry (disturbed_store mem_services_store)
           (Some (disturbed_registry mem_services_registry)) Reject fo
           \<lparr>current = snd (reg_register mem_services_registry 9 5 (example_services 6 session_data_default)
              :: (unit + unit) \<times> memory_services), ahead = [calm, calm, calm, late], effects = []\<rparr>)"

theorem late_revocation_of_old_id_is_missed:
  "let run = late_rotation (\<lambda>s. snd (reg_invalidate_session mem_services_registry 9 5 s :: (unit + unit) \<times> _))
   in fst run \<and> snd (mem_services_seen (current (snd run))) 9 = [6]"
  by code_simp

theorem late_revocation_of_all_is_kept:
  "let run = late_rotation (\<lambda>s. snd (reg_invalidate_user mem_services_registry 9 s :: (unit + unit) \<times> _))
   in snd (mem_services_seen (current (snd run))) 9 = []"
  by code_simp

subsection \<open>A session and the next request\<close>

text \<open>
  Without a stored session to keep, finalizing a login writes the row the cookie will name, under
  the id minted for it.
\<close>

lemma finalize_login:
  assumes "mem_services_good w" and "0 < cfg_ttl cfg" and "regenerate si" and "pre_cycle_id si = Some old_id"
    and "old_id \<noteq> inner_id si" and "loaded_base si = None" and "auth_of si = Authenticated a"
    and "finalize_session ser lim (mem_services_store :: (memory_services, 'e) session_store) cfg now si None w = (fo, si', w')"
  shows "fo = \<lparr>final_id = inner_id si, session_changed = True,
      fo_rotation = Some \<lparr>was_authenticated = False, rot_user_id = ad_user_id a,
                          rot_old_id = old_id, rot_new_id = inner_id si\<rparr>\<rparr>"
    and "data si' = data (stamped ser cfg now si)" and "mem_services_good w'"
    and "fst (mem_services_seen w') (inner_id si) = Some (data si')"
    and "snd (mem_services_seen w') = snd (mem_services_seen w)"
proof -
  let ?si = "(stamped ser cfg now si)\<lparr>pre_cycle_id := None\<rparr>"
  have si: "retire_id (stamped ser cfg now si) = (old_id, ?si)" "loaded_base ?si = None"
    "authenticated_user_id (auth_of ?si) = Some (ad_user_id a)"
    using assms(4,6,7) by (auto simp: retire_id_def loaded_base_def split: option.splits)
  obtain x w1 where w1: "cycle (mem_services_store :: (memory_services, 'e) session_store) old_id (inner_id si) (data ?si)
      (cfg_ttl cfg) False w = (Inr x, w1)" "mem_services_good w1"
    "on_table (spec_cycle old_id (inner_id si) (data ?si) (cfg_ttl cfg) False) (mem_services_seen w) =
       (x, mem_services_seen w1)"
    by (rule answersE [OF mem_services_answer(4) assms(1)])
  from w1(3) assms(2) have "x = Rotated" and seen: "mem_services_seen w1 =
      ((fst (mem_services_seen w))(old_id := None, inner_id si \<mapsto> data ?si), snd (mem_services_seen w))"
    by (auto simp: on_table_def spec_cycle_def case_prod_beta)
  with w1 have "cycle_rounds CYCLE_ATTEMPTS ser (mem_services_store :: (memory_services, 'e) session_store) cfg
      old_id (inner_id ?si) False ?si w = (Inr Rotated, ?si, w1)"
    by (simp add: numeral_eq_Suc)
  with si assms(5,8) have run: "fo = \<lparr>final_id = inner_id si, session_changed = True,
      fo_rotation = Some \<lparr>was_authenticated = False, rot_user_id = ad_user_id a,
                          rot_old_id = old_id, rot_new_id = inner_id si\<rparr>\<rparr>" "si' = ?si" "w' = w1"
    by (auto simp: finalize_rotate [OF assms(3)] cycle_session_def Let_def)
  then show "fo = \<lparr>final_id = inner_id si, session_changed = True,
      fo_rotation = Some \<lparr>was_authenticated = False, rot_user_id = ad_user_id a,
                          rot_old_id = old_id, rot_new_id = inner_id si\<rparr>\<rparr>" by simp
  from run w1(2) seen show "data si' = data (stamped ser cfg now si)" "mem_services_good w'"
    "fst (mem_services_seen w') (inner_id si) = Some (data si')"
    "snd (mem_services_seen w') = snd (mem_services_seen w)"
    by simp_all
qed

text \<open>A row that is stored, registered, young enough and bound to the client is given back.\<close>

lemma load_registered:
  assumes "mem_services_good w" and "fst (mem_services_seen w) sid = Some row"
    and "auth_state row = Authenticated a" and "sid \<in> set (snd (mem_services_seen w) (ad_user_id a))"
    and "pol_registry pol = Some (mem_services_registry :: (memory_services, 'e) session_registry)"
    and "\<not> outlived pol (max_authenticated_age cfg) (authn_time a)"
    and "\<forall>imp. ad_impersonator a = Some imp \<longrightarrow> \<not> outlived pol (max_impersonation_age cfg) (since imp)"
    and "bound_to fps row" and "presented_cookie c ring cfg to_str headers = Some v" and "verified_id v = sid"
  shows "let lo = fst (load_session mem_services_store c ring cfg to_str headers fps r pol w)
    in existing_id lo = Some sid \<and> lo_id lo = sid \<and> auth_state (lo_data lo) = Authenticated a \<and>
       custom (lo_data lo) = custom row \<and> revision (lo_data lo) = revision row"
proof -
  obtain x w1 where w1: "load (mem_services_store :: (memory_services, 'e) session_store) sid w = (Inr x, w1)"
    "mem_services_good w1" "on_table (spec_load sid) (mem_services_seen w) = (x, mem_services_seen w1)"
    by (rule answersE [OF mem_services_answer(1) assms(1)])
  from w1(3) assms(2) have x: "x = Some row" and seen: "mem_services_seen w1 = mem_services_seen w"
    by (auto simp: on_table_def spec_load_def case_prod_beta)
  obtain w2 where w2: "reg_is_valid (mem_services_registry :: (memory_services, 'e) session_registry) (ad_user_id a) sid w1 =
      (Inr (sid \<in> set (snd (mem_services_seen w1) (ad_user_id a))), w2)"
    by (rule mem_services_is_valid [OF w1(2)])
  have "load_stored_session (mem_services_store :: (memory_services, 'e) session_store) (verified_id v) cfg pol w =
    (\<lparr>ss_existing_id = Some sid, ss_data = fst (migrate row), ss_loaded_row = Some row, ss_session_ended = False\<rparr>, w2)"
    using w1(1) x w2 seen assms(3-7,10)
    by (auto simp: load_stored_session_def authenticated_session_verdict_def liveness_answered answered_def
        Let_def split: option.split)
  from load_session_kept [OF assms(9) this, of fps r] assms(3,8) show ?thesis
    by (simp add: Let_def checked_row)
qed

text \<open>The id a login registered under is where settling the registry leaves it.\<close>

lemma settle_login:
  assumes "mem_services_good w" and "fo_rotation fo = Some rot" and "\<not> was_authenticated rot"
    and "rot_old_id rot \<notin> set (snd (mem_services_seen w) (rot_user_id rot))"
    and "rot_new_id rot \<in> set (snd (mem_services_seen w) (rot_user_id rot))"
  obtains w' where "settle_registry mem_services_store
      (Some (mem_services_registry :: (memory_services, 'e) session_registry)) unknown fo w = (True, w')"
    "mem_services_good w'" "mem_services_seen w' = mem_services_seen w"
proof -
  let ?u = "rot_user_id rot" and ?reg = "mem_services_registry :: (memory_services, 'e) session_registry"
  obtain w1 where w1: "reg_is_valid ?reg ?u (rot_old_id rot) w =
      (Inr (rot_old_id rot \<in> set (snd (mem_services_seen w) ?u)), w1)"
    "mem_services_good w1" "mem_services_seen w1 = mem_services_seen w"
    by (rule mem_services_is_valid [OF assms(1)])
  obtain w2 where w2: "reg_is_valid ?reg ?u (rot_new_id rot) w1 =
      (Inr (rot_new_id rot \<in> set (snd (mem_services_seen w1) ?u)), w2)"
    "mem_services_good w2" "mem_services_seen w2 = mem_services_seen w1"
    by (rule mem_services_is_valid [OF w1(2)])
  show thesis
    by (rule that [of w2]) (use w1 w2 assms in \<open>simp_all add: settle_registry_def move_registry_entry_def
        liveness_answered answered_def Let_def\<close>)
qed

text \<open>
  C21. A login reaches the next request. A request that starts without a stored session and logs
  in, registering the id the session is about to take, stores the session and keeps it registered;
  a later request from the same client that brings the cookie signed for that id, before the age
  caps, is given that session: the same authenticated state and the same custom values, up to the
  size cap on the bag.
\<close>

theorem login_reaches_next_request:
  assumes "mem_services_good w" and "0 < cfg_ttl cfg"
    and "regenerate si" and "pre_cycle_id si = Some old_id" and "old_id \<noteq> inner_id si"
    and "loaded_base si = None" and "auth_of si = Authenticated a"
    and "inner_id si \<in> set (snd (mem_services_seen w) (ad_user_id a))"
    and "old_id \<notin> set (snd (mem_services_seen w) (ad_user_id a))"
    and "pol_registry pol = Some (mem_services_registry :: (memory_services, 'e) session_registry)"
    and "finish_run ser mem_services_store cfg pol si None w = ((fo, registered), si', w')"
    and "pol_registry pol' = Some (mem_services_registry :: (memory_services, 'e) session_registry)"
    and "\<not> outlived pol' (max_authenticated_age cfg) (authn_time a)" and "ad_impersonator a = None"
    and "bound_to fps (data si)" and "crypto_laws c"
    and "list_all is_cookie_token_byte (cookie_name cfg)" and "cookie_name cfg \<noteq> []"
    and "headers = [(''cookie'', cookie_name cfg @ ''='' @ sign_cookie c ring (final_id fo))]"
    and "to_str (snd (hd headers)) = Some (snd (hd headers))"
  shows "registered \<and> session_changed fo \<and>
    (let lo = fst (load_session mem_services_store c ring cfg to_str headers fps r pol' w')
     in existing_id lo = Some (final_id fo) \<and> auth_state (lo_data lo) = Authenticated a \<and>
        custom (lo_data lo) = cap_custom ser (cfg_max_custom_bytes cfg) (custom_of si))"
proof -
  obtain w1 where fin: "finalize_session ser (pol_limits pol) (mem_services_store :: (memory_services, 'e) session_store)
      cfg (pol_now pol) si None w = (fo, si', w1)"
    and settle: "settle_registry (mem_services_store :: (memory_services, 'e) session_store) (pol_registry pol)
      (pol_unknown pol) fo w1 = (registered, w')"
    using assms(11) by (auto simp: finish_run_def split: prod.splits)
  note login = finalize_login [OF assms(1-7) fin]
  note stored = login(2-5)
  let ?rot = "\<lparr>was_authenticated = False, rot_user_id = ad_user_id a, rot_old_id = old_id, rot_new_id = inner_id si\<rparr>"
  obtain w2 where w2: "settle_registry mem_services_store
      (Some (mem_services_registry :: (memory_services, 'e) session_registry)) (pol_unknown pol) fo w1 = (True, w2)"
    "mem_services_good w2" "mem_services_seen w2 = mem_services_seen w1"
    by (rule settle_login [OF stored(2), of fo ?rot "pol_unknown pol"]) (use login(1) stored(4) assms(8,9) in simp_all)
  with settle assms(10) have kept: "registered" "w' = w2" by auto
  from presented_signed [OF assms(16-18), of to_str ring "final_id fo"] assms(19,20)
  have "presented_cookie c ring cfg to_str headers = Some \<lparr>verified_id = final_id fo, verified_by_previous = False\<rparr>"
    by simp
  note load_registered [OF w2(2) _ _ _ assms(12,13) _ _ this, where row = "data si'" and fps = fps and r = r]
  moreover have "auth_state (data si') = Authenticated a" "bound_to fps (data si')"
    "custom (data si') = cap_custom ser (cfg_max_custom_bytes cfg) (custom_of si)"
    using stored(1) assms(7,15) by (simp_all add: stamped_def bound_to_def)
  ultimately show ?thesis
    using w2(3) stored(3,4) login(1) assms(8,14) kept
    by (simp add: Let_def)
qed

theorem login_reaches_next_request_witness:
  "let c = example_crypto; ring = ring_from_master c ''k''; cfg = session_config_default;
       reg = (mem_services_registry :: (memory_services, unit) session_registry);
       pol = \<lparr>pol_registry = Some reg, pol_unknown = Reject, pol_now = 5, pol_limits = example_limits\<rparr>;
       w = snd (reg_register reg 9 6 (example_services 5 session_data_default));
       si = (example_inner 6 session_data_default (session_data_default\<lparr>auth_state := set_authenticated 9 1 4 Guest\<rparr>))
         \<lparr>regenerate := True, pre_cycle_id := Some 7, consume := None\<rparr>;
       run = finish_run (\<lambda>v. []) mem_services_store cfg pol si None w;
       headers = [(''cookie'', cookie_name cfg @ ''='' @ sign_cookie c ring (final_id (fst (fst run))))];
       lo = fst (load_session mem_services_store c ring cfg Some headers \<lparr>fp_current = None, fp_previous = None\<rparr>
         (inner_rng si) pol (snd (snd run)))
   in existing_id lo = Some (final_id (fst (fst run))) \<and> auth_state (lo_data lo) = set_authenticated 9 1 4 Guest"
proof -
  let ?reg = "mem_services_registry :: (memory_services, unit) session_registry"
  let ?pol = "\<lparr>pol_registry = Some ?reg, pol_unknown = Reject, pol_now = 5, pol_limits = example_limits\<rparr>"
  let ?a = "\<lparr>ad_user_id = 9, ad_tenant_id = 1, authn_time = 4, factors_completed = [],
      ad_impersonator = None, ad_ldap_groups = None\<rparr>"
  let ?s = "example_services 5 session_data_default"
  let ?si = "(example_inner 6 session_data_default (session_data_default\<lparr>auth_state := set_authenticated 9 1 4 Guest\<rparr>))
         \<lparr>regenerate := True, pre_cycle_id := Some 7, consume := None\<rparr>"
  obtain x w where w: "reg_register ?reg 9 6 ?s = (Inr x, w)"
    "mem_services_good w" "on_registrations (spec_register 9 6) (mem_services_seen ?s) = (x, mem_services_seen w)"
    by (rule answersE [OF mem_services_answer(5) example_services_good])
  from arg_cong [OF w(3), of "\<lambda>v. snd (snd v) 9"] have seen: "snd (mem_services_seen w) 9 = [6]"
    by (simp add: spec_register_def)
  let ?run = "finish_run (\<lambda>v. []) mem_services_store session_config_default ?pol ?si None w"
  have ttl: "0 < cfg_ttl session_config_default" and name: "cookie_name session_config_default \<noteq> []"
    by (simp_all add: session_config_default_def)
  have age: "\<not> outlived ?pol (max_authenticated_age session_config_default) (authn_time ?a)"
    by (auto simp: outlived_def session_config_default_def example_limits_def from_std_def
        split: option.split)
  have run: "?run = ((fst (fst ?run), snd (fst ?run)), fst (snd ?run), snd (snd ?run))" by simp
  from login_reaches_next_request [where 'e = unit, OF w(2) ttl _ _ _ _ _ _ _ _ run _ age _ _
      example_crypto_laws default_cookie_name_valid name refl, where old_id = 7 and fps = "\<lparr>fp_current = None, fp_previous = None\<rparr>" and
      ring = "ring_from_master example_crypto ''k''" and to_str = Some and r = "inner_rng ?si"]
  show ?thesis unfolding Let_def using w(1) seen
    by (simp add: example_inner_def loaded_base_def set_authenticated_def bound_to_def session_data_default_def)
qed

end
