(* ===== verification/Refresh_Token.thy ===== *)
theory Refresh_Token
  imports Session_Data Text_Codec Kv_Store Effects
begin

section \<open>Refresh tokens and their store\<close>

text \<open>
  \<^verbatim>\<open>axess-core/src/session/refresh/types.rs\<close>, \<^verbatim>\<open>store.rs\<close> and the in-memory store of
  \<^verbatim>\<open>axess-core/src/testing/mock_refresh_store.rs\<close>: the token record, the configuration with its
  checks, the storage trait as a record of operations, what the trait promises as steps on the
  table of stored tokens, and the in-memory store as an implementation of that promise.
\<close>

subsection \<open>Records, configuration and errors\<close>

type_synonym refresh_token_id = uuid
type_synonym token_family_id = uuid

datatype revocation_reason = Rotated_Out | Explicit | Evicted | Compromise | DeviceLost

fun reason_as_str :: "revocation_reason \<Rightarrow> string" where
  "reason_as_str Rotated_Out = ''rotated''"
| "reason_as_str Explicit = ''explicit''"
| "reason_as_str Evicted = ''evicted''"
| "reason_as_str Compromise = ''compromise''"
| "reason_as_str DeviceLost = ''device''"

definition reason_parse :: "string \<Rightarrow> revocation_reason option" where
  "reason_parse s =
     (if s = ''rotated'' then Some Rotated_Out
      else if s = ''explicit'' then Some Explicit
      else if s = ''evicted'' then Some Evicted
      else if s = ''compromise'' then Some Compromise
      else if s = ''device'' then Some DeviceLost
      else None)"

record refresh_token =
  rt_id :: refresh_token_id
  rt_user_id :: user_id
  rt_tenant_id :: tenant_id
  token_hash :: string
  issued_at :: datetime
  rt_expires_at :: datetime
  revoked :: bool
  device_info :: "string option"
  family_id :: "token_family_id option"
  rt_device_id :: "device_id option"
  rt_authn_time :: "datetime option"
  revoked_reason :: "revocation_reason option"
  revoked_at :: "datetime option"

definition authenticated_at :: "refresh_token \<Rightarrow> datetime" where
  "authenticated_at t = (case rt_authn_time t of Some a \<Rightarrow> a | None \<Rightarrow> issued_at t)"

datatype previous_pepper = Keyed bytes | Unkeyed

fun keyed_bytes :: "previous_pepper \<Rightarrow> bytes option" where
  "keyed_bytes (Keyed p) = Some p"
| "keyed_bytes Unkeyed = None"

text \<open>The durations of this configuration are signed.\<close>

record refresh_token_config =
  rc_ttl :: int
  max_per_user :: nat
  rc_rotation :: bool
  hash_pepper :: "bytes option"
  previous_hash_pepper :: "previous_pepper option"
  max_lifetime :: "int option"
  allow_unkeyed_hashes :: bool
  reuse_grace :: int

datatype config_refusal =
    TtlNotPositive | MaxPerUserZero | PepperEmpty | PreviousPepperEmpty | UnkeyedNeedsPepper
  | ReuseGraceNegative | MaxLifetimeNotPositive | MaxLifetimeBelowTtl | DeviceInfoNeedsPepper

definition refresh_config_validate :: "refresh_token_config \<Rightarrow> config_refusal + unit" where
  "refresh_config_validate cfg =
     (if rc_ttl cfg \<le> 0 then Inl TtlNotPositive
      else if max_per_user cfg = 0 then Inl MaxPerUserZero
      else if hash_pepper cfg = Some [] then Inl PepperEmpty
      else if Option.bind (previous_hash_pepper cfg) keyed_bytes = Some [] then Inl PreviousPepperEmpty
      else if previous_hash_pepper cfg = Some Unkeyed \<and> hash_pepper cfg = None then Inl UnkeyedNeedsPepper
      else if reuse_grace cfg < 0 then Inl ReuseGraceNegative
      else (case max_lifetime cfg of
              Some mx \<Rightarrow>
                if mx \<le> 0 then Inl MaxLifetimeNotPositive
                else if mx < rc_ttl cfg then Inl MaxLifetimeBelowTtl
                else Inr ()
            | None \<Rightarrow> Inr ()))"

definition lifetime_end :: "time_limits \<Rightarrow> refresh_token_config \<Rightarrow> datetime \<Rightarrow> datetime option" where
  "lifetime_end lim cfg at = Option.bind (max_lifetime cfg) (checked_add_signed lim at)"

definition validate_device_info :: "refresh_token_config \<Rightarrow> bool \<Rightarrow> config_refusal + unit" where
  "validate_device_info cfg has_device_info =
     (if has_device_info \<and> hash_pepper cfg = None \<and> \<not> allow_unkeyed_hashes cfg
      then Inl DeviceInfoNeedsPepper else Inr ())"

definition with_max_lifetime :: "int option \<Rightarrow> refresh_token_config \<Rightarrow> refresh_token_config" where
  "with_max_lifetime mx cfg = cfg\<lparr>max_lifetime := mx\<rparr>"

definition allowing_unkeyed_hashes :: "refresh_token_config \<Rightarrow> refresh_token_config" where
  "allowing_unkeyed_hashes cfg = cfg\<lparr>allow_unkeyed_hashes := True\<rparr>"

definition pepper :: "refresh_token_config \<Rightarrow> bytes option" where
  "pepper cfg = hash_pepper cfg"

definition previous_pepper_of :: "refresh_token_config \<Rightarrow> bytes option option" where
  "previous_pepper_of cfg = map_option keyed_bytes (previous_hash_pepper cfg)"

abbreviation days :: "int \<Rightarrow> int" where
  "days n \<equiv> n * (24 * 60 * 60 * 1000000000)"

definition refresh_config_default :: refresh_token_config where
  "refresh_config_default =
     \<lparr>rc_ttl = days 30, max_per_user = 10, rc_rotation = True, hash_pepper = None,
      previous_hash_pepper = None, max_lifetime = Some (days 90), allow_unkeyed_hashes = False,
      reuse_grace = 0\<rparr>"

text \<open>
  \<open>Panicked\<close> stands for the panic of the time library when the expiry of a new token is an
  instant it does not represent.
\<close>

datatype 'e refresh_error =
    NotFound | Expired | Revoked | ConcurrentRefresh | DeviceMismatch | AccountInactive
  | InvalidConfig config_refusal | DeviceRevoked | DeviceStore string | StoreError 'e | Panicked

lemma reason_round_trip [simp]: "reason_parse (reason_as_str r) = Some r"
  by (cases r) (simp_all add: reason_parse_def)

lemma refresh_config_ok:
  "refresh_config_validate cfg = Inr () \<longleftrightarrow>
     0 < rc_ttl cfg \<and> 0 < max_per_user cfg \<and> hash_pepper cfg \<noteq> Some [] \<and>
     previous_hash_pepper cfg \<noteq> Some (Keyed []) \<and>
     (previous_hash_pepper cfg = Some Unkeyed \<longrightarrow> hash_pepper cfg \<noteq> None) \<and> 0 \<le> reuse_grace cfg \<and>
     (\<forall>mx. max_lifetime cfg = Some mx \<longrightarrow> rc_ttl cfg \<le> mx)"
  by (cases "previous_hash_pepper cfg"; cases "the (previous_hash_pepper cfg)")
     (auto simp: refresh_config_validate_def split: option.splits)

lemma refresh_config_default_ok: "refresh_config_validate refresh_config_default = Inr ()"
  by (simp add: refresh_config_ok refresh_config_default_def)

subsection \<open>The storage trait\<close>

datatype rotation_outcome = RotationDone | ParentAlreadyRevoked

datatype device_token_revocation = Unsupported | TokensRevoked u64

text \<open>
  The compromise hook cannot fail; what it does to the state is the implementation's. The default
  hook only logs.
\<close>

record ('s, 'e) refresh_store =
  store_token :: "refresh_token \<Rightarrow> ('s, 'e, unit) act"
  find_token :: "string \<Rightarrow> ('s, 'e, refresh_token option) act"
  revoke_token :: "refresh_token_id \<Rightarrow> ('s, 'e, unit) act"
  revoke_user_tokens :: "user_id \<Rightarrow> ('s, 'e, unit) act"
  revoke_device_tokens :: "tenant_id \<Rightarrow> device_id \<Rightarrow> ('s, 'e, device_token_revocation) act"
  active_tokens :: "user_id \<Rightarrow> ('s, 'e, refresh_token list) act"
  revoke_family :: "user_id \<Rightarrow> token_family_id \<Rightarrow> ('s, 'e, unit) act"
  issue_capped :: "refresh_token \<Rightarrow> nat \<Rightarrow> ('s, 'e, unit) act"
  rotate_token :: "refresh_token_id \<Rightarrow> refresh_token \<Rightarrow> ('s, 'e, rotation_outcome) act"
  on_token_compromise :: "user_id \<Rightarrow> token_family_id \<Rightarrow> (tenant_id \<times> device_id) list \<Rightarrow> 's \<Rightarrow> 's"

subsection \<open>The in-memory store\<close>

type_synonym memory_refresh_store = "(refresh_token_id, refresh_token) memory_store"

text \<open>Revoking keeps the reason of a token that is already revoked.\<close>

definition revoke_row :: "revocation_reason \<Rightarrow> datetime \<Rightarrow> refresh_token \<Rightarrow> refresh_token" where
  "revoke_row reason at t =
     (if revoked t then t
      else t\<lparr>revoked := True, revoked_reason := Some reason, revoked_at := Some at\<rparr>)"

definition revoke_as ::
  "refresh_token_id \<Rightarrow> revocation_reason \<Rightarrow> datetime option \<Rightarrow> memory_refresh_store \<Rightarrow> memory_refresh_store" where
  "revoke_as i reason at s =
     (let now = (case at of Some t \<Rightarrow> t | None \<Rightarrow> clock_now s)
      in snd (kv_update i (revoke_row reason now) s))"

definition mref_store_token :: "refresh_token \<Rightarrow> memory_refresh_store \<Rightarrow> memory_refresh_store" where
  "mref_store_token t s = kv_put (rt_id t) t (nat (rt_expires_at t - clock_now s)) s"

definition mref_find_token :: "string \<Rightarrow> memory_refresh_store \<Rightarrow> refresh_token option" where
  "mref_find_token h s = map_option snd (find (\<lambda>(_, t). token_hash t = h) (snapshot s))"

definition revoke_where ::
  "(refresh_token \<Rightarrow> bool) \<Rightarrow> revocation_reason \<Rightarrow> memory_refresh_store \<Rightarrow> memory_refresh_store" where
  "revoke_where P reason s =
     foldl (\<lambda>s' (i, t). if P t then revoke_as i reason None s' else s') s (snapshot s)"

definition mref_revoke_device_tokens ::
  "tenant_id \<Rightarrow> device_id \<Rightarrow> memory_refresh_store \<Rightarrow> device_token_revocation \<times> memory_refresh_store" where
  "mref_revoke_device_tokens tn dev s =
     (let P = (\<lambda>t. rt_tenant_id t = tn \<and> rt_device_id t = Some dev \<and> \<not> revoked t)
      in (TokensRevoked (of_nat (length (filter (\<lambda>(_, t). P t) (snapshot s)))),
          revoke_where P DeviceLost s))"

definition mref_active_tokens :: "user_id \<Rightarrow> memory_refresh_store \<Rightarrow> refresh_token list" where
  "mref_active_tokens u s =
     sort_key issued_at (map snd (filter (\<lambda>(_, t). rt_user_id t = u \<and> \<not> revoked t) (snapshot s)))"

definition mref_issue_capped :: "refresh_token \<Rightarrow> nat \<Rightarrow> memory_refresh_store \<Rightarrow> memory_refresh_store" where
  "mref_issue_capped new_token mx s =
     (let active = mref_active_tokens (rt_user_id new_token) s;
          surplus = length active + 1 - mx
      in mref_store_token new_token
           (foldl (\<lambda>s' t. revoke_as (rt_id t) Evicted None s') s (take surplus active)))"

text \<open>The two steps of a rotation, each under the map's lock.\<close>

definition rotate_parent ::
  "refresh_token_id \<Rightarrow> refresh_token \<Rightarrow> memory_refresh_store \<Rightarrow> bool \<times> memory_refresh_store" where
  "rotate_parent parent new_token s =
     (let won = (case kv_get parent s of Some t \<Rightarrow> \<not> revoked t | None \<Rightarrow> False)
      in (won, snd (kv_update parent (revoke_row Rotated_Out (issued_at new_token)) s)))"

definition mref_rotate_token ::
  "refresh_token_id \<Rightarrow> refresh_token \<Rightarrow> memory_refresh_store \<Rightarrow> rotation_outcome \<times> memory_refresh_store" where
  "mref_rotate_token parent new_token s =
     (case rotate_parent parent new_token s of
        (False, s') \<Rightarrow> (ParentAlreadyRevoked, s')
      | (True, s') \<Rightarrow> (RotationDone, mref_store_token new_token s'))"

definition mem_refresh_store :: "(memory_refresh_store, 'e) refresh_store" where
  "mem_refresh_store =
     \<lparr>store_token = (\<lambda>t s. (Inr (), mref_store_token t s)),
      find_token = (\<lambda>h s. (Inr (mref_find_token h s), s)),
      revoke_token = (\<lambda>i s. (Inr (), revoke_as i Explicit None s)),
      revoke_user_tokens = (\<lambda>u s. (Inr (), revoke_where (\<lambda>t. rt_user_id t = u) Explicit s)),
      revoke_device_tokens = (\<lambda>tn dev s. map_prod Inr id (mref_revoke_device_tokens tn dev s)),
      active_tokens = (\<lambda>u s. (Inr (mref_active_tokens u s), s)),
      revoke_family = (\<lambda>u fid s.
        (Inr (), revoke_where (\<lambda>t. rt_user_id t = u \<and> family_id t = Some fid) Compromise s)),
      issue_capped = (\<lambda>t mx s. (Inr (), mref_issue_capped t mx s)),
      rotate_token = (\<lambda>parent t s. map_prod Inr id (mref_rotate_token parent t s)),
      on_token_compromise = (\<lambda>u fid devs s. s)\<rparr>"

subsection \<open>What the trait promises\<close>

text \<open>
  What a reader sees of a store: the rows that have not run out, by id, and the store's clock. A
  stored token is seen while its expiry is ahead of the store's clock.
\<close>

record refresh_view =
  tokens :: "refresh_token_id \<Rightarrow> refresh_token option"
  store_now :: datetime

definition put_row :: "refresh_token \<Rightarrow> refresh_view \<Rightarrow> refresh_view" where
  "put_row t v = v\<lparr>tokens := (tokens v)(rt_id t := if store_now v < rt_expires_at t then Some t else None)\<rparr>"

definition revoke_rows :: "(refresh_token \<Rightarrow> bool) \<Rightarrow> revocation_reason \<Rightarrow> refresh_view \<Rightarrow> refresh_view" where
  "revoke_rows P reason v =
     v\<lparr>tokens := (\<lambda>i. map_option (\<lambda>t. if P t then revoke_row reason (store_now v) t else t) (tokens v i))\<rparr>"

definition spec_store :: "refresh_token \<Rightarrow> refresh_view \<Rightarrow> unit \<Rightarrow> refresh_view \<Rightarrow> bool" where
  "spec_store t v x v' \<longleftrightarrow> v' = put_row t v"

definition spec_find :: "string \<Rightarrow> refresh_view \<Rightarrow> refresh_token option \<Rightarrow> refresh_view \<Rightarrow> bool" where
  "spec_find h v x v' \<longleftrightarrow> v' = v \<and>
     (case x of
        Some t \<Rightarrow> token_hash t = h \<and> tokens v (rt_id t) = Some t
      | None \<Rightarrow> \<forall>t \<in> ran (tokens v). token_hash t \<noteq> h)"

definition spec_revoke_token :: "refresh_token_id \<Rightarrow> refresh_view \<Rightarrow> unit \<Rightarrow> refresh_view \<Rightarrow> bool" where
  "spec_revoke_token i v x v' \<longleftrightarrow> v' = revoke_rows (\<lambda>t. rt_id t = i) Explicit v"

definition spec_revoke_user :: "user_id \<Rightarrow> refresh_view \<Rightarrow> unit \<Rightarrow> refresh_view \<Rightarrow> bool" where
  "spec_revoke_user u v x v' \<longleftrightarrow> v' = revoke_rows (\<lambda>t. rt_user_id t = u) Explicit v"

definition on_device :: "tenant_id \<Rightarrow> device_id \<Rightarrow> refresh_token \<Rightarrow> bool" where
  "on_device tn dev t \<longleftrightarrow> rt_tenant_id t = tn \<and> rt_device_id t = Some dev"

text \<open>A store without revocation by device revokes nothing and says so.\<close>

definition spec_revoke_device ::
  "tenant_id \<Rightarrow> device_id \<Rightarrow> refresh_view \<Rightarrow> device_token_revocation \<Rightarrow> refresh_view \<Rightarrow> bool" where
  "spec_revoke_device tn dev v x v' \<longleftrightarrow>
     (case x of
        Unsupported \<Rightarrow> v' = v
      | TokensRevoked n \<Rightarrow> v' = revoke_rows (on_device tn dev) DeviceLost v \<and>
          n = of_nat (card {t \<in> ran (tokens v). on_device tn dev t \<and> \<not> revoked t}))"

definition spec_active :: "user_id \<Rightarrow> refresh_view \<Rightarrow> refresh_token list \<Rightarrow> refresh_view \<Rightarrow> bool" where
  "spec_active u v xs v' \<longleftrightarrow> v' = v \<and> distinct (map rt_id xs) \<and> sorted (map issued_at xs) \<and>
     set xs = {t \<in> ran (tokens v). rt_user_id t = u \<and> \<not> revoked t}"

definition spec_revoke_family :: "user_id \<Rightarrow> token_family_id \<Rightarrow> refresh_view \<Rightarrow> unit \<Rightarrow> refresh_view \<Rightarrow> bool" where
  "spec_revoke_family u fid v x v' \<longleftrightarrow>
     v' = revoke_rows (\<lambda>t. rt_user_id t = u \<and> family_id t = Some fid) Compromise v"

text \<open>Issuing under the cap evicts the oldest of the user's live tokens.\<close>

definition spec_issue :: "refresh_token \<Rightarrow> nat \<Rightarrow> refresh_view \<Rightarrow> unit \<Rightarrow> refresh_view \<Rightarrow> bool" where
  "spec_issue t mx v x v' \<longleftrightarrow>
     (\<exists>xs. spec_active (rt_user_id t) v xs v \<and>
        v' = put_row t (revoke_rows (\<lambda>t'. t' \<in> set (take (length xs + 1 - mx) xs)) Evicted v))"

text \<open>A rotation revokes the parent and stores the child in one step, or does nothing.\<close>

definition spec_rotate ::
  "refresh_token_id \<Rightarrow> refresh_token \<Rightarrow> refresh_view \<Rightarrow> rotation_outcome \<Rightarrow> refresh_view \<Rightarrow> bool" where
  "spec_rotate parent t v x v' \<longleftrightarrow>
     (case tokens v parent of
        Some p \<Rightarrow>
          if revoked p then x = ParentAlreadyRevoked \<and> v' = v
          else x = RotationDone \<and>
            v' = put_row t (v\<lparr>tokens := (tokens v)(parent \<mapsto> revoke_row Rotated_Out (issued_at t) p)\<rparr>)
      | None \<Rightarrow> x = ParentAlreadyRevoked \<and> v' = v)"

text \<open>The compromise hook at most revokes.\<close>

definition only_revokes :: "refresh_view \<Rightarrow> refresh_view \<Rightarrow> bool" where
  "only_revokes v v' \<longleftrightarrow> store_now v' = store_now v \<and>
     (\<forall>i. case tokens v i of
            None \<Rightarrow> tokens v' i = None
          | Some t \<Rightarrow> tokens v' i = Some t \<or> (\<exists>reason at. tokens v' i = Some (revoke_row reason at t)))"

definition hook_call ::
  "('s, 'e) refresh_store \<Rightarrow> user_id \<Rightarrow> token_family_id \<Rightarrow> (tenant_id \<times> device_id) list \<Rightarrow> ('s, 'e, unit) act" where
  "hook_call st u fid devs s = (Inr (), on_token_compromise st u fid devs s)"

locale refresh_store_contract =
  fixes st :: "('s, 'e) refresh_store"
    and good :: "'s \<Rightarrow> bool"
    and seen :: "'s \<Rightarrow> refresh_view"
  assumes keyed: "good s \<Longrightarrow> tokens (seen s) i = Some t \<Longrightarrow> rt_id t = i"
    and store_step: "fulfils good seen (store_token st t) (spec_store t)"
    and find_step: "fulfils good seen (find_token st h) (spec_find h)"
    and revoke_step: "fulfils good seen (revoke_token st i) (spec_revoke_token i)"
    and revoke_user_step: "fulfils good seen (revoke_user_tokens st u) (spec_revoke_user u)"
    and revoke_device_step: "fulfils good seen (revoke_device_tokens st tn dev) (spec_revoke_device tn dev)"
    and active_step: "fulfils good seen (active_tokens st u) (spec_active u)"
    and revoke_family_step: "fulfils good seen (revoke_family st u fid) (spec_revoke_family u fid)"
    and issue_step: "fulfils good seen (issue_capped st t mx) (spec_issue t mx)"
    and rotate_step: "fulfils good seen (rotate_token st parent t) (spec_rotate parent t)"
    and hook_step: "fulfils good seen (hook_call st u fid devs) (\<lambda>v x v'. only_revokes v v')"

subsection \<open>The in-memory store keeps the promise\<close>

lemma live_kv_update [simp]: "live (snd (kv_update k f s)) = (live s)(k := map_option f (live s k))"
proof (cases "live_entry s k")
  case None
  then show ?thesis by (simp add: kv_update_def fun_eq_iff live_entry_live)
next
  case (Some e)
  then have "clock_now s < expires_at e" by (simp add: live_entry_def split: option.splits if_splits)
  then have "live_entry (snd (kv_update k f s)) j =
      (if j = k then Some (e\<lparr>stored := f (stored e)\<rparr>) else live_entry s j)" for j
    by (simp add: kv_update_def Some live_entry_def [of "_\<lparr>inner := _\<rparr>"] update_conv')
       (simp add: live_entry_def split: option.split)
  with Some show ?thesis by (simp add: fun_eq_iff live_entry_live)
qed

lemma kv_update_sel [simp]:
  "clock_now (snd (kv_update k f s)) = clock_now s" "limits (snd (kv_update k f s)) = limits s"
  "kv_wf s \<Longrightarrow> kv_wf (snd (kv_update k f s))"
  by (simp_all add: kv_update_def kv_wf_def distinct_update split: option.split)

lemma revoke_row_simps [simp]:
  "revoked (revoke_row r at t)" "rt_id (revoke_row r at t) = rt_id t"
  "rt_user_id (revoke_row r at t) = rt_user_id t" "rt_tenant_id (revoke_row r at t) = rt_tenant_id t"
  "token_hash (revoke_row r at t) = token_hash t" "family_id (revoke_row r at t) = family_id t"
  "rt_device_id (revoke_row r at t) = rt_device_id t" "issued_at (revoke_row r at t) = issued_at t"
  "rt_expires_at (revoke_row r at t) = rt_expires_at t" "rt_authn_time (revoke_row r at t) = rt_authn_time t"
  "device_info (revoke_row r at t) = device_info t"
  "revoke_row r at (revoke_row r' at' t) = revoke_row r' at' t" "revoked t \<Longrightarrow> revoke_row r at t = t"
  by (simp_all add: revoke_row_def)

lemma snapshot_live: "kv_wf s \<Longrightarrow> (i, t) \<in> set (snapshot s) \<longleftrightarrow> live s i = Some t"
  by (metis distinct_snapshot map_of_snapshot map_of_eq_Some_iff)

lemma revoke_as_now: "revoke_as i reason None s = snd (kv_update i (revoke_row reason (clock_now s)) s)"
  by (simp add: revoke_as_def)

lemma fold_revoke_sel:
  "clock_now (foldl (\<lambda>s' i. revoke_as i reason None s') s is) = clock_now s"
  "limits (foldl (\<lambda>s' i. revoke_as i reason None s') s is) = limits s"
  "kv_wf s \<Longrightarrow> kv_wf (foldl (\<lambda>s' i. revoke_as i reason None s') s is)"
  by (induction "is" arbitrary: s) (simp_all add: revoke_as_now)

lemma fold_revoke_live:
  "live (foldl (\<lambda>s' i. revoke_as i reason None s') s is) j =
     (if j \<in> set is then map_option (revoke_row reason (clock_now s)) (live s j) else live s j)"
proof (induction "is" arbitrary: s)
  case (Cons i "is")
  show ?case
    using Cons.IH [of "revoke_as i reason None s"]
    by (simp add: revoke_as_now option.map_comp comp_def)
qed simp

lemma revoke_where_fold:
  "revoke_where P reason s =
     foldl (\<lambda>s' i. revoke_as i reason None s') s (map fst (filter (\<lambda>(i, t). P t) (snapshot s)))"
proof -
  have "foldl (\<lambda>s' (i, t). if P t then revoke_as i reason None s' else s') s0 xs =
      foldl (\<lambda>s' i. revoke_as i reason None s') s0 (map fst (filter (\<lambda>(i, t). P t) xs))" for s0 xs
    by (induction xs arbitrary: s0) auto
  then show ?thesis by (simp add: revoke_where_def)
qed

definition mref_good :: "memory_refresh_store \<Rightarrow> bool" where
  "mref_good s \<longleftrightarrow> kv_wf s \<and> 0 \<le> max_delta (limits s) \<and> (\<forall>i t. live s i = Some t \<longrightarrow> rt_id t = i)"

definition mref_seen :: "memory_refresh_store \<Rightarrow> refresh_view" where
  "mref_seen s = \<lparr>tokens = live s, store_now = clock_now s\<rparr>"

lemma mref_seen_simps [simp]: "tokens (mref_seen s) = live s" "store_now (mref_seen s) = clock_now s"
  by (simp_all add: mref_seen_def)

lemma mref_seen_revoked:
  assumes "\<And>i. live s' i = map_option (\<lambda>t. if P t then revoke_row reason (clock_now s) t else t) (live s i)"
    and "clock_now s' = clock_now s"
  shows "mref_seen s' = revoke_rows P reason (mref_seen s)"
  by (rule refresh_view.equality) (simp_all add: revoke_rows_def fun_eq_iff assms cong: if_cong)

lemma revoke_rows_live: "revoke_rows (\<lambda>t. P t \<and> \<not> revoked t) reason v = revoke_rows P reason v"
proof -
  have "(\<lambda>t. if P t \<and> \<not> revoked t then revoke_row reason (store_now v) t else t) =
      (\<lambda>t. if P t then revoke_row reason (store_now v) t else t)"
    by auto
  then show ?thesis by (simp only: revoke_rows_def)
qed

lemma revoke_where_sel:
  "clock_now (revoke_where P reason s) = clock_now s" "limits (revoke_where P reason s) = limits s"
  "kv_wf s \<Longrightarrow> kv_wf (revoke_where P reason s)"
  by (simp_all add: revoke_where_fold fold_revoke_sel)

lemma revoke_where_live:
  assumes "kv_wf s"
  shows "live (revoke_where P reason s) i =
    map_option (\<lambda>t. if P t then revoke_row reason (clock_now s) t else t) (live s i)"
proof (cases "live s i")
  case (Some t)
  have "i \<in> set (map fst (filter (\<lambda>(i, t). P t) (snapshot s))) \<longleftrightarrow> (\<exists>u. (i, u) \<in> set (snapshot s) \<and> P u)"
    by force
  also have "\<dots> \<longleftrightarrow> P t" using Some snapshot_live [OF assms, of i] by simp
  finally show ?thesis using Some by (simp add: revoke_where_fold fold_revoke_live)
qed (simp add: revoke_where_fold fold_revoke_live)

lemma mref_key: "mref_good s \<Longrightarrow> live s i = Some t \<Longrightarrow> rt_id t = i"
  by (simp add: mref_good_def)

text \<open>Rows that are changed in place without their id stay under their key.\<close>

lemma mref_good_mapped:
  assumes "mref_good s" and "\<And>j. live s' j = map_option (f j) (live s j)" and "\<And>j t. rt_id (f j t) = rt_id t"
    and "kv_wf s'" "limits s' = limits s"
  shows "mref_good s'"
proof -
  have "rt_id u = j" if u: "live s' j = Some u" for j u
  proof -
    from u assms(2) [of j] obtain t where t: "live s j = Some t" "u = f j t" by (cases "live s j") simp_all
    show ?thesis unfolding t(2) assms(3) by (rule mref_key [OF assms(1) t(1)])
  qed
  moreover have "0 \<le> max_delta (limits s)" using assms(1) by (simp add: mref_good_def)
  ultimately show ?thesis unfolding mref_good_def assms(5) using assms(4) by blast
qed

lemma mref_revoke_where:
  assumes "mref_good s"
  shows "mref_good (revoke_where P reason s)" "mref_seen (revoke_where P reason s) = revoke_rows P reason (mref_seen s)"
proof -
  have wf: "kv_wf s" using assms by (simp add: mref_good_def)
  show "mref_seen (revoke_where P reason s) = revoke_rows P reason (mref_seen s)"
    by (rule mref_seen_revoked) (simp_all add: revoke_where_sel revoke_where_live [OF wf] cong: if_cong)
  show "mref_good (revoke_where P reason s)"
    by (rule mref_good_mapped [OF assms revoke_where_live [OF wf]]) (use wf in \<open>simp_all add: revoke_where_sel\<close>)
qed

lemma mref_store_sel:
  "clock_now (mref_store_token t s) = clock_now s" "limits (mref_store_token t s) = limits s"
  "kv_wf s \<Longrightarrow> kv_wf (mref_store_token t s)"
  by (simp_all add: mref_store_token_def) (simp_all add: kv_put_def)

lemma mref_store_live:
  assumes "kv_wf s" "0 \<le> max_delta (limits s)"
  shows "live (mref_store_token t s) =
    (live s)(rt_id t := if clock_now s < rt_expires_at t then Some t else None)"
proof (cases "clock_now s < rt_expires_at t")
  case True
  with assms show ?thesis by (simp add: mref_store_token_def)
next
  case False
  have "live (kv_put (rt_id t) t 0 s) (rt_id t) = None"
    using assms by (simp add: live_entry_live live_entry_def kv_put_def update_conv' kv_wf_def deadline_zero)
  with False show ?thesis by (simp add: mref_store_token_def fun_eq_iff)
qed

lemma mref_store:
  assumes "mref_good s"
  shows "mref_good (mref_store_token t s)" "mref_seen (mref_store_token t s) = put_row t (mref_seen s)"
proof -
  have wf: "kv_wf s" "0 \<le> max_delta (limits s)" using assms by (simp_all add: mref_good_def)
  note live' = mref_store_live [OF wf, of t]
  show "mref_good (mref_store_token t s)"
    using assms unfolding mref_good_def live' by (auto simp: mref_store_sel split: if_splits)
  show "mref_seen (mref_store_token t s) = put_row t (mref_seen s)"
    by (simp add: mref_seen_def put_row_def live' mref_store_sel)
qed

lemma ran_live: "kv_wf s \<Longrightarrow> ran (live s) = snd ` set (snapshot s)"
  by (auto simp: ran_def snapshot_live [symmetric] intro: rev_image_eqI)

lemma mref_find:
  assumes "mref_good s"
  shows "spec_find h (mref_seen s) (mref_find_token h s) (mref_seen s)"
proof -
  have wf: "kv_wf s" using assms by (simp add: mref_good_def)
  show ?thesis
  proof (cases "find (\<lambda>(_, t). token_hash t = h) (snapshot s)")
    case None
    then have "token_hash t \<noteq> h" if "(i, t) \<in> set (snapshot s)" for i t
      using that by (auto simp: find_None_iff)
    then have "\<forall>t \<in> snd ` set (snapshot s). token_hash t \<noteq> h" by force
    with None show ?thesis by (simp add: spec_find_def mref_find_token_def ran_live [OF wf])
  next
    case (Some p)
    then obtain i where "i < length (snapshot s)" "p = snapshot s ! i" "token_hash (snd p) = h"
      by (auto simp: find_Some_iff)
    then have "p \<in> set (snapshot s)" "token_hash (snd p) = h" by simp_all
    with snapshot_live [OF wf, of "fst p" "snd p"] assms Some show ?thesis
      by (auto simp: spec_find_def mref_find_token_def mref_good_def)
  qed
qed

lemma mref_rows:
  assumes "mref_good s"
  shows "distinct (map snd (snapshot s))" "distinct (map (rt_id \<circ> snd) (snapshot s))"
proof -
  have wf: "kv_wf s" using assms by (simp add: mref_good_def)
  have "rt_id (snd p) = fst p" if "p \<in> set (snapshot s)" for p
    using that assms snapshot_live [OF wf, of "fst p" "snd p"] by (simp add: mref_good_def)
  then have "map (rt_id \<circ> snd) (snapshot s) = map fst (snapshot s)" by simp
  with distinct_snapshot [OF wf] show "distinct (map (rt_id \<circ> snd) (snapshot s))" by (simp only:)
  then have "distinct (map rt_id (map snd (snapshot s)))" by simp
  then show "distinct (map snd (snapshot s))" by (metis distinct_map)
qed

lemma mref_active:
  assumes "mref_good s"
  shows "spec_active u (mref_seen s) (mref_active_tokens u s) (mref_seen s)"
proof -
  have wf: "kv_wf s" using assms by (simp add: mref_good_def)
  let ?f = "filter (\<lambda>(_, t). rt_user_id t = u \<and> \<not> revoked t) (snapshot s)"
  have "distinct (map (rt_id \<circ> snd) ?f)"
    using mref_rows(2) [OF assms] by (rule distinct_map_filter)
  then have "distinct (map rt_id (map snd ?f))" by simp
  then have "distinct (map rt_id (sort_key issued_at (map snd ?f)))"
    by (simp only: distinct_map distinct_sort set_sort)
  moreover have "set (map snd ?f) = {t \<in> ran (live s). rt_user_id t = u \<and> \<not> revoked t}"
    unfolding ran_live [OF wf] by force
  ultimately show ?thesis
    by (simp add: spec_active_def mref_active_tokens_def)
qed

lemma mref_revoke_device:
  assumes "mref_good s"
  shows "spec_revoke_device tn dev (mref_seen s) (fst (mref_revoke_device_tokens tn dev s))
    (mref_seen (snd (mref_revoke_device_tokens tn dev s)))"
proof -
  have wf: "kv_wf s" using assms by (simp add: mref_good_def)
  let ?P = "\<lambda>t. rt_tenant_id t = tn \<and> rt_device_id t = Some dev \<and> \<not> revoked t"
  have "revoke_rows ?P DeviceLost (mref_seen s) = revoke_rows (on_device tn dev) DeviceLost (mref_seen s)"
    using revoke_rows_live [of "on_device tn dev" DeviceLost "mref_seen s"] by (simp add: on_device_def)
  moreover have "length (filter (\<lambda>(_, t). ?P t) (snapshot s)) =
      card {t \<in> ran (tokens (mref_seen s)). on_device tn dev t \<and> \<not> revoked t}"
  proof -
    have "length (filter (\<lambda>(_, t). ?P t) (snapshot s)) = length (filter ?P (map snd (snapshot s)))"
      by (simp add: filter_map comp_def case_prod_unfold)
    also have "\<dots> = card (set (filter ?P (map snd (snapshot s))))"
      by (rule distinct_card [symmetric]) (rule distinct_filter [OF mref_rows(1) [OF assms]])
    also have "set (filter ?P (map snd (snapshot s))) = {t \<in> ran (tokens (mref_seen s)). on_device tn dev t \<and> \<not> revoked t}"
      by (auto simp: on_device_def ran_live [OF wf])
    finally show ?thesis .
  qed
  ultimately show ?thesis
    by (simp add: spec_revoke_device_def mref_revoke_device_tokens_def Let_def mref_revoke_where(2) [OF assms])
qed

lemma mref_revoke_token:
  assumes "mref_good s"
  shows "mref_good (revoke_as i reason None s)"
    "mref_seen (revoke_as i reason None s) = revoke_rows (\<lambda>t. rt_id t = i) reason (mref_seen s)"
proof -
  have "live (revoke_as i reason None s) j =
      map_option (\<lambda>t. if rt_id t = i then revoke_row reason (clock_now s) t else t) (live s j)" for j
  proof (cases "live s j")
    case (Some t)
    with mref_key [OF assms Some] show ?thesis by (auto simp: revoke_as_now)
  qed (auto simp: revoke_as_now)
  note live' = this
  show "mref_seen (revoke_as i reason None s) = revoke_rows (\<lambda>t. rt_id t = i) reason (mref_seen s)"
    by (rule mref_seen_revoked [OF live']) (simp add: revoke_as_now)
  show "mref_good (revoke_as i reason None s)"
    by (rule mref_good_mapped [OF assms live']) (use assms in \<open>simp_all add: mref_good_def revoke_as_now\<close>)
qed

lemma mref_issue:
  assumes "mref_good s"
  shows "mref_good (mref_issue_capped t mx s)"
    "spec_issue t mx (mref_seen s) x (mref_seen (mref_issue_capped t mx s))"
proof -
  have wf: "kv_wf s" using assms by (simp add: mref_good_def)
  define xs where "xs = mref_active_tokens (rt_user_id t) s"
  define ys where "ys = take (length xs + 1 - mx) xs"
  define s' where "s' = foldl (\<lambda>s' t. revoke_as (rt_id t) Evicted None s') s ys"
  have fold: "s' = foldl (\<lambda>s' i. revoke_as i Evicted None s') s (map rt_id ys)" by (simp add: s'_def foldl_map)
  have active: "spec_active (rt_user_id t) (mref_seen s) xs (mref_seen s)"
    unfolding xs_def by (rule mref_active [OF assms])
  have mem: "i \<in> set (map rt_id ys) \<longleftrightarrow> u \<in> set ys" if "live s i = Some u" for i u
  proof
    assume "i \<in> set (map rt_id ys)"
    then obtain u' where u': "u' \<in> set ys" "rt_id u' = i" by auto
    with active have "u' \<in> ran (live s)" by (auto simp: spec_active_def ys_def dest: in_set_takeD)
    with mref_key [OF assms] u'(2) that have "u' = u" by (auto simp: ran_def)
    with u'(1) show "u \<in> set ys" by simp
  next
    assume "u \<in> set ys"
    with mref_key [OF assms that] show "i \<in> set (map rt_id ys)" by auto
  qed
  have live': "live s' i = map_option (\<lambda>u. if u \<in> set ys then revoke_row Evicted (clock_now s) u else u) (live s i)" for i
    using mem by (cases "live s i") (simp_all add: fold fold_revoke_live)
  have good: "mref_good s'"
    by (rule mref_good_mapped [OF assms live']) (use wf in \<open>simp_all add: fold fold_revoke_sel\<close>)
  have "mref_seen s' = revoke_rows (\<lambda>u. u \<in> set ys) Evicted (mref_seen s)"
    by (rule mref_seen_revoked [OF live']) (simp add: fold fold_revoke_sel)
  with active mref_store [OF good, of t]
  show "mref_good (mref_issue_capped t mx s)" "spec_issue t mx (mref_seen s) x (mref_seen (mref_issue_capped t mx s))"
    unfolding spec_issue_def mref_issue_capped_def Let_def s'_def ys_def xs_def by auto
qed

lemma mref_rotate:
  assumes "mref_good s" "mref_rotate_token parent t s = (x, s')"
  shows "mref_good s'" "spec_rotate parent t (mref_seen s) x (mref_seen s')"
proof -
  let ?s1 = "snd (kv_update parent (revoke_row Rotated_Out (issued_at t)) s)"
  have "live ?s1 j = map_option (if j = parent then revoke_row Rotated_Out (issued_at t) else id) (live s j)" for j
    by (simp add: option.map_id)
  then have good1: "mref_good ?s1"
    by (rule mref_good_mapped [OF assms(1)]) (use assms(1) in \<open>simp_all add: mref_good_def\<close>)
  have rotated: "mref_rotate_token parent t s =
      (if (\<exists>p. live s parent = Some p \<and> \<not> revoked p) then (RotationDone, mref_store_token t ?s1)
       else (ParentAlreadyRevoked, ?s1))"
    by (cases "live s parent") (simp_all add: mref_rotate_token_def rotate_parent_def)
  show "mref_good s'"
    using assms(2) good1 mref_store(1) [OF good1] unfolding rotated by (auto split: if_splits)
  show "spec_rotate parent t (mref_seen s) x (mref_seen s')"
  proof (cases "\<exists>p. live s parent = Some p \<and> \<not> revoked p")
    case True
    then obtain p where p: "live s parent = Some p" "\<not> revoked p" by blast
    with assms(2) have "x = RotationDone" "s' = mref_store_token t ?s1" by (auto simp: rotated)
    moreover have "mref_seen ?s1 = (mref_seen s)\<lparr>tokens := (live s)(parent \<mapsto> revoke_row Rotated_Out (issued_at t) p)\<rparr>"
      using p(1) by (simp add: mref_seen_def)
    note mref_store(2) [OF good1, of t, unfolded this]
    ultimately show ?thesis using p by (simp add: spec_rotate_def)
  next
    case False
    then have "live ?s1 = live s" by (cases "live s parent") (auto simp: fun_eq_iff)
    then have "mref_seen ?s1 = mref_seen s" by (simp add: mref_seen_def)
    moreover have "x = ParentAlreadyRevoked" "s' = ?s1" using assms(2) False unfolding rotated by auto
    ultimately show ?thesis using False by (auto simp: spec_rotate_def split: option.split)
  qed
qed

lemma only_revokes_refl [simp]: "only_revokes v v"
  by (simp add: only_revokes_def split: option.split)

interpretation mem_ref: refresh_store_contract mem_refresh_store mref_good mref_seen
proof unfold_locales
  show "fulfils mref_good mref_seen (store_token mem_refresh_store t) (spec_store t)" for t
    by (rule fulfilsI) (simp add: mem_refresh_store_def spec_store_def mref_store)
  show "fulfils mref_good mref_seen (find_token mem_refresh_store h) (spec_find h)" for h
    by (rule fulfilsI) (simp add: mem_refresh_store_def mref_find)
  show "fulfils mref_good mref_seen (revoke_token mem_refresh_store i) (spec_revoke_token i)" for i
    by (rule fulfilsI) (simp add: mem_refresh_store_def spec_revoke_token_def mref_revoke_token)
  show "fulfils mref_good mref_seen (revoke_user_tokens mem_refresh_store u) (spec_revoke_user u)" for u
    by (rule fulfilsI) (simp add: mem_refresh_store_def spec_revoke_user_def mref_revoke_where)
  show "fulfils mref_good mref_seen (revoke_device_tokens mem_refresh_store tn dev) (spec_revoke_device tn dev)" for tn dev
    by (rule fulfilsI)
       (simp add: mem_refresh_store_def map_prod_def case_prod_beta mref_revoke_device,
        simp add: mref_revoke_device_tokens_def Let_def mref_revoke_where)
  show "fulfils mref_good mref_seen (active_tokens mem_refresh_store u) (spec_active u)" for u
    by (rule fulfilsI) (simp add: mem_refresh_store_def mref_active)
  show "fulfils mref_good mref_seen (revoke_family mem_refresh_store u fid) (spec_revoke_family u fid)" for u fid
    by (rule fulfilsI) (simp add: mem_refresh_store_def spec_revoke_family_def mref_revoke_where)
  show "fulfils mref_good mref_seen (issue_capped mem_refresh_store t mx) (spec_issue t mx)" for t mx
    by (rule fulfilsI) (simp add: mem_refresh_store_def mref_issue)
  show "fulfils mref_good mref_seen (rotate_token mem_refresh_store parent t) (spec_rotate parent t)" for parent t
  proof (rule fulfilsI)
    fix s assume "mref_good s"
    obtain x s' where run: "mref_rotate_token parent t s = (x, s')" by fastforce
    with mref_rotate [OF \<open>mref_good s\<close> run]
    show "\<exists>x s'. rotate_token mem_refresh_store parent t s = (Inr x, s') \<and> mref_good s' \<and>
        spec_rotate parent t (mref_seen s) x (mref_seen s')"
      by (simp add: mem_refresh_store_def)
  qed
  show "fulfils mref_good mref_seen (hook_call mem_refresh_store u fid devs) (\<lambda>v x v'. only_revokes v v')" for u fid devs
    by (rule fulfilsI) (simp add: hook_call_def mem_refresh_store_def)
qed (simp add: mref_key)

end
