(* ===== verification/Refresh.thy ===== *)
theory Refresh
  imports Refresh_Token Session_Cookie
begin

section \<open>Issuing, refreshing and revoking\<close>

text \<open>
  \<^verbatim>\<open>axess-core/src/session/refresh/rotation.rs\<close>, \<^verbatim>\<open>rotation/pipeline.rs\<close> and
  \<^verbatim>\<open>device_binding.rs\<close>: the one refresh entry point with its checks in their order, the response
  to a reused token, issuing under the cap and revoking by plaintext. The keyed hash, the digest,
  base64 and the text of an identifier are parameters; so are the caller's account-status
  predicate and the device gate. Every call on the token store may be disturbed by other requests
  (theory \<open>Effects\<close>).
\<close>

subsection \<open>Hashing and random values\<close>

record refresh_crypto = crypto +
  sha256 :: "bytes \<Rightarrow> bytes"
  uuid_str :: "uuid \<Rightarrow> string"

definition hash_token :: "refresh_crypto \<Rightarrow> string \<Rightarrow> bytes option \<Rightarrow> string" where
  "hash_token c plaintext pep =
     (case pep of
        Some p \<Rightarrow> b64_encode c (hmac c p plaintext)
      | None \<Rightarrow> b64_encode c (sha256 c plaintext))"

definition generate_token_value :: "refresh_crypto \<Rightarrow> byte_rng \<Rightarrow> string \<times> byte_rng" where
  "generate_token_value c r = map_prod (b64_encode c) id (fill_bytes 32 r)"

subsection \<open>Device binding\<close>

abbreviation BIND_PREFIX :: string where
  "BIND_PREFIX \<equiv> ''hb1:''"

abbreviation BIND_DOMAIN :: bytes where
  "BIND_DOMAIN \<equiv> ''axess.refresh-device.v1''"

definition bind_device :: "refresh_crypto \<Rightarrow> string \<Rightarrow> device_id option \<Rightarrow> bytes option \<Rightarrow> string" where
  "bind_device c info device pep =
     BIND_PREFIX @ b64_encode c
       (hmac c (case pep of Some p \<Rightarrow> p | None \<Rightarrow> BIND_DOMAIN)
          (BIND_DOMAIN @ [CHR 0x00] @ (case device of Some d \<Rightarrow> uuid_str c d | None \<Rightarrow> []) @ [CHR 0x00] @ info))"

definition same_text :: "refresh_crypto \<Rightarrow> string \<Rightarrow> string \<Rightarrow> bool" where
  "same_text c a b \<longleftrightarrow> sha256 c a = sha256 c b"

record peppers =
  stored_under :: "bytes option"
  current_pepper :: "bytes option"

definition verify_binding ::
  "refresh_crypto \<Rightarrow> refresh_token \<Rightarrow> string option \<Rightarrow> peppers \<Rightarrow> unit + string option" where
  "verify_binding c record presented peps =
     (case device_info record of
        None \<Rightarrow> Inr None
      | Some stored_info \<Rightarrow>
          (case presented of
             None \<Rightarrow> Inl ()
           | Some info \<Rightarrow>
               (let device = rt_device_id record;
                    matches = (if starts_with BIND_PREFIX stored_info
                               then same_text c stored_info (bind_device c info device (stored_under peps))
                               else same_text c stored_info info)
                in if \<not> matches then Inl ()
                   else Inr (Some (bind_device c info device (current_pepper peps))))))"

subsection \<open>Finding and building records\<close>

record located =
  loc_record :: refresh_token
  under_previous_pepper :: bool

definition loc_stored_under :: "refresh_token_config \<Rightarrow> located \<Rightarrow> bytes option" where
  "loc_stored_under cfg l =
     (if under_previous_pepper l then Option.bind (previous_pepper_of cfg) id else pepper cfg)"

definition locate ::
  "refresh_crypto \<Rightarrow> ('s, 'e) refresh_store \<Rightarrow> refresh_token_config \<Rightarrow> string \<Rightarrow> ('s, 'e, located option) act" where
  "locate c st cfg plaintext =
     act_bind (find_token st (hash_token c plaintext (pepper cfg)))
       (\<lambda>found. case found of
          Some record \<Rightarrow> act_ok (Some \<lparr>loc_record = record, under_previous_pepper = False\<rparr>)
        | None \<Rightarrow>
            (case previous_pepper_of cfg of
               None \<Rightarrow> act_ok None
             | Some previous \<Rightarrow>
                 act_bind (find_token st (hash_token c plaintext previous))
                   (\<lambda>found. act_ok (map_option (\<lambda>record. \<lparr>loc_record = record, under_previous_pepper = True\<rparr>) found))))"

record issue_request =
  ir_user_id :: user_id
  ir_tenant_id :: tenant_id
  ir_device_info :: "string option"
  ir_family_id :: "token_family_id option"
  ir_device_id :: "device_id option"

text \<open>\<open>None\<close>: the time library panics on an expiry out of its range.\<close>

definition build_refresh_token_for ::
  "refresh_crypto \<Rightarrow> time_limits \<Rightarrow> string \<Rightarrow> issue_request \<Rightarrow> refresh_token_config \<Rightarrow> byte_rng \<Rightarrow> datetime \<Rightarrow>
     datetime option \<Rightarrow> (string \<times> refresh_token) option \<times> byte_rng" where
  "build_refresh_token_for c lim plaintext req cfg r now authn =
     (let (bs, r') = fill_bytes 16 r;
          i = id_of_bytes bs;
          family = (case ir_family_id req of Some f \<Rightarrow> f | None \<Rightarrow> i);
          at = (case authn of Some a \<Rightarrow> a | None \<Rightarrow> now)
      in (case checked_add_signed lim now (rc_ttl cfg) of
            None \<Rightarrow> None
          | Some sliding \<Rightarrow>
              Some (plaintext,
                \<lparr>rt_id = i, rt_user_id = ir_user_id req, rt_tenant_id = ir_tenant_id req,
                 token_hash = hash_token c plaintext (pepper cfg), issued_at = now,
                 rt_expires_at = (case lifetime_end lim cfg at of Some e \<Rightarrow> min sliding e | None \<Rightarrow> sliding),
                 revoked = False, device_info = ir_device_info req, family_id = Some family,
                 rt_device_id = ir_device_id req, rt_authn_time = authn,
                 revoked_reason = None, revoked_at = None\<rparr>), r'))"

definition build_refresh_token ::
  "refresh_crypto \<Rightarrow> time_limits \<Rightarrow> issue_request \<Rightarrow> refresh_token_config \<Rightarrow> byte_rng \<Rightarrow> datetime \<Rightarrow>
     datetime option \<Rightarrow> (string \<times> refresh_token) option \<times> byte_rng" where
  "build_refresh_token c lim req cfg r now authn =
     (let (plaintext, r') = generate_token_value c r
      in build_refresh_token_for c lim plaintext req cfg r' now authn)"

definition issue_refresh_token ::
  "refresh_crypto \<Rightarrow> time_limits \<Rightarrow> issue_request \<Rightarrow> refresh_token_config \<Rightarrow> ('s, 'e) refresh_store \<Rightarrow>
     byte_rng \<Rightarrow> datetime \<Rightarrow> 's \<Rightarrow> ('e refresh_error + string \<times> refresh_token) \<times> byte_rng \<times> 's" where
  "issue_refresh_token c lim req cfg st r now s =
     (case refresh_config_validate cfg of
        Inl e \<Rightarrow> (Inl (InvalidConfig e), r, s)
      | Inr _ \<Rightarrow>
          (case validate_device_info cfg (ir_device_info req \<noteq> None) of
             Inl e \<Rightarrow> (Inl (InvalidConfig e), r, s)
           | Inr _ \<Rightarrow>
               (let req' = req\<lparr>ir_device_info :=
                      map_option (\<lambda>raw. bind_device c raw (ir_device_id req) (pepper cfg)) (ir_device_info req)\<rparr>
                in case build_refresh_token c lim req' cfg r now None of
                     (None, r') \<Rightarrow> (Inl Panicked, r', s)
                   | (Some (plaintext, record), r') \<Rightarrow>
                       (case issue_capped st record (max_per_user cfg) s of
                          (Inl e, s') \<Rightarrow> (Inl (StoreError e), r', s')
                        | (Inr _, s') \<Rightarrow> (Inr (plaintext, record), r', s')))))"

subsection \<open>The response to a reused token\<close>

definition family_of :: "refresh_token \<Rightarrow> token_family_id" where
  "family_of t = (case family_id t of Some f \<Rightarrow> f | None \<Rightarrow> rt_id t)"

definition add_target ::
  "token_family_id \<Rightarrow> (tenant_id \<times> device_id) list \<Rightarrow> refresh_token \<Rightarrow> (tenant_id \<times> device_id) list" where
  "add_target fid targets t =
     (if family_id t \<noteq> Some fid then targets
      else (case rt_device_id t of
              None \<Rightarrow> targets
            | Some did \<Rightarrow>
                (let pair = (rt_tenant_id t, did)
                 in if pair \<in> set targets then targets else targets @ [pair])))"

definition collect_family_device_targets ::
  "('s, 'e) refresh_store \<Rightarrow> token_family_id \<Rightarrow> refresh_token \<Rightarrow> 's \<Rightarrow> (tenant_id \<times> device_id) list \<times> 's" where
  "collect_family_device_targets st fid seen_record s =
     (let targets = (case rt_device_id seen_record of
                       Some did \<Rightarrow> [(rt_tenant_id seen_record, did)] | None \<Rightarrow> [])
      in case active_tokens st (rt_user_id seen_record) s of
           (Inr active, s') \<Rightarrow> (foldl (add_target fid) targets active, s')
         | (Inl _, s') \<Rightarrow> (targets, s'))"

definition revoked_on_purpose :: "refresh_token \<Rightarrow> bool" where
  "revoked_on_purpose t \<longleftrightarrow>
     (case revoked_reason t of
        Some Explicit \<Rightarrow> True | Some Evicted \<Rightarrow> True | Some Compromise \<Rightarrow> True | Some DeviceLost \<Rightarrow> True
      | Some Rotated_Out \<Rightarrow> False | None \<Rightarrow> False)"

definition within_grace :: "refresh_token_config \<Rightarrow> datetime \<Rightarrow> refresh_token \<Rightarrow> bool" where
  "within_grace cfg now t \<longleftrightarrow>
     (case revoked_at t of Some at \<Rightarrow> \<bar>now - at\<bar> < reuse_grace cfg | None \<Rightarrow> False)"

definition handle_revoked_reuse ::
  "('s, 'e) refresh_store \<Rightarrow> refresh_token_config \<Rightarrow> datetime \<Rightarrow> refresh_token \<Rightarrow> 's \<Rightarrow> 'e refresh_error \<times> 's" where
  "handle_revoked_reuse st cfg now record s =
     (if revoked_on_purpose record then (Revoked, s)
      else if within_grace cfg now record then (ConcurrentRefresh, s)
      else
        let fid = family_of record;
            (devices, s1) = collect_family_device_targets st fid record s;
            s2 = snd (revoke_family st (rt_user_id record) fid s1)
        in (Revoked, on_token_compromise st (rt_user_id record) fid devices s2))"

subsection \<open>The refresh\<close>

datatype device_refusal = GateRevoked | OtherOwner | GateStore string

definition check_tenant :: "refresh_token \<Rightarrow> tenant_id option \<Rightarrow> bool" where
  "check_tenant record tenant \<longleftrightarrow> (case tenant of Some tn \<Rightarrow> rt_tenant_id record = tn | None \<Rightarrow> True)"

definition token_expired :: "time_limits \<Rightarrow> refresh_token_config \<Rightarrow> datetime \<Rightarrow> refresh_token \<Rightarrow> bool" where
  "token_expired lim cfg now record \<longleftrightarrow> rt_expires_at record \<le> now \<or>
     (case lifetime_end lim cfg (authenticated_at record) of Some e \<Rightarrow> e \<le> now | None \<Rightarrow> False)"

definition check_device ::
  "refresh_token \<Rightarrow> (tenant_id \<Rightarrow> device_id \<Rightarrow> user_id \<Rightarrow> device_refusal + unit) option \<Rightarrow> 'e refresh_error + unit" where
  "check_device record gate =
     (case (rt_device_id record, gate) of
        (Some device, Some check) \<Rightarrow>
          (case check (rt_tenant_id record) device (rt_user_id record) of
             Inl GateRevoked \<Rightarrow> Inl DeviceRevoked
           | Inl OtherOwner \<Rightarrow> Inl DeviceMismatch
           | Inl (GateStore msg) \<Rightarrow> Inl (DeviceStore msg)
           | Inr _ \<Rightarrow> Inr ())
      | _ \<Rightarrow> Inr ())"

definition session_for :: "refresh_token \<Rightarrow> session_data" where
  "session_for record =
     \<lparr>version = SESSION_DATA_VERSION,
      auth_state = Authenticated
        \<lparr>ad_user_id = rt_user_id record, ad_tenant_id = rt_tenant_id record,
         authn_time = authenticated_at record, factors_completed = [], ad_impersonator = None,
         ad_ldap_groups = None\<rparr>,
      fingerprint = None, data_device_id = rt_device_id record, custom = JNull, revision = 0,
      touched_at = None\<rparr>"

definition child_of :: "refresh_token \<Rightarrow> string option \<Rightarrow> issue_request" where
  "child_of record info =
     \<lparr>ir_user_id = rt_user_id record, ir_tenant_id = rt_tenant_id record, ir_device_info = info,
      ir_family_id = Some (family_of record), ir_device_id = rt_device_id record\<rparr>"

datatype replacement = NoReplacement | ReplacementPanics | Replacement string refresh_token

definition replacement_for ::
  "refresh_crypto \<Rightarrow> time_limits \<Rightarrow> string \<Rightarrow> refresh_token_config \<Rightarrow> byte_rng \<Rightarrow> datetime \<Rightarrow> refresh_token \<Rightarrow>
     string option \<Rightarrow> bool \<Rightarrow> replacement \<times> byte_rng" where
  "replacement_for c lim plaintext cfg r now record child_device_info under_previous =
     (if rc_rotation cfg then
        (case build_refresh_token c lim (child_of record child_device_info) cfg r now
                (Some (authenticated_at record)) of
           (Some (p, t), r') \<Rightarrow> (Replacement p t, r')
         | (None, r') \<Rightarrow> (ReplacementPanics, r'))
      else if under_previous then
        (case build_refresh_token_for c lim plaintext (child_of record child_device_info) cfg r now
                (Some (authenticated_at record)) of
           (Some (p, t), r') \<Rightarrow> (Replacement p (t\<lparr>rt_expires_at := rt_expires_at record\<rparr>), r')
         | (None, r') \<Rightarrow> (ReplacementPanics, r'))
      else (NoReplacement, r))"

definition rotate_reread ::
  "('s, 'e) refresh_store \<Rightarrow> refresh_token_config \<Rightarrow> datetime \<Rightarrow> refresh_token \<Rightarrow> 's \<Rightarrow>
     ('e refresh_error + unit) \<times> 's" where
  "rotate_reread st cfg now record s =
     (case find_token st (token_hash record) s of
        (Inl e, s') \<Rightarrow> (Inl (StoreError e), s')
      | (Inr None, s') \<Rightarrow> (Inl NotFound, s')
      | (Inr (Some cur), s') \<Rightarrow>
          if \<not> revoked cur then (Inl ConcurrentRefresh, s')
          else map_prod Inl id (handle_revoked_reuse st cfg now cur s'))"

definition rotate_refused ::
  "('s, 'e) refresh_store \<Rightarrow> refresh_token_config \<Rightarrow> datetime \<Rightarrow> refresh_token \<Rightarrow> refresh_token \<Rightarrow> 's \<Rightarrow>
     ('e refresh_error + unit) \<times> 's" where
  "rotate_refused st cfg now record new_record s =
     (if \<not> rc_rotation cfg then
        (case find_token st (token_hash new_record) s of
           (Inl e, s') \<Rightarrow> (Inl (StoreError e), s')
         | (Inr (Some cur), s') \<Rightarrow>
             if \<not> revoked cur then (Inr (), s') else rotate_reread st cfg now record s'
         | (Inr None, s') \<Rightarrow> rotate_reread st cfg now record s')
      else rotate_reread st cfg now record s)"

definition rotate ::
  "('s, 'e) refresh_store \<Rightarrow> refresh_token_config \<Rightarrow> datetime \<Rightarrow> refresh_token \<Rightarrow> refresh_token \<Rightarrow> 's \<Rightarrow>
     ('e refresh_error + unit) \<times> 's" where
  "rotate st cfg now record new_record s =
     (case rotate_token st (rt_id record) new_record s of
        (Inl e, s') \<Rightarrow> (Inl (StoreError e), s')
      | (Inr RotationDone, s') \<Rightarrow> (Inr (), s')
      | (Inr ParentAlreadyRevoked, s') \<Rightarrow> rotate_refused st cfg now record new_record s')"

record refresh_request =
  rq_plaintext :: string
  rq_tenant :: "tenant_id option"
  rq_device_info :: "string option"
  rq_gate :: "(tenant_id \<Rightarrow> device_id \<Rightarrow> user_id \<Rightarrow> device_refusal + unit) option"
  rq_status :: "user_id \<Rightarrow> bool"

text \<open>The checks that read no store: expiry, account status, device gate and device binding.\<close>

definition admit ::
  "refresh_crypto \<Rightarrow> time_limits \<Rightarrow> refresh_token_config \<Rightarrow> datetime \<Rightarrow> refresh_request \<Rightarrow> located \<Rightarrow>
     'e refresh_error + string option" where
  "admit c lim cfg now req l =
     (let record = loc_record l in
      if token_expired lim cfg now record then Inl Expired
      else if \<not> rq_status req (rt_user_id record) then Inl AccountInactive
      else (case check_device record (rq_gate req) of
              Inl e \<Rightarrow> Inl e
            | Inr _ \<Rightarrow>
                (case verify_binding c record (rq_device_info req)
                        \<lparr>stored_under = loc_stored_under cfg l, current_pepper = pepper cfg\<rparr> of
                   Inl _ \<Rightarrow> Inl DeviceMismatch
                 | Inr info \<Rightarrow> Inr info)))"

definition refresh_located ::
  "refresh_crypto \<Rightarrow> time_limits \<Rightarrow> ('s, 'e) refresh_store \<Rightarrow> refresh_token_config \<Rightarrow> byte_rng \<Rightarrow> datetime \<Rightarrow>
     refresh_request \<Rightarrow> located \<Rightarrow> 's \<Rightarrow>
     ('e refresh_error + session_data \<times> (string \<times> refresh_token) option) \<times> byte_rng \<times> 's" where
  "refresh_located c lim st cfg r now req l s =
     (let record = loc_record l in
      if \<not> check_tenant record (rq_tenant req) then (Inl NotFound, r, s)
      else if revoked record then
        (case handle_revoked_reuse st cfg now record s of (e, s') \<Rightarrow> (Inl e, r, s'))
      else (case admit c lim cfg now req l of
              Inl e \<Rightarrow> (Inl e, r, s)
            | Inr info \<Rightarrow>
                (case replacement_for c lim (rq_plaintext req) cfg r now record info
                        (under_previous_pepper l) of
                   (NoReplacement, r') \<Rightarrow> (Inr (session_for record, None), r', s)
                 | (ReplacementPanics, r') \<Rightarrow> (Inl Panicked, r', s)
                 | (Replacement new_plaintext new_record, r') \<Rightarrow>
                     (case rotate st cfg now record new_record s of
                        (Inl e, s') \<Rightarrow> (Inl e, r', s')
                      | (Inr _, s') \<Rightarrow>
                          (Inr (session_for record,
                             if rc_rotation cfg then Some (new_plaintext, new_record) else None), r', s')))))"

definition refresh_run ::
  "refresh_crypto \<Rightarrow> time_limits \<Rightarrow> ('s, 'e) refresh_store \<Rightarrow> refresh_token_config \<Rightarrow> byte_rng \<Rightarrow> datetime \<Rightarrow>
     refresh_request \<Rightarrow> 's \<Rightarrow>
     ('e refresh_error + session_data \<times> (string \<times> refresh_token) option) \<times> byte_rng \<times> 's" where
  "refresh_run c lim st cfg r now req s =
     (case refresh_config_validate cfg of
        Inl e \<Rightarrow> (Inl (InvalidConfig e), r, s)
      | Inr _ \<Rightarrow>
          (case validate_device_info cfg (rq_device_info req \<noteq> None) of
             Inl e \<Rightarrow> (Inl (InvalidConfig e), r, s)
           | Inr _ \<Rightarrow>
               (case locate c st cfg (rq_plaintext req) s of
                  (Inl e, s') \<Rightarrow> (Inl (StoreError e), r, s')
                | (Inr None, s') \<Rightarrow> (Inl NotFound, r, s')
                | (Inr (Some l), s') \<Rightarrow> refresh_located c lim st cfg r now req l s')))"

subsection \<open>Revoking by plaintext\<close>

definition revoke_scoped ::
  "refresh_crypto \<Rightarrow> string \<Rightarrow> tenant_id option \<Rightarrow> ('s, 'e) refresh_store \<Rightarrow> refresh_token_config \<Rightarrow> 's \<Rightarrow>
     ('e refresh_error + unit) \<times> 's" where
  "revoke_scoped c plaintext tenant st cfg s =
     (case refresh_config_validate cfg of
        Inl e \<Rightarrow> (Inl (InvalidConfig e), s)
      | Inr _ \<Rightarrow>
          (case locate c st cfg plaintext s of
             (Inl e, s') \<Rightarrow> (Inl (StoreError e), s')
           | (Inr None, s') \<Rightarrow> (Inl NotFound, s')
           | (Inr (Some l), s') \<Rightarrow>
               if \<not> check_tenant (loc_record l) tenant then (Inl NotFound, s')
               else (case revoke_token st (rt_id (loc_record l)) s' of
                       (Inl e, s'') \<Rightarrow> (Inl (StoreError e), s'')
                     | (Inr _, s'') \<Rightarrow> (Inr (), s''))))"

definition revoke_refresh_token ::
  "refresh_crypto \<Rightarrow> string \<Rightarrow> ('s, 'e) refresh_store \<Rightarrow> refresh_token_config \<Rightarrow> 's \<Rightarrow> ('e refresh_error + unit) \<times> 's" where
  "revoke_refresh_token c plaintext = revoke_scoped c plaintext None"

definition revoke_refresh_token_in_tenant ::
  "refresh_crypto \<Rightarrow> string \<Rightarrow> tenant_id \<Rightarrow> ('s, 'e) refresh_store \<Rightarrow> refresh_token_config \<Rightarrow> 's \<Rightarrow>
     ('e refresh_error + unit) \<times> 's" where
  "revoke_refresh_token_in_tenant c plaintext tenant = revoke_scoped c plaintext (Some tenant)"

subsection \<open>Calls among other requests\<close>

definition disturbed_refresh_store :: "('s, 'e) refresh_store \<Rightarrow> (('s, 'e) world, 'e) refresh_store" where
  "disturbed_refresh_store st =
     \<lparr>store_token = (\<lambda>t. disturbed (store_token st t)),
      find_token = (\<lambda>h. disturbed (find_token st h)),
      revoke_token = (\<lambda>i. disturbed (revoke_token st i)),
      revoke_user_tokens = (\<lambda>u. disturbed (revoke_user_tokens st u)),
      revoke_device_tokens = (\<lambda>tn dev. disturbed (revoke_device_tokens st tn dev)),
      active_tokens = (\<lambda>u. disturbed (active_tokens st u)),
      revoke_family = (\<lambda>u fid. disturbed (revoke_family st u fid)),
      issue_capped = (\<lambda>t mx. disturbed (issue_capped st t mx)),
      rotate_token = (\<lambda>parent t. disturbed (rotate_token st parent t)),
      on_token_compromise = (\<lambda>u fid devs w. snd (disturbed (hook_call st u fid devs) w))\<rparr>"

lemma disturbed_refresh_sel [simp]:
  "find_token (disturbed_refresh_store st) h = disturbed (find_token st h)"
  "active_tokens (disturbed_refresh_store st) u = disturbed (active_tokens st u)"
  "revoke_family (disturbed_refresh_store st) u fid = disturbed (revoke_family st u fid)"
  "issue_capped (disturbed_refresh_store st) t mx = disturbed (issue_capped st t mx)"
  "rotate_token (disturbed_refresh_store st) parent t = disturbed (rotate_token st parent t)"
  "revoke_token (disturbed_refresh_store st) i = disturbed (revoke_token st i)"
  "on_token_compromise (disturbed_refresh_store st) u fid devs w = snd (disturbed (hook_call st u fid devs) w)"
  by (simp_all add: disturbed_refresh_store_def)

text \<open>A predicate that revocations keep.\<close>

definition revocation_closed :: "(refresh_view \<Rightarrow> bool) \<Rightarrow> bool" where
  "revocation_closed P \<longleftrightarrow> (\<forall>v v'. P v \<longrightarrow> only_revokes v v' \<longrightarrow> P v')"

lemma only_revokes_rows: "only_revokes v (revoke_rows Q reason v)"
proof -
  have "case tokens v i of None \<Rightarrow> tokens (revoke_rows Q reason v) i = None
      | Some t \<Rightarrow> tokens (revoke_rows Q reason v) i = Some t \<or>
          (\<exists>reason' at. tokens (revoke_rows Q reason v) i = Some (revoke_row reason' at t))" for i
    by (cases "tokens v i") (auto simp: revoke_rows_def)
  moreover have "store_now (revoke_rows Q reason v) = store_now v" by (simp add: revoke_rows_def)
  ultimately show ?thesis unfolding only_revokes_def by blast
qed

text \<open>What a refused refresh may do: nothing, or revoke when it reports a reuse.\<close>

definition quiet_unless :: "bool \<Rightarrow> refresh_view \<Rightarrow> refresh_view \<Rightarrow> bool" where
  "quiet_unless b v v' \<longleftrightarrow> v' = v \<or> b \<and> only_revokes v v'"

lemma quiet_unless_simps [simp]:
  "quiet_unless b v v" "quiet_unless False = (\<lambda>v v'. v' = v)" "quiet_unless True = only_revokes"
  by (auto simp: quiet_unless_def fun_eq_iff)

text \<open>A refresh that has the record: it is stored, under the hash the presented token has.\<close>

definition found_in :: "refresh_crypto \<Rightarrow> refresh_token_config \<Rightarrow> string \<Rightarrow> located \<Rightarrow> refresh_view \<Rightarrow> bool" where
  "found_in c cfg plaintext l v \<longleftrightarrow> tokens v (rt_id (loc_record l)) = Some (loc_record l) \<and>
     token_hash (loc_record l) = hash_token c plaintext (loc_stored_under cfg l)"

context refresh_store_contract
begin

lemma find_call:
  assumes "env_keeps (\<lambda>s. good s \<and> P (seen s)) w" "disturbed (find_token st h) w = (r, w')"
  shows "traced good seen P (\<lambda>a b. b = a) w w' \<and>
    (\<forall>t. r = Inr (Some t) \<longrightarrow> (\<exists>v. P v \<and> tokens v (rt_id t) = Some t \<and> token_hash t = h)) \<and>
    (r = Inr None \<longrightarrow> (\<exists>v. P v \<and> (\<forall>t \<in> ran (tokens v). token_hash t \<noteq> h)))"
proof -
  from disturbed_fulfils [OF find_step assms, where R = "\<lambda>a b. b = a"]
  have "traced good seen P (\<lambda>a b. b = a) w w'"
    and found: "\<And>x. r = Inr x \<Longrightarrow> \<exists>v. P v \<and> spec_find h v x (seen (current w'))"
    by (auto simp: spec_find_def)
  moreover from found have "\<exists>v. P v \<and> tokens v (rt_id t) = Some t \<and> token_hash t = h" if "r = Inr (Some t)" for t
    using that by (fastforce simp: spec_find_def)
  moreover from found have "\<exists>v. P v \<and> (\<forall>t \<in> ran (tokens v). token_hash t \<noteq> h)" if "r = Inr None"
    using that by (fastforce simp: spec_find_def)
  ultimately show ?thesis by blast
qed

lemma locate_calls:
  assumes "env_keeps (\<lambda>s. good s \<and> P (seen s)) w"
    and "locate c (disturbed_refresh_store st) cfg plaintext w = (r, w')"
  shows "traced good seen P (\<lambda>a b. b = a) w w' \<and>
    (\<forall>l. r = Inr (Some l) \<longrightarrow> (\<exists>v. P v \<and> found_in c cfg plaintext l v))"
proof -
  obtain r1 w1 where first: "disturbed (find_token st (hash_token c plaintext (pepper cfg))) w = (r1, w1)" by fastforce
  note f1 = find_call [OF assms(1) first]
  consider (err) e where "r1 = Inl e" "r = Inl e" "w' = w1"
    | (found) t where "r1 = Inr (Some t)" "r = Inr (Some \<lparr>loc_record = t, under_previous_pepper = False\<rparr>)" "w' = w1"
    | (none) "r1 = Inr None" "previous_pepper_of cfg = None" "r = Inr None" "w' = w1"
    | (again) p r2 where "r1 = Inr None" "previous_pepper_of cfg = Some p"
        "disturbed (find_token st (hash_token c plaintext p)) w1 = (r2, w')"
        "r = map_sum id (map_option (\<lambda>t. \<lparr>loc_record = t, under_previous_pepper = True\<rparr>)) r2"
    using assms(2) first by (auto simp: locate_def act_bind_apply split: sum.splits option.splits prod.splits)
  then show ?thesis
  proof cases
    case (found t)
    with f1 show ?thesis by (auto simp: found_in_def loc_stored_under_def)
  next
    case (again p r2)
    from f1 have t1: "traced good seen P (\<lambda>a b. b = a) w w1" by blast
    note f2 = find_call [OF traced_env [OF t1] again(3)]
    then have "traced good seen P (\<lambda>a b. b = a) w w'" using traced_trans [OF t1] by blast
    moreover have "\<exists>v. P v \<and> found_in c cfg plaintext l v" if l: "r = Inr (Some l)" for l
    proof -
      from l again(4) obtain t where "r2 = Inr (Some t)" "l = \<lparr>loc_record = t, under_previous_pepper = True\<rparr>"
        by (cases r2) (auto split: option.splits)
      with f2 again(2) show ?thesis by (auto simp: found_in_def loc_stored_under_def)
    qed
    ultimately show ?thesis by blast
  qed (use f1 in auto)
qed

text \<open>The response to a reuse only revokes.\<close>

lemma reuse_calls:
  assumes "revocation_closed P" and "env_keeps (\<lambda>s. good s \<and> P (seen s)) w"
    and "handle_revoked_reuse (disturbed_refresh_store st) cfg now record w = (e, w')"
  shows "traced good seen P (quiet_unless (e = Revoked)) w w' \<and> (e = Revoked \<or> e = ConcurrentRefresh)"
proof -
  consider (quiet) "w' = w" "e = Revoked \<or> e = ConcurrentRefresh"
    | (sweep) devs w1 r2 w2 r3 r1 where
        "disturbed (active_tokens st (rt_user_id record)) w = (r1, w1)"
        "disturbed (revoke_family st (rt_user_id record) (family_of record)) w1 = (r2, w2)"
        "disturbed (hook_call st (rt_user_id record) (family_of record) devs) w2 = (r3, w')" "e = Revoked"
    using assms(3)
    by (auto simp: handle_revoked_reuse_def collect_family_device_targets_def Let_def
        split: if_splits prod.splits sum.splits) (metis prod.collapse)+
  then show ?thesis
  proof cases
    case quiet
    with traced_refl [of good P seen w "quiet_unless (e = Revoked)", OF assms(2)] show ?thesis by simp
  next
    case (sweep devs w1 r2 w2 r3 r1)
    have closed: "P v'" if "P v" "only_revokes v v'" for v v'
      using assms(1) that by (auto simp: revocation_closed_def)
    from disturbed_fulfils [OF active_step assms(2) sweep(1), where R = only_revokes]
    have t1: "traced good seen P only_revokes w w1" by (simp add: spec_active_def)
    from disturbed_fulfils [OF revoke_family_step traced_env [OF t1] sweep(2), where R = only_revokes] closed
    have t2: "traced good seen P only_revokes w1 w2" by (auto simp: spec_revoke_family_def only_revokes_rows)
    from disturbed_fulfils [OF hook_step traced_env [OF t2] sweep(3), where R = only_revokes] closed
    have t3: "traced good seen P only_revokes w2 w'" by auto
    from traced_trans [OF traced_trans [OF t1 t2] t3] sweep(4) show ?thesis by simp
  qed
qed

lemma reread_calls:
  assumes "revocation_closed P" and "env_keeps (\<lambda>s. good s \<and> P (seen s)) w"
    and "rotate_reread (disturbed_refresh_store st) cfg now record w = (r, w')"
  shows "traced good seen P (quiet_unless (r = Inl Revoked)) w w' \<and> isl r"
proof -
  obtain r1 w1 where first: "disturbed (find_token st (token_hash record)) w = (r1, w1)" by fastforce
  from find_call [OF assms(2) first] have "traced good seen P (\<lambda>a b. b = a) w w1" by blast
  then have t1: "traced good seen P (quiet_unless b) w w1" for b by (rule traced_mono) simp
  consider "w' = w1" "isl r" | cur e where "handle_revoked_reuse (disturbed_refresh_store st) cfg now cur w1 = (e, w')" "r = Inl e"
    using assms(3) first by (auto simp: rotate_reread_def map_prod_def split: sum.splits option.splits if_splits prod.splits)
  then show ?thesis
  proof cases
    case (2 cur e)
    with reuse_calls [OF assms(1) traced_env [OF t1] 2(1)] traced_trans [OF t1] show ?thesis by auto
  qed (simp add: t1)
qed

text \<open>
  A rotation the store refused only reads and revokes; it succeeds only for a token that is kept,
  when that token is already stored under its new hash.
\<close>

lemma refused_calls:
  assumes "revocation_closed P" and "env_keeps (\<lambda>s. good s \<and> P (seen s)) w"
    and "rotate_refused (disturbed_refresh_store st) cfg now record new_record w = (r, w')"
  shows "traced good seen P (quiet_unless (r = Inl Revoked)) w w' \<and>
    (r = Inr () \<longrightarrow> \<not> rc_rotation cfg \<and>
       (\<exists>v cur. P v \<and> tokens v (rt_id cur) = Some cur \<and> \<not> revoked cur \<and> token_hash cur = token_hash new_record))"
proof (cases "rc_rotation cfg")
  case True
  with assms(3) have "rotate_reread (disturbed_refresh_store st) cfg now record w = (r, w')"
    by (simp add: rotate_refused_def)
  from reread_calls [OF assms(1,2) this] show ?thesis by auto
next
  case False
  obtain r2 w2 where found: "disturbed (find_token st (token_hash new_record)) w = (r2, w2)" by fastforce
  note f2 = find_call [OF assms(2) found]
  then have t2: "traced good seen P (quiet_unless b) w w2" for b by (auto elim: traced_mono)
  consider (err) e where "r2 = Inl e" | (live) cur where "r2 = Inr (Some cur)" "\<not> revoked cur"
    | (other) x where "r2 = Inr x" "\<And>cur. x = Some cur \<Longrightarrow> revoked cur"
    by (metis sum.exhaust)
  then show ?thesis
  proof cases
    case err
    with assms(3) found False t2 show ?thesis by (auto simp: rotate_refused_def)
  next
    case (live cur)
    with assms(3) found False have "r = Inr ()" "w' = w2" by (auto simp: rotate_refused_def)
    with live f2 t2 False show ?thesis by blast
  next
    case (other x)
    with assms(3) found False have "rotate_reread (disturbed_refresh_store st) cfg now record w2 = (r, w')"
      by (cases x) (simp_all add: rotate_refused_def)
    from reread_calls [OF assms(1) traced_env [OF t2] this] traced_trans [OF t2] show ?thesis by auto
  qed
qed

text \<open>
  A rotation either only reads and revokes, or its one call found the parent live, revoked it and
  stored the child.
\<close>

lemma rotate_calls:
  assumes "revocation_closed P" and "env_keeps (\<lambda>s. good s \<and> P (seen s)) w"
    and "rotate (disturbed_refresh_store st) cfg now record new_record w = (r, w')"
  obtains (revoking) "traced good seen P (quiet_unless (r = Inl Revoked)) w w'" "r = Inr () \<Longrightarrow> \<not> rc_rotation cfg \<and>
      (\<exists>v cur. P v \<and> tokens v (rt_id cur) = Some cur \<and> \<not> revoked cur \<and> token_hash cur = token_hash new_record)"
  | (rotated) s where "P (seen s)" "good s" "good (current w')" "effects w' = (s, current w') # effects w"
      "spec_rotate (rt_id record) new_record (seen s) RotationDone (seen (current w'))"
      "r = Inr () \<or> (\<exists>e. r = Inl (StoreError e))"
proof -
  obtain r1 w1 where first: "disturbed (rotate_token st (rt_id record) new_record) w = (r1, w1)" by fastforce
  obtain s where s: "P (seen s)" "good s" "good (current w1)" "effects w1 = (s, current w1) # effects w"
    "ahead w1 = drop 1 (ahead w)"
    "\<And>x. r1 = Inr x \<Longrightarrow> spec_rotate (rt_id record) new_record (seen s) x (seen (current w1))"
    "seen (current w1) = seen s \<or> (\<exists>x. spec_rotate (rt_id record) new_record (seen s) x (seen (current w1)))"
    by (rule disturbed_found [OF rotate_step assms(2) first]) blast
  show thesis
  proof (cases "r1 \<noteq> Inr ParentAlreadyRevoked \<and> spec_rotate (rt_id record) new_record (seen s) RotationDone (seen (current w1))")
    case True
    with assms(3) first have "w' = w1" "r = Inr () \<or> (\<exists>e. r = Inl (StoreError e))"
      by (auto simp: rotate_def split: sum.splits rotation_outcome.splits)
    with conjunct2 [OF True] s(1-4) show thesis by (intro rotated [of s]) simp_all
  next
    case False
    have same: "seen (current w1) = seen s"
      using s(6,7) False by (cases r1) (auto simp: spec_rotate_def split: option.splits if_splits)
    with s have "env_keeps (\<lambda>s. good s \<and> P (seen s)) w1" by (intro env_keeps_step [OF assms(2)]) simp_all
    with s same have t1: "traced good seen P (quiet_unless b) w w1" for b
      unfolding traced_def by (intro conjI exI [of _ "[(s, current w1)]"]) auto
    consider e where "r1 = Inl e" | "r1 = Inr ParentAlreadyRevoked"
      using False s(6) by (metis rotation_outcome.exhaust sum.exhaust sum.inject(2) rotation_outcome.distinct(1))
    then show thesis
    proof cases
      case 1
      with assms(3) first t1 show thesis by (intro revoking) (auto simp: rotate_def)
    next
      case 2
      with assms(3) first have "rotate_refused (disturbed_refresh_store st) cfg now record new_record w1 = (r, w')"
        by (simp add: rotate_def)
      from refused_calls [OF assms(1) traced_env [OF t1] this] traced_trans [OF t1]
      show thesis by (intro revoking) auto
    qed
  qed
qed

text \<open>How a refresh ends, once it has its record and in all.\<close>

lemma located_cases:
  assumes "revocation_closed P" and "env_keeps (\<lambda>s. good s \<and> P (seen s)) w"
    and "refresh_located c lim (disturbed_refresh_store st) cfg r now req l w = (res, r', w')"
  obtains (refused) e where "res = Inl e" "traced good seen P (quiet_unless (e = Revoked)) w w'"
  | (kept) info where "res = Inr (session_for (loc_record l), None)" "\<not> rc_rotation cfg"
      "\<not> revoked (loc_record l)" "check_tenant (loc_record l) (rq_tenant req)"
      "(admit c lim cfg now req l :: 'e refresh_error + string option) = Inr info"
      "traced good seen P (\<lambda>a b. b = a) w w'"
  | (rotated) info p t s where
      "res = Inr (session_for (loc_record l), if rc_rotation cfg then Some (p, t) else None) \<or>
       (\<exists>e. res = Inl (StoreError e))"
      "\<not> revoked (loc_record l)" "check_tenant (loc_record l) (rq_tenant req)"
      "(admit c lim cfg now req l :: 'e refresh_error + string option) = Inr info"
      "replacement_for c lim (rq_plaintext req) cfg r now (loc_record l) info (under_previous_pepper l) = (Replacement p t, r')"
      "P (seen s)" "good s" "good (current w')" "effects w' = (s, current w') # effects w"
      "spec_rotate (rt_id (loc_record l)) t (seen s) RotationDone (seen (current w'))"
proof -
  have here: "traced good seen P (quiet_unless b) w w" for b
    by (rule traced_refl [of good P seen w "quiet_unless b", OF assms(2)])
  consider (tenant) "res = Inl NotFound" "w' = w"
    | (reuse) e where "handle_revoked_reuse (disturbed_refresh_store st) cfg now (loc_record l) w = (e, w')" "res = Inl e"
    | (turned) e where "res = Inl e" "w' = w"
    | (admitted) info where "check_tenant (loc_record l) (rq_tenant req)" "\<not> revoked (loc_record l)"
        "(admit c lim cfg now req l :: 'e refresh_error + string option) = Inr info"
    using assms(3) by (auto simp: refresh_located_def Let_def split: if_splits sum.splits prod.splits)
  then show thesis
  proof cases
    case tenant
    with here show thesis by (intro refused) auto
  next
    case (reuse e)
    with reuse_calls [OF assms(1,2)] show thesis by (intro refused) auto
  next
    case (turned e)
    with here show thesis by (intro refused) auto
  next
    case (admitted info)
    obtain rep r1 where rep: "replacement_for c lim (rq_plaintext req) cfg r now (loc_record l) info
        (under_previous_pepper l) = (rep, r1)" by fastforce
    show thesis
    proof (cases rep)
      case NoReplacement
      with rep have "\<not> rc_rotation cfg" by (auto simp: replacement_for_def split: if_splits prod.splits option.splits)
      with assms(3) admitted rep NoReplacement traced_refl [of good P seen w "\<lambda>a b. b = a", OF assms(2)]
      show thesis by (intro kept) (auto simp: refresh_located_def)
    next
      case ReplacementPanics
      with assms(3) admitted rep here show thesis by (intro refused) (auto simp: refresh_located_def)
    next
      case (Replacement p t)
      obtain r2 w2 where rot: "rotate (disturbed_refresh_store st) cfg now (loc_record l) t w = (r2, w2)" by fastforce
      from assms(3) admitted rep Replacement rot have res: "w' = w2" "r' = r1"
        "res = (case r2 of Inl e \<Rightarrow> Inl e
          | Inr _ \<Rightarrow> Inr (session_for (loc_record l), if rc_rotation cfg then Some (p, t) else None))"
        by (auto simp: refresh_located_def split: sum.splits)
      from assms(1,2) rot show thesis
      proof (cases rule: rotate_calls)
        case revoking
        show thesis
        proof (cases r2)
          case (Inl e)
          with revoking(1) res show thesis by (intro refused) auto
        next
          case (Inr u)
          with revoking res admitted show thesis by (intro kept) auto
        qed
      next
        case (rotated s)
        with res admitted rep Replacement show thesis by (intro that(3)) auto
      qed
    qed
  qed
qed

lemma refresh_cases:
  assumes "revocation_closed P" and "env_keeps (\<lambda>s. good s \<and> P (seen s)) w"
    and "refresh_run c lim (disturbed_refresh_store st) cfg r now req w = (res, r', w')"
  obtains (refused) e where "res = Inl e" "traced good seen P (quiet_unless (e = Revoked)) w w'"
  | (kept) l v info where "res = Inr (session_for (loc_record l), None)" "\<not> rc_rotation cfg"
      "P v" "found_in c cfg (rq_plaintext req) l v" "\<not> revoked (loc_record l)"
      "check_tenant (loc_record l) (rq_tenant req)"
      "(admit c lim cfg now req l :: 'e refresh_error + string option) = Inr info"
      "traced good seen P (\<lambda>a b. b = a) w w'"
  | (rotated) l v info p t s w1 where
      "res = Inr (session_for (loc_record l), if rc_rotation cfg then Some (p, t) else None) \<or>
       (\<exists>e. res = Inl (StoreError e))"
      "P v" "found_in c cfg (rq_plaintext req) l v" "\<not> revoked (loc_record l)"
      "check_tenant (loc_record l) (rq_tenant req)"
      "(admit c lim cfg now req l :: 'e refresh_error + string option) = Inr info"
      "replacement_for c lim (rq_plaintext req) cfg r now (loc_record l) info (under_previous_pepper l) = (Replacement p t, r')"
      "traced good seen P (\<lambda>a b. b = a) w w1" "P (seen s)" "good s" "good (current w')"
      "effects w' = (s, current w') # effects w1"
      "spec_rotate (rt_id (loc_record l)) t (seen s) RotationDone (seen (current w'))"
proof (cases "(\<exists>e. refresh_config_validate cfg = Inl e) \<or> (\<exists>e. validate_device_info cfg (rq_device_info req \<noteq> None) = Inl e)")
  case True
  with assms(3) have "\<exists>e. res = Inl e" "w' = w" by (auto simp: refresh_run_def split: sum.splits)
  with traced_refl [of good P seen w "quiet_unless b" for b, OF assms(2)] show thesis by (auto intro: refused)
next
  case False
  then obtain u u' where ok: "refresh_config_validate cfg = Inr u"
    "validate_device_info cfg (rq_device_info req \<noteq> None) = Inr u'"
    by (metis sum.exhaust)
  obtain rl w1 where loc: "locate c (disturbed_refresh_store st) cfg (rq_plaintext req) w = (rl, w1)" by fastforce
  note found = locate_calls [OF assms(2) loc]
  then have t0: "traced good seen P (\<lambda>a b. b = a) w w1" by blast
  then have t1: "traced good seen P (quiet_unless b) w w1" for b by (rule traced_mono) simp
  show thesis
  proof (cases "\<exists>l. rl = Inr (Some l)")
    case False
    with assms(3) ok loc have "\<exists>e. res = Inl e" "w' = w1"
      by (auto simp: refresh_run_def split: sum.splits option.splits)
    with t1 show thesis by (auto intro: refused)
  next
    case True
    then obtain l where l: "rl = Inr (Some l)" by blast
    with found obtain v where v: "P v" "found_in c cfg (rq_plaintext req) l v" by blast
    from assms(3) ok loc l
    have "refresh_located c lim (disturbed_refresh_store st) cfg r now req l w1 = (res, r', w')"
      by (simp add: refresh_run_def)
    with assms(1) traced_env [OF t0] show thesis
    proof (cases rule: located_cases)
      case (refused e)
      with traced_trans [OF t1] show thesis by (intro that(1)) auto
    next
      case (kept info)
      with traced_trans [OF t0] v show thesis by (intro that(2)) auto
    next
      case (rotated info p t s)
      with t0 v show thesis by (intro that(3)) auto
    qed
  qed
qed

end

subsection \<open>Families\<close>

text \<open>
  Of a family at most one token is live. \<open>fam\<close> records the family each row id was stored with, so
  that a row read earlier and a row rotated later are known to be of one family.
\<close>

definition one_live :: "refresh_view \<Rightarrow> bool" where
  "one_live v \<longleftrightarrow> (\<forall>i j a b. tokens v i = Some a \<and> tokens v j = Some b \<and> \<not> revoked a \<and> \<not> revoked b \<and>
     family_of a = family_of b \<longrightarrow> i = j)"

definition filed :: "(refresh_token_id \<Rightarrow> token_family_id) \<Rightarrow> refresh_view \<Rightarrow> bool" where
  "filed fam v \<longleftrightarrow> (\<forall>i t. tokens v i = Some t \<longrightarrow> family_of t = fam i)"

definition dead :: "token_family_id \<Rightarrow> refresh_view \<Rightarrow> bool" where
  "dead f v \<longleftrightarrow> (\<forall>i t. tokens v i = Some t \<and> family_of t = f \<longrightarrow> revoked t)"

lemma family_of_revoke [simp]: "family_of (revoke_row reason at t) = family_of t"
  by (simp add: family_of_def split: option.split)

lemma only_revokes_row:
  assumes "only_revokes v v'" "tokens v' i = Some t'"
  obtains t where "tokens v i = Some t" "t' = t \<or> (\<exists>reason at. t' = revoke_row reason at t)"
  using assms unfolding only_revokes_def by (cases "tokens v i") (force dest: spec [of _ i])+

lemma family_closed:
  "revocation_closed (\<lambda>v. filed fam v)" "revocation_closed one_live" "revocation_closed (dead f)"
  unfolding revocation_closed_def
proof safe
  fix v v' assume r: "only_revokes v v'"
  note row = only_revokes_row [OF r]
  show "filed fam v'" if "filed fam v"
    using that unfolding filed_def by (metis family_of_revoke row)
  show "one_live v'" if "one_live v"
    using that unfolding one_live_def by (metis family_of_revoke revoke_row_simps(1) row)
  show "dead f v'" if "dead f v"
    using that unfolding dead_def by (metis family_of_revoke revoke_row_simps(1) row)
qed

lemma revocation_closed_conj:
  "revocation_closed P \<Longrightarrow> revocation_closed Q \<Longrightarrow> revocation_closed (\<lambda>v. P v \<and> Q v)"
  by (auto simp: revocation_closed_def)

text \<open>What a rotation stores.\<close>

lemma replacement_child:
  assumes "replacement_for c lim plaintext cfg r now record info up = (Replacement p t, r')"
  shows "family_of t = family_of record" "\<not> revoked t" "rt_user_id t = rt_user_id record"
    "rt_tenant_id t = rt_tenant_id record" "rt_device_id t = rt_device_id record"
    "authenticated_at t = authenticated_at record" "issued_at t = now"
    "token_hash t = hash_token c p (pepper cfg)" "\<not> rc_rotation cfg \<Longrightarrow> p = plaintext"
    "\<not> rc_rotation cfg \<Longrightarrow> rt_expires_at t = rt_expires_at record"
    "rc_rotation cfg \<Longrightarrow> rt_expires_at t \<le> now + rc_ttl cfg"
    "rc_rotation cfg \<Longrightarrow> lifetime_end lim cfg (authenticated_at record) = Some e \<Longrightarrow> rt_expires_at t \<le> e"
  using assms
  by (auto simp: replacement_for_def build_refresh_token_def build_refresh_token_for_def child_of_def
      family_of_def authenticated_at_def checked_add_signed_def Let_def
      split: if_splits prod.splits option.splits)

lemma rotated_tokens:
  assumes "spec_rotate parent t v RotationDone v'"
  obtains q where "tokens v parent = Some q" "\<not> revoked q"
    "\<And>i u. tokens v' i = Some u \<Longrightarrow> i = rt_id t \<and> u = t \<or>
       i \<noteq> rt_id t \<and> i = parent \<and> u = revoke_row Rotated_Out (issued_at t) q \<or>
       i \<noteq> rt_id t \<and> i \<noteq> parent \<and> tokens v i = Some u"
proof -
  from assms obtain q where q: "tokens v parent = Some q" "\<not> revoked q"
    "v' = put_row t (v\<lparr>tokens := (tokens v)(parent \<mapsto> revoke_row Rotated_Out (issued_at t) q)\<rparr>)"
    by (auto simp: spec_rotate_def split: option.splits if_splits)
  show thesis
    by (rule that [OF q(1,2)]) (auto simp: q(3) put_row_def split: if_splits)
qed

lemma rotation_keeps_one_live:
  assumes "one_live v" "filed fam v" "spec_rotate parent t v RotationDone v'"
    and "family_of t = fam parent"
  shows "one_live v' \<and> filed (fam(rt_id t := fam parent)) v'"
proof -
  obtain q where q: "tokens v parent = Some q" "\<not> revoked q" and rows: "\<And>i u. tokens v' i = Some u \<Longrightarrow>
       i = rt_id t \<and> u = t \<or> i \<noteq> rt_id t \<and> i = parent \<and> u = revoke_row Rotated_Out (issued_at t) q \<or>
       i \<noteq> rt_id t \<and> i \<noteq> parent \<and> tokens v i = Some u"
    by (rule rotated_tokens [OF assms(3)]) blast
  have fam: "family_of q = fam parent" using assms(2) q(1) by (simp add: filed_def)
  have other: "family_of u \<noteq> fam parent" if "tokens v i = Some u" "\<not> revoked u" "i \<noteq> parent" for i u
    using assms(1) that q fam unfolding one_live_def by metis
  have "i = j" if "tokens v' i = Some a" "tokens v' j = Some b" "\<not> revoked a" "\<not> revoked b"
    "family_of a = family_of b" for i j a b
    using rows [OF that(1)] rows [OF that(2)] that(3-5) other assms(1,4)
    unfolding one_live_def by (metis revoke_row_simps(1))
  moreover have "family_of u = (fam(rt_id t := fam parent)) i" if "tokens v' i = Some u" for i u
    using rows [OF that] assms(2,4) fam by (auto simp: filed_def)
  ultimately show ?thesis unfolding one_live_def filed_def by blast
qed

lemma dead_rotation:
  assumes "dead f v" "spec_rotate parent t v RotationDone v'" "family_of t \<noteq> f"
  shows "dead f v'"
proof -
  obtain q where "tokens v parent = Some q" "\<not> revoked q" and rows: "\<And>i u. tokens v' i = Some u \<Longrightarrow>
       i = rt_id t \<and> u = t \<or> i \<noteq> rt_id t \<and> i = parent \<and> u = revoke_row Rotated_Out (issued_at t) q \<or>
       i \<noteq> rt_id t \<and> i \<noteq> parent \<and> tokens v i = Some u"
    by (rule rotated_tokens [OF assms(2)]) blast
  with assms(1,3) show ?thesis unfolding dead_def by (metis revoke_row_simps(1))
qed

text \<open>Whatever row the presented token is found under is of the family.\<close>

definition belongs :: "refresh_crypto \<Rightarrow> refresh_token_config \<Rightarrow> string \<Rightarrow> token_family_id \<Rightarrow> refresh_view \<Rightarrow> bool" where
  "belongs c cfg plaintext f v \<longleftrightarrow> (\<forall>l. found_in c cfg plaintext l v \<longrightarrow> family_of (loc_record l) = f)"

lemma belongs_closed: "revocation_closed (belongs c cfg plaintext f)"
  unfolding revocation_closed_def belongs_def
proof safe
  fix v v' l assume before: "\<forall>l. found_in c cfg plaintext l v \<longrightarrow> family_of (loc_record l) = f"
    and r: "only_revokes v v'" and l: "found_in c cfg plaintext l v'"
  from l obtain t where t: "tokens v (rt_id (loc_record l)) = Some t"
      "loc_record l = t \<or> (\<exists>reason at. loc_record l = revoke_row reason at t)"
    unfolding found_in_def by (metis only_revokes_row [OF r])
  with l have "found_in c cfg plaintext (l\<lparr>loc_record := t\<rparr>) v" "family_of (loc_record l) = family_of t"
    by (auto simp: found_in_def loc_stored_under_def)
  with before show "family_of (loc_record l) = f" by fastforce
qed

context refresh_store_contract
begin

lemma refresh_one_live:
  assumes "env_keeps (\<lambda>s. good s \<and> (one_live (seen s) \<and> filed fam (seen s))) w"
    and "refresh_run c lim (disturbed_refresh_store st) cfg r now req w = (res, r', w')"
  shows "one_live (seen (current w')) \<and> (\<exists>fam'. filed fam' (seen (current w')))"
proof -
  let ?P = "\<lambda>v. one_live v \<and> filed fam v"
  have closed: "revocation_closed ?P" by (intro revocation_closed_conj family_closed)
  have stays: ?thesis if "traced good seen ?P R w w'" for R
    using traced_env [OF that] by (auto simp: env_keeps_def)
  from closed assms show ?thesis
  proof (cases rule: refresh_cases)
    case (rotated l v info p t s w1)
    have "family_of t = fam (rt_id (loc_record l))"
      using rotated replacement_child(1) [OF rotated(7)] by (auto simp: found_in_def filed_def)
    with rotation_keeps_one_live [OF _ _ rotated(13)] rotated(9) show ?thesis by blast
  qed (use stays in blast)+
qed

text \<open>A family without a live token stays so, and none of its tokens is refreshed.\<close>

lemma refresh_dead:
  assumes "env_keeps (\<lambda>s. good s \<and> (dead f (seen s) \<and> Q (seen s))) w" and "revocation_closed Q"
    and "refresh_run c lim (disturbed_refresh_store st) cfg r now req w = (res, r', w')"
  shows "dead f (seen (current w'))"
    and "(\<And>v. Q v \<Longrightarrow> belongs c cfg (rq_plaintext req) f v) \<Longrightarrow> isl res"
proof -
  let ?P = "\<lambda>v. dead f v \<and> Q v"
  have closed: "revocation_closed ?P" by (intro revocation_closed_conj family_closed assms(2))
  have stays: "dead f (seen (current w'))" if "traced good seen ?P R w w'" for R
    using traced_env [OF that] by (auto simp: env_keeps_def)
  have alive: "family_of (loc_record l) \<noteq> f" if "?P v" "found_in c cfg (rq_plaintext req) l v" "\<not> revoked (loc_record l)" for l v
    using that by (auto simp: dead_def found_in_def)
  from closed assms(1,3) show "dead f (seen (current w'))"
  proof (cases rule: refresh_cases)
    case (rotated l v info p t s w1)
    have "family_of t \<noteq> f" using alive [OF rotated(2-4)] replacement_child(1) [OF rotated(7)] by simp
    with dead_rotation [OF _ rotated(13)] rotated(9) show ?thesis by blast
  qed (use stays in blast)+
  assume "\<And>v. Q v \<Longrightarrow> belongs c cfg (rq_plaintext req) f v"
  then have spent: "revoked (loc_record l)" if "?P v" "found_in c cfg (rq_plaintext req) l v" for l v
    using alive that by (auto simp: belongs_def)
  from closed assms(1,3) show "isl res"
    by (cases rule: refresh_cases) (use spent in auto)
qed

text \<open>One call that cannot fail, with what it finds and leaves.\<close>

lemma plain_call:
  assumes "fulfils good seen m F" "env_keeps (\<lambda>s. good s \<and> P (seen s)) w" "faultless w" "disturbed m w = (r, w')"
    and "\<And>s. \<not> isl (fst (m s))"
  obtains x where "r = Inr x" "P (seen (moved 1 w))" "F (seen (moved 1 w)) x (seen (current w'))"
    "effects w' = (moved 1 w, current w') # effects w" "faultless w'" "good (current w')"
    "P (seen (current w')) \<Longrightarrow> env_keeps (\<lambda>s. good s \<and> P (seen s)) w'"
proof -
  note run = disturbed_faultless [OF assms(3,4)]
  have s: "good (moved 1 w)" "P (seen (moved 1 w))" using env_keeps_moved [OF assms(2)] by simp_all
  obtain x where x: "r = Inr x" using assms(5) [of "moved 1 w"] run(1) by (cases r) auto
  from fulfilsD [OF assms(1) s(1) run(1)] x have "good (current w')" "F (seen (moved 1 w)) x (seen (current w'))" by auto
  moreover from this disturbed_shape [OF assms(4)]
  have "P (seen (current w')) \<Longrightarrow> env_keeps (\<lambda>s. good s \<and> P (seen s)) w'"
    by (intro env_keeps_step [OF assms(2)]) auto
  ultimately show thesis using x s run that by blast
qed

end

text \<open>
  The row of a token that was rotated out, in a store where every token of its family belongs to
  its user and where no other row has its hash. A token of the family that was issued before
  families were recorded (the family's root) is revoked.
\<close>

definition reused :: "refresh_token \<Rightarrow> refresh_view \<Rightarrow> bool" where
  "reused record v \<longleftrightarrow> tokens v (rt_id record) = Some record \<and>
     (\<forall>t \<in> ran (tokens v). (token_hash t = token_hash record \<longrightarrow> t = record) \<and>
        (family_of t = family_of record \<longrightarrow>
           rt_user_id t = rt_user_id record \<and> (family_id t = None \<longrightarrow> revoked t)))"

lemma family_swept:
  assumes "reused record v"
    and "v' = revoke_rows (\<lambda>t. rt_user_id t = rt_user_id record \<and> family_id t = Some (family_of record)) Compromise v"
  shows "dead (family_of record) v'"
  unfolding dead_def
proof (intro allI impI, elim conjE)
  fix i t' assume t': "tokens v' i = Some t'" "family_of t' = family_of record"
  then obtain t where t: "tokens v i = Some t" "t' = (if rt_user_id t = rt_user_id record \<and>
      family_id t = Some (family_of record) then revoke_row Compromise (store_now v) t else t)"
    using assms(2) by (cases "tokens v i") (auto simp: revoke_rows_def)
  with t'(2) have fam: "family_of t = family_of record" by (auto split: if_splits)
  with assms(1) t(1) have "rt_user_id t = rt_user_id record" "family_id t = None \<longrightarrow> revoked t"
    by (auto simp: reused_def ran_def)
  with fam t(2) show "revoked t'" by (cases "family_id t") (auto simp: family_of_def)
qed

context refresh_store_contract
begin

lemma reuse_sweeps:
  assumes "env_keeps (\<lambda>s. good s \<and> reused record (seen s)) w" and "faultless w"
    and "\<And>u s. \<not> isl (fst (active_tokens st u s))" and "\<And>u f s. \<not> isl (fst (revoke_family st u f s))"
    and "\<not> revoked_on_purpose record" and "\<not> within_grace cfg now record"
    and "handle_revoked_reuse (disturbed_refresh_store st) cfg now record w = (e, w')"
  shows "e = Revoked \<and> (\<exists>es1 a b es2. effects w' = es1 @ (a, b) # es2 \<and> dead (family_of record) (seen b))"
proof -
  let ?u = "rt_user_id record" and ?f = "family_of record"
  obtain r1 w1 where first: "disturbed (active_tokens st ?u) w = (r1, w1)" by fastforce
  obtain r2 w2 where second: "disturbed (revoke_family st ?u ?f) w1 = (r2, w2)" by fastforce
  obtain devs r3 where run: "e = Revoked" "disturbed (hook_call st ?u ?f devs) w2 = (r3, w')"
    using assms(5-7) first second
    by (auto simp: handle_revoked_reuse_def collect_family_device_targets_def Let_def split: sum.splits)
       (metis prod.collapse)+
  obtain xs where "reused record (seen (moved 1 w))" "spec_active ?u (seen (moved 1 w)) xs (seen (current w1))"
    "faultless w1" "reused record (seen (current w1)) \<Longrightarrow> env_keeps (\<lambda>s. good s \<and> reused record (seen s)) w1"
    by (rule plain_call [OF active_step assms(1,2) first assms(3)]) blast
  then have w1: "faultless w1" "env_keeps (\<lambda>s. good s \<and> reused record (seen s)) w1"
    by (simp_all add: spec_active_def)
  obtain y where "reused record (seen (moved 1 w1))" "spec_revoke_family ?u ?f (seen (moved 1 w1)) y (seen (current w2))"
    "effects w2 = (moved 1 w1, current w2) # effects w1"
    by (rule plain_call [OF revoke_family_step w1(2,1) second assms(4)]) blast
  then have "dead ?f (seen (current w2))" "effects w2 = (moved 1 w1, current w2) # effects w1"
    using family_swept by (simp_all add: spec_revoke_family_def)
  moreover obtain es where "effects w' = es @ effects w2" using disturbed_shape [OF run(2)] by auto
  ultimately show ?thesis using run(1) by auto
qed

lemma refresh_reuse:
  assumes "env_keeps (\<lambda>s. good s \<and> reused record (seen s)) w" and "faultless w"
    and "\<And>h s. \<not> isl (fst (find_token st h s))" and "\<And>u s. \<not> isl (fst (active_tokens st u s))"
    and "\<And>u f s. \<not> isl (fst (revoke_family st u f s))"
    and "refresh_config_validate cfg = Inr ()" and "validate_device_info cfg (rq_device_info req \<noteq> None) = Inr ()"
    and "token_hash record = hash_token c (rq_plaintext req) (pepper cfg)"
    and "check_tenant record (rq_tenant req)" and "revoked record"
    and "\<not> revoked_on_purpose record" and "\<not> within_grace cfg now record"
    and "refresh_run c lim (disturbed_refresh_store st) cfg r now req w = (res, r', w')"
  shows "res = Inl Revoked \<and>
    (\<exists>es1 a b es2. effects w' = es1 @ (a, b) # es2 \<and> dead (family_of record) (seen b))"
proof -
  obtain r1 w1 where first: "disturbed (find_token st (token_hash record)) w = (r1, w1)" by fastforce
  obtain x where x: "r1 = Inr x" "reused record (seen (moved 1 w))"
    "spec_find (token_hash record) (seen (moved 1 w)) x (seen (current w1))" "faultless w1"
    "reused record (seen (current w1)) \<Longrightarrow> env_keeps (\<lambda>s. good s \<and> reused record (seen s)) w1"
    by (rule plain_call [OF find_step assms(1,2) first assms(3)]) blast
  then have found: "x = Some record" "env_keeps (\<lambda>s. good s \<and> reused record (seen s)) w1"
    by (auto simp: spec_find_def reused_def ran_def split: option.splits)
  obtain e w2 where sweep: "handle_revoked_reuse (disturbed_refresh_store st) cfg now record w1 = (e, w2)" by fastforce
  with assms(6-10,13) first x(1) found(1) have "res = Inl e" "w' = w2"
    by (auto simp: refresh_run_def locate_def act_bind_apply act_ok_def refresh_located_def)
  with reuse_sweeps [OF found(2) x(4) assms(4,5,11,12) sweep] show ?thesis by simp
qed

end

end
