(* ===== verification/Refresh_Guarantees.thy ===== *)
theory Refresh_Guarantees
  imports Refresh
begin

section \<open>What refresh tokens guarantee\<close>

text \<open>
  The guarantees of the refresh path, over the in-memory store and any interleaving of other
  requests: one live token per family, the end of a family whose rotated-out token comes back, the
  bound on the lifetime of a login, what a refusal leaves behind, the cap per user and the round
  trip from an issued token to a refreshed session.
\<close>

subsection \<open>A store to run on\<close>

definition example_refresh_crypto :: refresh_crypto where
  "example_refresh_crypto = crypto.extend example_crypto
     \<lparr>sha256 = (\<lambda>b. b), uuid_str = (\<lambda>u. replicate 36 (CHR ''0''))\<rparr>"

definition example_limits :: time_limits where
  "example_limits = \<lparr>min_utc = 0, max_utc = 1000, max_delta = 1000\<rparr>"

definition example_token :: "refresh_token_id \<Rightarrow> string \<Rightarrow> refresh_token" where
  "example_token i h =
     \<lparr>rt_id = i, rt_user_id = 3, rt_tenant_id = 4, token_hash = h, issued_at = 5, rt_expires_at = 100,
      revoked = False, device_info = None, family_id = Some 1, rt_device_id = None,
      rt_authn_time = None, revoked_reason = None, revoked_at = None\<rparr>"

definition example_refresh_config :: refresh_token_config where
  "example_refresh_config = refresh_config_default\<lparr>rc_ttl := 50, max_lifetime := Some 80\<rparr>"

definition example_refresh :: "string \<Rightarrow> refresh_request" where
  "example_refresh p =
     \<lparr>rq_plaintext = p, rq_tenant = None, rq_device_info = None, rq_gate = None, rq_status = (\<lambda>_. True)\<rparr>"

definition example_bytes :: byte_rng where
  "example_bytes = \<lparr>fills = (\<lambda>i n. replicate n (CHR ''7'')), asked = 0\<rparr>"

primrec example_tokens :: "refresh_token list \<Rightarrow> memory_refresh_store" where
  "example_tokens [] = kv_new example_limits 5"
| "example_tokens (t # ts) = mref_store_token t (example_tokens ts)"

lemma example_tokens_good [simp]:
  "mref_good (example_tokens ts)" "clock_now (example_tokens ts) = 5" "limits (example_tokens ts) = example_limits"
proof (induction ts)
  case Nil
  show "mref_good (example_tokens [])"
    unfolding mref_good_def by (simp add: example_limits_def in_time_def) (simp add: kv_new_def)
  show "clock_now (example_tokens []) = 5" "limits (example_tokens []) = example_limits" by (simp_all add: kv_new_def)
next
  case (Cons t ts)
  then show "mref_good (example_tokens (t # ts))" "clock_now (example_tokens (t # ts)) = 5"
    "limits (example_tokens (t # ts)) = example_limits" by (simp_all add: mref_store mref_store_sel)
qed

lemma live_example_tokens [simp]:
  "live (example_tokens []) = Map.empty"
  "live (example_tokens (t # ts)) =
     (live (example_tokens ts))(rt_id t := if 5 < rt_expires_at t then Some t else None)"
  using example_tokens_good(1) [of ts]
  by (simp_all add: mref_store_live mref_good_def del: example_tokens_good(1))

declare example_tokens.simps [simp del]

lemmas example_refresh_defs = example_token_def example_refresh_config_def example_refresh_def
  refresh_config_default_def

subsection \<open>Families\<close>

text \<open>
  C26. Of a token family at most one token is live. Whatever a refresh does, and however other
  requests and store failures come between its calls, a store in which every family has at most one
  live token (and every row keeps its family) is such a store afterwards: two refreshes of one
  token do not both leave a live child.
\<close>

theorem refresh_keeps_one_live_token:
  fixes w :: "(memory_refresh_store, 'e) world"
  assumes "env_keeps (\<lambda>s. mref_good s \<and> (one_live (mref_seen s) \<and> filed fam (mref_seen s))) w"
    and "refresh_run c lim (disturbed_refresh_store mem_refresh_store) cfg r now req w = (res, r', w')"
  shows "one_live (mref_seen (current w')) \<and> (\<exists>fam'. filed fam' (mref_seen (current w')))"
  by (rule mem_ref.refresh_one_live [OF assms])

theorem refresh_keeps_one_live_token_witness:
  "let s = example_tokens [example_token 1 ''aa'', example_token 2 ''bb'' \<lparr>family_id := Some 2\<rparr>];
       racing = \<lparr>before = revoke_where (\<lambda>t. rt_id t = 2) Explicit, fault = None, landed = True\<rparr>;
       w = \<lparr>current = s, ahead = [calm, racing], effects = []\<rparr> :: (memory_refresh_store, unit) world;
       run = refresh_run example_refresh_crypto example_limits (disturbed_refresh_store mem_refresh_store)
               example_refresh_config example_bytes 9 (example_refresh [CHR 0x00]) w
   in one_live (mref_seen (current (snd (snd run))))"
proof -
  let ?s = "example_tokens [example_token 1 ''aa'', example_token 2 ''bb'' \<lparr>family_id := Some 2\<rparr>]"
  let ?racing = "\<lparr>before = revoke_where (\<lambda>t. rt_id t = 2) Explicit, fault = None, landed = True\<rparr>"
  let ?w = "\<lparr>current = ?s, ahead = [calm, ?racing], effects = []\<rparr> :: (memory_refresh_store, unit) world"
  let ?P = "\<lambda>v. one_live v \<and> filed id v"
  have start: "?P (mref_seen ?s)"
    by (auto simp: one_live_def filed_def family_of_def example_token_def split: if_splits)
  have "revocation_closed ?P" by (intro revocation_closed_conj family_closed)
  then have "?P (mref_seen (revoke_where (\<lambda>t. rt_id t = 2) Explicit s))" if "mref_good s" "?P (mref_seen s)" for s
    using that only_revokes_rows unfolding revocation_closed_def mref_revoke_where(2) [OF that(1)] by blast
  then have "env_keeps (\<lambda>s. mref_good s \<and> ?P (mref_seen s)) ?w"
    using start by (simp add: env_keeps_def calm_def mref_revoke_where(1))
  from refresh_keeps_one_live_token [OF this] show ?thesis
    unfolding Let_def by (metis prod.collapse)
qed

lemma mem_refresh_answers:
  "\<not> isl (fst (find_token mem_refresh_store h s))" "\<not> isl (fst (active_tokens mem_refresh_store u s))"
  "\<not> isl (fst (revoke_family mem_refresh_store u f s))"
  by (simp_all add: mem_refresh_store_def)


lemma first_letter: "char_of (97 :: nat) = CHR ''a''"
  by (simp add: char_of_def bit_iff_odd)

lemma hash_example: "hash_token example_refresh_crypto [CHR 0x00] (pepper example_refresh_config) = ''aa''"
  by (simp add: hash_token_def pepper_def example_refresh_defs example_refresh_crypto_def crypto.extend_def
      example_crypto_def hex_digits_def first_letter)

lemma example_config_ok:
  "refresh_config_validate example_refresh_config = Inr ()"
  "validate_device_info example_refresh_config (rq_device_info (example_refresh p) \<noteq> None) = Inr ()"
  by (simp_all add: refresh_config_ok validate_device_info_def example_refresh_defs)


text \<open>
  C27. The tokens of a family without a live token are spent for good. No refresh revives such a
  family, under any interleaving and failures, and no refresh that presents one of its tokens
  succeeds, as long as no other request revives the family or files the presented token's hash
  under another one.
\<close>

theorem dead_family_is_not_refreshed:
  fixes w :: "(memory_refresh_store, 'e) world"
  assumes "env_keeps (\<lambda>s. mref_good s \<and> (dead f (mref_seen s) \<and> belongs c cfg (rq_plaintext req) f (mref_seen s))) w"
    and "refresh_run c lim (disturbed_refresh_store mem_refresh_store) cfg r now req w = (res, r', w')"
  shows "dead f (mref_seen (current w')) \<and> isl res"
  using mem_ref.refresh_dead [OF assms(1) belongs_closed assms(2)] by blast

theorem dead_family_is_not_refreshed_witness:
  "let s = example_tokens [revoke_row Explicit 6 (example_token 1 ''aa'')];
       run = refresh_run example_refresh_crypto example_limits (disturbed_refresh_store mem_refresh_store)
               example_refresh_config example_bytes 9 (example_refresh [CHR 0x00])
               (quiet s :: (memory_refresh_store, unit) world)
   in dead 1 (mref_seen (current (snd (snd run)))) \<and> isl (fst run)"
proof -
  let ?s = "example_tokens [revoke_row Explicit 6 (example_token 1 ''aa'')]"
  have "family_of t = 1 \<and> revoked t" if "tokens (mref_seen ?s) i = Some t" for i t
    using that by (auto simp: family_of_def revoke_row_def example_token_def split: if_splits)
  then have "dead 1 (mref_seen ?s)" "belongs c cfg p 1 (mref_seen ?s)" for c cfg p
    unfolding dead_def belongs_def found_in_def by blast+
  then have "env_keeps (\<lambda>s. mref_good s \<and> (dead 1 (mref_seen s) \<and> belongs example_refresh_crypto
      example_refresh_config (rq_plaintext (example_refresh [CHR 0x00])) 1 (mref_seen s)))
      (quiet ?s :: (memory_refresh_store, unit) world)" by simp
  from dead_family_is_not_refreshed [OF this] show ?thesis unfolding Let_def by (metis prod.collapse)
qed

subsection \<open>A valid token is refreshed\<close>

text \<open>
  The row the presented token is found under: the only one with its hash, under the current pepper
  or, when no row has the hash under that one, under the previous pepper.
\<close>

definition presents :: "refresh_crypto \<Rightarrow> refresh_token_config \<Rightarrow> string \<Rightarrow> located \<Rightarrow> refresh_view \<Rightarrow> bool" where
  "presents c cfg plaintext l v \<longleftrightarrow> found_in c cfg plaintext l v \<and>
     (\<forall>t \<in> ran (tokens v). token_hash t = token_hash (loc_record l) \<longrightarrow> t = loc_record l) \<and>
     (under_previous_pepper l \<longrightarrow> previous_pepper_of cfg \<noteq> None \<and>
        (\<forall>t \<in> ran (tokens v). token_hash t \<noteq> hash_token c plaintext (pepper cfg)))"

context refresh_store_contract
begin

lemma locate_presented:
  assumes "env_keeps (\<lambda>s. good s \<and> presents c cfg plaintext l (seen s)) w" "faultless w"
    and "\<And>h s. \<not> isl (fst (find_token st h s))"
    and "locate c (disturbed_refresh_store st) cfg plaintext w = (rl, w')"
  shows "rl = Inr (Some l) \<and> faultless w' \<and> env_keeps (\<lambda>s. good s \<and> presents c cfg plaintext l (seen s)) w'"
proof -
  let ?P = "presents c cfg plaintext l"
  have find: "(\<exists>x. r = Inr x \<and> (token_hash (loc_record l) = h \<longrightarrow> x = Some (loc_record l)) \<and>
      (under_previous_pepper l \<longrightarrow> h = hash_token c plaintext (pepper cfg) \<longrightarrow> x = None)) \<and> faultless w2 \<and>
      env_keeps (\<lambda>s. good s \<and> ?P (seen s)) w2"
    if w1: "env_keeps (\<lambda>s. good s \<and> ?P (seen s)) w1" "faultless w1" "disturbed (find_token st h) w1 = (r, w2)" for h r w1 w2
  proof -
    obtain x where x: "r = Inr x" "?P (seen (moved 1 w1))" "spec_find h (seen (moved 1 w1)) x (seen (current w2))"
      "faultless w2" "?P (seen (current w2)) \<Longrightarrow> env_keeps (\<lambda>s. good s \<and> ?P (seen s)) w2"
      by (rule plain_call [OF find_step w1 assms(3)]) blast
    then show ?thesis
      by (cases x) (auto simp: spec_find_def presents_def found_in_def ran_def)
  qed
  obtain r1 w1 where first: "disturbed (find_token st (hash_token c plaintext (pepper cfg))) w = (r1, w1)" by fastforce
  note one = find [OF assms(1,2) first]
  have found: "token_hash (loc_record l) = hash_token c plaintext (loc_stored_under cfg l)"
    "under_previous_pepper l \<Longrightarrow> previous_pepper_of cfg \<noteq> None"
    using assms(1) by (auto simp: env_keeps_def presents_def found_in_def)
  show ?thesis
  proof (cases "under_previous_pepper l")
    case False
    with one found(1) assms(4) first have "rl = Inr (Some l)" "w' = w1"
      by (auto simp: locate_def act_bind_apply loc_stored_under_def)
    with one show ?thesis by blast
  next
    case True
    with found obtain p where p: "previous_pepper_of cfg = Some p" "token_hash (loc_record l) = hash_token c plaintext p"
      by (auto simp: loc_stored_under_def)
    obtain r2 w2 where second: "disturbed (find_token st (hash_token c plaintext p)) w1 = (r2, w2)" by fastforce
    from one True have "r1 = Inr None" "faultless w1" "env_keeps (\<lambda>s. good s \<and> ?P (seen s)) w1" by auto
    moreover note find [OF this(3,2) second]
    ultimately show ?thesis using assms(4) first second p True
      by (auto simp: locate_def act_bind_apply)
  qed
qed

lemma refresh_presented:
  assumes "env_keeps (\<lambda>s. good s \<and> presents c cfg (rq_plaintext req) l (seen s)) w" "faultless w"
    and "\<And>h s. \<not> isl (fst (find_token st h s))" and "\<And>i t s. \<not> isl (fst (rotate_token st i t s))"
    and "refresh_config_validate cfg = Inr ()" "validate_device_info cfg (rq_device_info req \<noteq> None) = Inr ()"
    and "check_tenant (loc_record l) (rq_tenant req)" "\<not> revoked (loc_record l)"
    and "(admit c lim cfg now req l :: 'e refresh_error + string option) = Inr info"
    and "checked_add_signed lim now (rc_ttl cfg) \<noteq> None"
    and "refresh_run c lim (disturbed_refresh_store st) cfg r now req w = (res, r', w')"
  shows "\<exists>child. res = Inr (session_for (loc_record l), child) \<and> (rc_rotation cfg \<longleftrightarrow> child \<noteq> None) \<and>
    (\<forall>p t. child = Some (p, t) \<longrightarrow> token_hash t = hash_token c p (pepper cfg) \<and> family_of t = family_of (loc_record l) \<and>
       authenticated_at t = authenticated_at (loc_record l) \<and>
       tokens (seen (current w')) (rt_id t) = (if store_now (seen (current w')) < rt_expires_at t then Some t else None))"
proof -
  let ?P = "presents c cfg (rq_plaintext req) l"
  obtain rl w1 where loc: "locate c (disturbed_refresh_store st) cfg (rq_plaintext req) w = (rl, w1)" by fastforce
  note found = locate_presented [OF assms(1-3) loc]
  obtain rep r1 where rep: "replacement_for c lim (rq_plaintext req) cfg r now (loc_record l) info
      (under_previous_pepper l) = (rep, r1)" by fastforce
  have run: "refresh_located c lim (disturbed_refresh_store st) cfg r now req l w1 = (res, r', w')"
    using assms(5,6,11) loc found by (simp add: refresh_run_def)
  show ?thesis
  proof (cases rep)
    case NoReplacement
    with rep have "\<not> rc_rotation cfg" by (auto simp: replacement_for_def split: if_splits prod.splits option.splits)
    with run assms(7-9) rep NoReplacement show ?thesis by (auto simp: refresh_located_def)
  next
    case ReplacementPanics
    with rep assms(10) show ?thesis
      by (auto simp: replacement_for_def build_refresh_token_def build_refresh_token_for_def Let_def
          split: if_splits prod.splits option.splits)
  next
    case (Replacement p t)
    obtain r2 w2 where rot: "disturbed (rotate_token st (rt_id (loc_record l)) t) w1 = (r2, w2)" by fastforce
    from found have w1: "env_keeps (\<lambda>s. good s \<and> ?P (seen s)) w1" "faultless w1" by auto
    obtain x where x: "r2 = Inr x" "?P (seen (moved 1 w1))"
      "spec_rotate (rt_id (loc_record l)) t (seen (moved 1 w1)) x (seen (current w2))"
      by (rule plain_call [OF rotate_step w1 rot assms(4)]) blast
    with assms(8) have x': "x = RotationDone" "tokens (seen (current w2)) (rt_id t) =
        (if store_now (seen (current w2)) < rt_expires_at t then Some t else None)"
      by (auto simp: presents_def found_in_def spec_rotate_def put_row_def)
    with run assms(7-9) rep Replacement rot x(1) have "w' = w2"
      "res = Inr (session_for (loc_record l), if rc_rotation cfg then Some (p, t) else None)"
      by (auto simp: refresh_located_def rotate_def)
    with x'(2) replacement_child(1,6,8) [OF rep [unfolded Replacement]] show ?thesis by auto
  qed
qed

end

text \<open>What an issued token is, and where it is stored.\<close>

lemma issued_record:
  assumes "mref_good s" "issue_refresh_token c lim req cfg mem_refresh_store r now s = (Inr (p, record), r', s')"
  shows "rt_user_id record = ir_user_id req" "rt_tenant_id record = ir_tenant_id req"
    "rt_device_id record = ir_device_id req" "issued_at record = now" "authenticated_at record = now" "\<not> revoked record"
    "device_info record = map_option (\<lambda>raw. bind_device c raw (ir_device_id req) (pepper cfg)) (ir_device_info req)"
    "token_hash record = hash_token c p (pepper cfg)" "rt_expires_at record \<le> now + rc_ttl cfg"
    "lifetime_end lim cfg now = Some e \<Longrightarrow> rt_expires_at record \<le> e"
    "refresh_config_validate cfg = Inr ()" "s' = mref_issue_capped record (max_per_user cfg) s"
  using assms(2)
  by (auto simp: issue_refresh_token_def build_refresh_token_def build_refresh_token_for_def mem_refresh_store_def
      authenticated_at_def checked_add_signed_def Let_def split: sum.splits prod.splits option.splits if_splits)

lemma spec_issue_stored:
  "spec_issue t mx v x v' \<Longrightarrow> tokens v' (rt_id t) = (if store_now v < rt_expires_at t then Some t else None)"
  by (auto simp: spec_issue_def put_row_def revoke_rows_def)

lemma binding_accepted:
  assumes "device_info record = map_option (\<lambda>raw. bind_device c raw (rt_device_id record) (stored_under peps)) info"
  shows "\<exists>x. verify_binding c record info peps = Inr x"
  using assms by (auto simp: verify_binding_def bind_device_def starts_with_def same_text_def split: option.splits)

text \<open>
  C30. An issued token opens the login it was issued for. After issuing, the token's row is stored;
  presented again before it expires (by the same device, in its tenant, for an account that may
  log in and whose device is not refused), under the same pepper or under a configuration that
  keeps it as the previous one, it is refreshed: the session is the user's, in the tenant, on the
  device and with the time of the issue, and under rotation a child token comes with it.
\<close>

theorem issued_token_is_refreshed:
  fixes w :: "(memory_refresh_store, 'e) world"
  assumes "mref_good s" "issue_refresh_token c lim ireq cfg mem_refresh_store r now s = (Inr (p, record), r1, s1)"
    and "loc_record l = record" "loc_stored_under cfg' l = pepper cfg"
    and "env_keeps (\<lambda>s. mref_good s \<and> presents c cfg' p l (mref_seen s)) w" "faultless w"
    and "refresh_config_validate cfg' = Inr ()" "validate_device_info cfg' (ir_device_info ireq \<noteq> None) = Inr ()"
    and "max_lifetime cfg' = max_lifetime cfg" "now' < rt_expires_at record" "checked_add_signed lim now' (rc_ttl cfg') \<noteq> None"
    and "rq_plaintext req = p" "rq_device_info req = ir_device_info ireq"
    and "rq_tenant req = None \<or> rq_tenant req = Some (ir_tenant_id ireq)" "rq_status req (ir_user_id ireq)"
    and "(check_device record (rq_gate req) :: 'e refresh_error + unit) = Inr ()"
    and "refresh_run c lim (disturbed_refresh_store mem_refresh_store) cfg' r2 now' req w = (res, r3, w')"
  shows "tokens (mref_seen s1) (rt_id record) = (if clock_now s < rt_expires_at record then Some record else None) \<and>
    (\<exists>sess child ad. res = Inr (sess, child) \<and> auth_state sess = Authenticated ad \<and>
       ad_user_id ad = ir_user_id ireq \<and> ad_tenant_id ad = ir_tenant_id ireq \<and> authn_time ad = now \<and>
       data_device_id sess = ir_device_id ireq \<and> (rc_rotation cfg' \<longleftrightarrow> child \<noteq> None))"
proof -
  note rec = issued_record [OF assms(1,2)]
  have "spec_issue record (max_per_user cfg) (mref_seen s) () (mref_seen s1)"
    using mref_issue(2) [OF assms(1)] rec(12) by simp
  from spec_issue_stored [OF this]
  have stored: "tokens (mref_seen s1) (rt_id record) = (if clock_now s < rt_expires_at record then Some record else None)"
    by simp
  have fresh: "\<not> token_expired lim cfg' now' record"
    using rec(5,10) assms(9,10) by (auto simp: token_expired_def lifetime_end_def split: option.splits)
  obtain info where "verify_binding c record (rq_device_info req)
      \<lparr>stored_under = loc_stored_under cfg' l, current_pepper = pepper cfg'\<rparr> = Inr info"
    using binding_accepted [of "record" c "\<lparr>stored_under = loc_stored_under cfg' l, current_pepper = pepper cfg'\<rparr>"]
      rec(3,7) assms(4,13) by auto
  then have admitted: "(admit c lim cfg' now' req l :: 'e refresh_error + string option) = Inr info"
    using fresh assms(3,15,16) rec(1) by (simp add: admit_def)
  have tenant: "check_tenant (loc_record l) (rq_tenant req)"
    using assms(3,14) rec(2) by (auto simp: check_tenant_def)
  have mem: "\<not> isl (fst (rotate_token mem_refresh_store i t s))" for i t s
    by (simp add: mem_refresh_store_def)
  have live: "\<not> revoked (loc_record l)" using rec(6) assms(3) by simp
  note assms(5) [folded assms(12)] assms(8) [folded assms(13)]
  from mem_ref.refresh_presented [OF this(1) assms(6) mem_refresh_answers(1) mem assms(7) this(2) tenant live admitted assms(11,17)]
  obtain child where "res = Inr (session_for record, child)" "rc_rotation cfg' \<longleftrightarrow> child \<noteq> None"
    using assms(3) by blast
  with rec(1,2,3,5) stored show ?thesis by (auto simp: session_for_def)
qed

lemma check_device_no_gate [simp]: "check_device t None = Inr ()"
  by (simp add: check_device_def split: option.split)

lemma issue_on_empty:
  "mref_issue_capped t mx (example_tokens []) = (if mx = 0 then mref_store_token t (example_tokens []) else example_tokens [t])"
proof -
  have "snapshot (example_tokens []) = []" by (simp add: snapshot_def example_tokens.simps kv_new_def)
  then show ?thesis by (simp add: mref_issue_capped_def mref_active_tokens_def example_tokens.simps(2))
qed

definition example_issue :: issue_request where
  "example_issue = \<lparr>ir_user_id = 3, ir_tenant_id = 4, ir_device_info = Some ''tv'', ir_family_id = None, ir_device_id = None\<rparr>"

theorem issued_token_is_refreshed_witness:
  "let c = example_refresh_crypto; cfg = example_refresh_config\<lparr>hash_pepper := Some ''k''\<rparr>;
       cfg' = cfg\<lparr>hash_pepper := Some ''l'', previous_hash_pepper := Some (Keyed ''k'')\<rparr>
   in case issue_refresh_token c example_limits example_issue cfg mem_refresh_store example_bytes 5 (example_tokens [])
        :: ((unit refresh_error + string \<times> refresh_token) \<times> byte_rng \<times> memory_refresh_store) of
        (Inr (p, record), r1, s1) \<Rightarrow>
          (case fst (refresh_run c example_limits (disturbed_refresh_store mem_refresh_store) cfg' r1 9
                  ((example_refresh p)\<lparr>rq_device_info := Some ''tv''\<rparr>) (quiet s1 :: (memory_refresh_store, unit) world)) of
             Inr (sess, child) \<Rightarrow> child \<noteq> None \<and> (\<exists>ad. auth_state sess = Authenticated ad \<and> ad_user_id ad = 3 \<and> authn_time ad = 5)
           | Inl e \<Rightarrow> False)
      | _ \<Rightarrow> False"
proof -
  let ?c = example_refresh_crypto and ?cfg = "example_refresh_config\<lparr>hash_pepper := Some ''k''\<rparr>"
  let ?cfg' = "?cfg\<lparr>hash_pepper := Some ''l'', previous_hash_pepper := Some (Keyed ''k'')\<rparr>"
  let ?issue = "issue_refresh_token ?c example_limits example_issue ?cfg mem_refresh_store example_bytes 5 (example_tokens [])
    :: ((unit refresh_error + string \<times> refresh_token) \<times> byte_rng \<times> memory_refresh_store)"
  obtain p "record" r1 s1 where issued: "?issue = (Inr (p, record), r1, s1)" and p: "p = b64_encode ?c (replicate 32 (CHR ''7''))"
      and late: "rt_expires_at record = 55"
    by (auto simp: issue_refresh_token_def build_refresh_token_def build_refresh_token_for_def generate_token_value_def
        fill_bytes_def example_bytes_def refresh_config_validate_def validate_device_info_def example_refresh_defs
        checked_add_signed_def lifetime_end_def example_limits_def mem_refresh_store_def example_issue_def Let_def)
  note rec = issued_record [OF example_tokens_good(1) issued]
  have s1: "s1 = example_tokens [record]" using rec(12) by (simp add: issue_on_empty example_refresh_defs)
  let ?l = "\<lparr>loc_record = record, under_previous_pepper = True\<rparr>"
  have hashes: "hash_token ?c p (Some ''k'') \<noteq> hash_token ?c p (Some ''l'')"
    by (simp add: hash_token_def example_refresh_crypto_def crypto.extend_def example_crypto_def hex_digits_def
        char_of_def bit_iff_odd)
  have "presents ?c ?cfg' p ?l (mref_seen s1)"
    using hashes rec(8) late
    by (auto simp: presents_def found_in_def s1 loc_stored_under_def previous_pepper_of_def pepper_def ran_def split: if_splits)
  then have env: "env_keeps (\<lambda>s. mref_good s \<and> presents ?c ?cfg' p ?l (mref_seen s)) (quiet s1)" by (simp add: s1)
  let ?req = "(example_refresh p)\<lparr>rq_device_info := Some ''tv''\<rparr>"
  let ?run = "refresh_run ?c example_limits (disturbed_refresh_store mem_refresh_store) ?cfg' r1 9 ?req
    (quiet s1 :: (memory_refresh_store, unit) world)"
  have "\<exists>sess child ad. fst ?run = Inr (sess, child) \<and> auth_state sess = Authenticated ad \<and> ad_user_id ad = 3 \<and>
      authn_time ad = 5 \<and> child \<noteq> None"
    using issued_token_is_refreshed [OF example_tokens_good(1) issued, of ?l ?cfg' "quiet s1" 9 ?req r1 "fst ?run" "fst (snd ?run)" "snd (snd ?run)"]
      env late
    by (auto simp: loc_stored_under_def previous_pepper_of_def pepper_def refresh_config_ok validate_device_info_def
        example_refresh_defs example_issue_def checked_add_signed_def example_limits_def)
  then show ?thesis using issued unfolding Let_def by auto
qed

subsection \<open>The lifetime of a login\<close>

text \<open>The login every stored token goes back to happened at an instant the time library has.\<close>

definition dated :: "time_limits \<Rightarrow> refresh_view \<Rightarrow> bool" where
  "dated lim v \<longleftrightarrow> (\<forall>t \<in> ran (tokens v). min_utc lim \<le> authenticated_at t)"

lemma authenticated_at_revoke [simp]: "authenticated_at (revoke_row reason at t) = authenticated_at t"
  by (simp add: authenticated_at_def split: option.split)

lemma dated_closed: "revocation_closed (dated lim)"
  unfolding revocation_closed_def dated_def
proof (intro allI impI ballI)
  fix v v' t' assume v: "\<forall>t \<in> ran (tokens v). min_utc lim \<le> authenticated_at t" and r: "only_revokes v v'"
    and "t' \<in> ran (tokens v')"
  then obtain i where "tokens v' i = Some t'" by (auto simp: ran_def)
  from only_revokes_row [OF r this] obtain t where "tokens v i = Some t" "t' = t \<or> (\<exists>reason at. t' = revoke_row reason at t)"
    by blast
  with v show "min_utc lim \<le> authenticated_at t'" by (auto simp: ran_def)
qed

lemma within_lifetime:
  assumes "max_lifetime cfg = Some mx" "in_time lim now" "min_utc lim \<le> authenticated_at record" "0 < mx"
    and "\<not> token_expired lim cfg now record"
  shows "now < authenticated_at record + mx"
  using assms by (auto simp: token_expired_def lifetime_end_def checked_add_signed_def in_time_def split: if_splits)

lemma replacement_within_lifetime:
  assumes "replacement_for c lim plaintext cfg r now record info up = (Replacement p t, r')" "rc_rotation cfg"
    and "max_lifetime cfg = Some mx" "min_utc lim \<le> authenticated_at record" "0 < mx"
  shows "rt_expires_at t \<le> authenticated_at record + mx"
  using assms
  by (auto simp: replacement_for_def build_refresh_token_def build_refresh_token_for_def lifetime_end_def
      checked_add_signed_def Let_def split: if_splits prod.splits option.splits)


lemma example_presented:
  "env_keeps (\<lambda>s. mref_good s \<and> presents example_refresh_crypto example_refresh_config
       (rq_plaintext (example_refresh [CHR 0x00])) \<lparr>loc_record = example_token 1 ''aa'', under_previous_pepper = False\<rparr> (mref_seen s))
     (quiet (example_tokens [example_token 1 ''aa'']))"
  using hash_example
  by (auto simp: presents_def found_in_def loc_stored_under_def ran_def example_token_def example_refresh_def split: if_splits)

lemma example_run:
  "\<exists>p t r' w'. refresh_run example_refresh_crypto example_limits (disturbed_refresh_store mem_refresh_store)
     example_refresh_config example_bytes 9 (example_refresh [CHR 0x00])
     (quiet (example_tokens [example_token 1 ''aa'']) :: (memory_refresh_store, 'e) world) =
   (Inr (session_for (example_token 1 ''aa''), Some (p, t)), r', w')"
proof -
  let ?s = "example_tokens [example_token 1 ''aa'']" and ?l = "\<lparr>loc_record = example_token 1 ''aa'', under_previous_pepper = False\<rparr>"
  let ?req = "example_refresh [CHR 0x00]"
  let ?run = "refresh_run example_refresh_crypto example_limits (disturbed_refresh_store mem_refresh_store)
    example_refresh_config example_bytes 9 ?req (quiet ?s :: (memory_refresh_store, 'e) world)"
  have ok: "check_tenant (loc_record ?l) (rq_tenant ?req)" "\<not> revoked (loc_record ?l)"
    "(admit example_refresh_crypto example_limits example_refresh_config 9 ?req ?l :: 'e refresh_error + string option) = Inr None"
    "checked_add_signed example_limits 9 (rc_ttl example_refresh_config) \<noteq> None"
    by (simp_all add: check_tenant_def admit_def token_expired_def lifetime_end_def checked_add_signed_def example_limits_def
        authenticated_at_def verify_binding_def example_refresh_defs)
  have "\<not> isl (fst (rotate_token mem_refresh_store i t s))" for i t s by (simp add: mem_refresh_store_def)
  note mem_ref.refresh_presented [OF example_presented faultless_quiet mem_refresh_answers(1) this example_config_ok ok,
      of example_bytes "fst ?run" "fst (snd ?run)" "snd (snd ?run)"]
  moreover have "rc_rotation example_refresh_config" by (simp add: example_refresh_defs)
  ultimately have "\<exists>p t. fst ?run = Inr (session_for (example_token 1 ''aa''), Some (p, t))" by auto
  then show ?thesis by (metis prod.collapse)
qed


subsection \<open>What a refusal leaves\<close>

text \<open>
  C29. A refused refresh leaves the store as it was. Whatever check refuses it, and whatever else
  happens around its calls, none of its own calls changes a stored token, unless the answer is
  \<open>Revoked\<close>, when its calls at most revoke tokens, or the store itself failed.
\<close>

theorem refused_refresh_changes_nothing:
  fixes w :: "(memory_refresh_store, 'e) world"
  assumes "env_keeps mref_good w" "\<forall>x. e \<noteq> StoreError x"
    and "refresh_run c lim (disturbed_refresh_store mem_refresh_store) cfg r now req w = (Inl e, r', w')"
  shows "\<exists>es. effects w' = es @ effects w \<and>
    (\<forall>(a, b) \<in> set es. mref_seen b = mref_seen a \<or> e = Revoked \<and> only_revokes (mref_seen a) (mref_seen b))"
proof -
  have "revocation_closed (\<lambda>v. True)" "env_keeps (\<lambda>s. mref_good s \<and> True) w"
    using assms(1) by (simp_all add: revocation_closed_def)
  then show ?thesis using assms(3)
  proof (cases rule: mem_ref.refresh_cases)
    case (refused e')
    then show ?thesis by (auto simp: traced_def quiet_unless_def)
  qed (use assms(2) in auto)
qed

theorem refused_refresh_changes_nothing_witness:
  "let run = refresh_run example_refresh_crypto example_limits (disturbed_refresh_store mem_refresh_store)
       example_refresh_config example_bytes 200 (example_refresh [CHR 0x00])
       (quiet (example_tokens [example_token 1 ''aa'']) :: (memory_refresh_store, unit) world)
   in fst run = Inl Expired \<and> (\<forall>(a, b) \<in> set (effects (snd (snd run))). mref_seen b = mref_seen a)"
proof -
  let ?w = "quiet (example_tokens [example_token 1 ''aa'']) :: (memory_refresh_store, unit) world"
  let ?req = "example_refresh [CHR 0x00]"
  let ?run = "refresh_run example_refresh_crypto example_limits (disturbed_refresh_store mem_refresh_store)
    example_refresh_config example_bytes 200 ?req ?w"
  let ?l = "\<lparr>loc_record = example_token 1 ''aa'', under_previous_pepper = False\<rparr>"
  obtain rl w1 where loc: "locate example_refresh_crypto (disturbed_refresh_store mem_refresh_store)
      example_refresh_config (rq_plaintext ?req) ?w = (rl, w1)" by fastforce
  have found: "rl = Inr (Some ?l)"
    using mem_ref.locate_presented [OF example_presented faultless_quiet mem_refresh_answers(1) loc] by (rule conjunct1)
  have late: "token_expired example_limits example_refresh_config 200 (loc_record ?l)"
    "check_tenant (loc_record ?l) (rq_tenant ?req)" "\<not> revoked (loc_record ?l)"
    by (simp_all add: token_expired_def check_tenant_def example_token_def example_refresh_def)
  then have "(admit example_refresh_crypto example_limits example_refresh_config 200 ?req ?l :: unit refresh_error + string option) = Inl Expired"
    by (simp add: admit_def)
  then have "refresh_located example_refresh_crypto example_limits (disturbed_refresh_store mem_refresh_store)
      example_refresh_config example_bytes 200 ?req ?l w1 = (Inl Expired, example_bytes, w1)"
    using late(2,3) unfolding refresh_located_def Let_def by (simp del: located.select_convs)
  then have fail: "?run = (Inl Expired, example_bytes, w1)"
    unfolding refresh_run_def example_config_ok loc found by simp
  have "env_keeps mref_good ?w" "\<forall>x. Expired \<noteq> (StoreError x :: unit refresh_error)" by simp_all
  from refused_refresh_changes_nothing [OF this fail]
  have "\<forall>(a, b) \<in> set (effects w1). mref_seen b = mref_seen a" by (auto simp: quiet_def)
  then show ?thesis unfolding fail Let_def by simp
qed

subsection \<open>The cap on a user's tokens\<close>

lemma issue_rows:
  assumes "tokens (put_row t (revoke_rows P reason v)) i = Some u"
  shows "u = t \<or> i \<noteq> rt_id t \<and> (tokens v i = Some u \<and> \<not> P u \<or> revoked u)"
  using assms by (auto simp: put_row_def revoke_rows_def split: if_splits) (metis revoke_row_simps(1))

lemma spec_issue_cap:
  assumes "spec_issue t mx v x v'" "0 < mx"
  shows "card {u \<in> ran (tokens v'). rt_user_id u = rt_user_id t \<and> \<not> revoked u} \<le> mx"
proof -
  obtain xs where xs: "distinct (map rt_id xs)" "set xs = {u \<in> ran (tokens v). rt_user_id u = rt_user_id t \<and> \<not> revoked u}"
    "v' = put_row t (revoke_rows (\<lambda>u. u \<in> set (take (length xs + 1 - mx) xs)) Evicted v)"
    using assms(1) by (auto simp: spec_issue_def spec_active_def)
  let ?n = "length xs + 1 - mx"
  have "{u \<in> ran (tokens v'). rt_user_id u = rt_user_id t \<and> \<not> revoked u} \<subseteq> insert t (set xs - set (take ?n xs))"
  proof
    fix u assume "u \<in> {u \<in> ran (tokens v'). rt_user_id u = rt_user_id t \<and> \<not> revoked u}"
    then obtain i where u: "tokens v' i = Some u" "rt_user_id u = rt_user_id t" "\<not> revoked u" by (auto simp: ran_def)
    show "u \<in> insert t (set xs - set (take ?n xs))"
      using issue_rows [OF u(1) [unfolded xs(3)]] u(2,3) xs(2) by (auto simp: ran_def)
  qed
  moreover have "set xs - set (take ?n xs) \<subseteq> set (drop ?n xs)"
    by (metis append_take_drop_id set_append Diff_subset_conv order_refl)
  ultimately have "{u \<in> ran (tokens v'). rt_user_id u = rt_user_id t \<and> \<not> revoked u} \<subseteq> set (t # drop ?n xs)" by auto
  then have "card {u \<in> ran (tokens v'). rt_user_id u = rt_user_id t \<and> \<not> revoked u} \<le> length (t # drop ?n xs)"
    by (meson card_length card_mono finite_set le_trans)
  also have "\<dots> \<le> mx" using assms(2) by simp
  finally show ?thesis .
qed

lemma spec_issue_evicts:
  assumes "spec_issue t mx v x v'" "tokens v i = Some u" "i \<noteq> rt_id t"
  shows "tokens v' i = Some u \<or> rt_user_id u = rt_user_id t \<and> \<not> revoked u \<and>
    tokens v' i = Some (revoke_row Evicted (store_now v) u) \<and>
    (\<forall>y \<in> ran (tokens v'). rt_user_id y = rt_user_id t \<and> \<not> revoked y \<and> y \<noteq> t \<longrightarrow> issued_at u \<le> issued_at y)"
proof -
  obtain xs where xs: "sorted (map issued_at xs)" "set xs = {u \<in> ran (tokens v). rt_user_id u = rt_user_id t \<and> \<not> revoked u}"
    "v' = put_row t (revoke_rows (\<lambda>u. u \<in> set (take (length xs + 1 - mx) xs)) Evicted v)"
    using assms(1) by (auto simp: spec_issue_def spec_active_def)
  let ?n = "length xs + 1 - mx"
  show ?thesis
  proof (cases "u \<in> set (take ?n xs)")
    case False
    with assms(2,3) show ?thesis by (simp add: xs(3) put_row_def revoke_rows_def)
  next
    case True
    with assms(2,3) have "tokens v' i = Some (revoke_row Evicted (store_now v) u)"
      by (simp add: xs(3) put_row_def revoke_rows_def)
    moreover have "u \<in> set xs" using True by (rule in_set_takeD)
    moreover have "issued_at u \<le> issued_at y"
      if "y \<in> ran (tokens v')" "rt_user_id y = rt_user_id t" "\<not> revoked y" "y \<noteq> t" for y
    proof -
      from that(1) obtain j where "tokens v' j = Some y" by (auto simp: ran_def)
      with issue_rows [OF this [unfolded xs(3)]] that(2-4) xs(2) have "y \<in> set xs - set (take ?n xs)" by (auto simp: ran_def)
      then have "y \<in> set (drop ?n xs)" by (metis Diff_iff Un_iff append_take_drop_id set_append)
      with True sorted_append [of "map issued_at (take ?n xs)" "map issued_at (drop ?n xs)"] xs(1)
      show ?thesis by (simp flip: map_append)
    qed
    ultimately show ?thesis using xs(2) by blast
  qed
qed

text \<open>
  C31. Issuing keeps the cap and makes room by age. After a token was issued the user has at most
  \<open>max_per_user\<close> live tokens. Every other row is as it was, or is a live token of that user that is
  now revoked as evicted and not younger than any of the user's older tokens that stay live.
\<close>

theorem issue_keeps_the_cap:
  assumes "mref_good s" "issue_refresh_token c lim req cfg mem_refresh_store r now s = (Inr (p, t), r', s')"
  shows "card {u \<in> ran (tokens (mref_seen s')). rt_user_id u = ir_user_id req \<and> \<not> revoked u} \<le> max_per_user cfg \<and>
    (\<forall>i u. tokens (mref_seen s) i = Some u \<and> i \<noteq> rt_id t \<longrightarrow>
       tokens (mref_seen s') i = Some u \<or> rt_user_id u = ir_user_id req \<and> \<not> revoked u \<and>
       tokens (mref_seen s') i = Some (revoke_row Evicted (clock_now s) u) \<and>
       (\<forall>y \<in> ran (tokens (mref_seen s')). rt_user_id y = ir_user_id req \<and> \<not> revoked y \<and> y \<noteq> t \<longrightarrow> issued_at u \<le> issued_at y))"
proof -
  note rec = issued_record [OF assms]
  have step: "spec_issue t (max_per_user cfg) (mref_seen s) () (mref_seen s')"
    unfolding rec(12) by (rule mref_issue(2) [OF assms(1)])
  have "0 < max_per_user cfg" using rec(11) by (simp add: refresh_config_ok)
  note cap = spec_issue_cap [OF step this, unfolded rec(1)]
  note evicted = spec_issue_evicts [OF step, unfolded rec(1) mref_seen_simps]
  show ?thesis unfolding mref_seen_simps using cap evicted by simp
qed

theorem issue_keeps_the_cap_witness:
  "let cfg = example_refresh_config\<lparr>hash_pepper := Some ''k'', max_per_user := 1\<rparr>
   in case issue_refresh_token example_refresh_crypto example_limits example_issue cfg mem_refresh_store example_bytes 9
          (example_tokens [example_token 1 ''aa'', example_token 2 ''bb''])
        :: ((unit refresh_error + string \<times> refresh_token) \<times> byte_rng \<times> memory_refresh_store) of
        (Inr (p, t), r', s') \<Rightarrow> card {u \<in> ran (tokens (mref_seen s')). rt_user_id u = 3 \<and> \<not> revoked u} \<le> 1
      | _ \<Rightarrow> False"
proof -
  let ?cfg = "example_refresh_config\<lparr>hash_pepper := Some ''k'', max_per_user := 1\<rparr>"
  let ?s = "example_tokens [example_token 1 ''aa'', example_token 2 ''bb'']"
  let ?issue = "issue_refresh_token example_refresh_crypto example_limits example_issue ?cfg mem_refresh_store example_bytes 9 ?s
    :: ((unit refresh_error + string \<times> refresh_token) \<times> byte_rng \<times> memory_refresh_store)"
  obtain p t r' s' where issued: "?issue = (Inr (p, t), r', s')"
    by (auto simp: issue_refresh_token_def build_refresh_token_def build_refresh_token_for_def generate_token_value_def
        fill_bytes_def refresh_config_validate_def validate_device_info_def example_refresh_defs
        checked_add_signed_def lifetime_end_def example_limits_def mem_refresh_store_def example_issue_def Let_def)
  from issue_keeps_the_cap [OF example_tokens_good(1) issued] issued show ?thesis
    by (simp add: example_issue_def)
qed

subsection \<open>The in-memory store\<close>

text \<open>
  C32. The in-memory store keeps the promises of the storage trait, as steps on the table of tokens
  a reader sees: a lookup by hash answers a stored token with that hash or that there is none, the
  live tokens of a user come by age, a rotation revokes a live parent and stores the child or does
  nothing, a family revocation revokes exactly the live tokens of that user and family, revoking a
  device counts what it revokes, and issuing evicts the oldest first.
\<close>

theorem mem_refresh_store_keeps_contract:
  "fulfils mref_good mref_seen (find_token mem_refresh_store h) (spec_find h) \<and>
   fulfils mref_good mref_seen (active_tokens mem_refresh_store u) (spec_active u) \<and>
   fulfils mref_good mref_seen (rotate_token mem_refresh_store parent t) (spec_rotate parent t) \<and>
   fulfils mref_good mref_seen (revoke_family mem_refresh_store u fid) (spec_revoke_family u fid) \<and>
   fulfils mref_good mref_seen (revoke_device_tokens mem_refresh_store tn dev) (spec_revoke_device tn dev) \<and>
   fulfils mref_good mref_seen (issue_capped mem_refresh_store t mx) (spec_issue t mx)"
  by (intro conjI mem_ref.find_step mem_ref.active_step mem_ref.rotate_step mem_ref.revoke_family_step
      mem_ref.revoke_device_step mem_ref.issue_step)

text \<open>
  Called one at a time, the store's operations are the steps above. A rotation is two calls on the
  underlying map, though, and a family revocation that runs between them misses the child: the
  parent was already revoked, the child is stored afterwards and stays live.
\<close>

lemma rotation_escapes_interleaved_sweep:
  assumes "mref_good s" "live s parent = Some q" "\<not> revoked q" "\<not> revoked t" "clock_now s < rt_expires_at t"
  shows "\<exists>s1. rotate_parent parent t s = (True, s1) \<and>
    live (mref_store_token t (revoke_where (\<lambda>t. rt_user_id t = u \<and> family_id t = Some fid) Compromise s1)) (rt_id t) = Some t"
proof -
  let ?f = "revoke_row Rotated_Out (issued_at t)" and ?s1 = "snd (kv_update parent (revoke_row Rotated_Out (issued_at t)) s)"
  have "live ?s1 j = map_option (if j = parent then ?f else id) (live s j)" for j
    by (simp add: option.map_id)
  then have good: "mref_good ?s1"
    by (rule mref_good_mapped [OF assms(1)]) (use assms(1) in \<open>simp_all add: mref_good_def\<close>)
  have "rotate_parent parent t s = (True, ?s1)"
    using assms(2,3) by (simp add: rotate_parent_def)
  moreover have "live (mref_store_token t (revoke_where P Compromise ?s1)) (rt_id t) = Some t" for P
  proof -
    have sel: "kv_wf (revoke_where P Compromise ?s1)" "0 \<le> max_delta (limits (revoke_where P Compromise ?s1))"
      using mref_revoke_where(1) [OF good] by (simp_all add: mref_good_def)
    show ?thesis using assms(5) by (simp add: mref_store_live [OF sel] revoke_where_sel)
  qed
  ultimately show ?thesis by blast
qed

end
