(* ===== verification/One_Time_Codes.thy ===== *)
theory One_Time_Codes
  imports Text_Codec
begin

section \<open>One-time codes: HOTP and TOTP\<close>

text \<open>
  \<^verbatim>\<open>axess-factors/src/otp_core.rs\<close>, \<^verbatim>\<open>hotp.rs\<close> and \<^verbatim>\<open>totp.rs\<close>: the truncated code of RFC 4226 at the
  width the code uses, the scan of the counter window, the steps of RFC 6238 and the lock an HOTP
  factor sets after wrong codes. The keyed hash and base32 are parameters.
\<close>

unbundle bit_operations_syntax

subsection \<open>Text\<close>

text \<open>
  \<^verbatim>\<open>str::trim\<close> on the bytes of a string: white space is what Unicode calls white space, which in
  UTF-8 is one, two or three bytes.
\<close>

definition white2 :: "char \<Rightarrow> char \<Rightarrow> bool" where
  "white2 a b \<longleftrightarrow> of_char a = (0xC2 :: nat) \<and> (of_char b :: nat) \<in> {0x85, 0xA0}"

definition white3 :: "char \<Rightarrow> char \<Rightarrow> char \<Rightarrow> bool" where
  "white3 a b c \<longleftrightarrow>
     (let x = of_char a :: nat; y = of_char b :: nat; z = of_char c :: nat
      in (x = 0xE1 \<and> y = 0x9A \<and> z = 0x80) \<or>
         (x = 0xE2 \<and> y = 0x80 \<and> (0x80 \<le> z \<and> z \<le> 0x8A \<or> z \<in> {0xA8, 0xA9, 0xAF})) \<or>
         (x = 0xE2 \<and> y = 0x81 \<and> z = 0x9F) \<or> (x = 0xE3 \<and> y = 0x80 \<and> z = 0x80))"

text \<open>The bytes of the white space a string starts with.\<close>

fun white_prefix :: "bytes \<Rightarrow> nat" where
  "white_prefix [] = 0"
| "white_prefix [a] = (if is_whitespace a then 1 else 0)"
| "white_prefix [a, b] = (if is_whitespace a then 1 else if white2 a b then 2 else 0)"
| "white_prefix (a # b # c # r) =
     (if is_whitespace a then 1 else if white2 a b then 2 else if white3 a b c then 3 else 0)"

text \<open>The same at the end, on the reversed string.\<close>

fun white_suffix :: "bytes \<Rightarrow> nat" where
  "white_suffix [] = 0"
| "white_suffix [a] = (if is_whitespace a then 1 else 0)"
| "white_suffix [a, b] = (if is_whitespace a then 1 else if white2 b a then 2 else 0)"
| "white_suffix (a # b # c # r) =
     (if is_whitespace a then 1 else if white2 b a then 2 else if white3 c b a then 3 else 0)"

function drop_white :: "(bytes \<Rightarrow> nat) \<Rightarrow> bytes \<Rightarrow> bytes" where
  "drop_white w s = (if s = [] \<or> w s = 0 then s else drop_white w (drop (w s) s))"
  by pat_completeness auto
termination
  by (relation "measure (length \<circ> snd)") auto

declare drop_white.simps [simp del]

definition trim_text :: "string \<Rightarrow> string" where
  "trim_text s = rev (drop_white white_suffix (rev (drop_white white_prefix s)))"

definition ascii_upper :: "char \<Rightarrow> char" where
  "ascii_upper c = (let n = of_char c :: nat in if 97 \<le> n \<and> n \<le> 122 then char_of (n - 32) else c)"

definition is_digit :: "char \<Rightarrow> bool" where
  "is_digit c \<longleftrightarrow> (let n = of_char c :: nat in 48 \<le> n \<and> n \<le> 57)"

text \<open>The value of decimal digits, and the zero-padded decimal text of a number.\<close>

definition dec_value :: "string \<Rightarrow> nat" where
  "dec_value s = foldl (\<lambda>acc c. 10 * acc + (of_char c - 48)) 0 s"

primrec padded :: "nat \<Rightarrow> nat \<Rightarrow> string" where
  "padded 0 n = []"
| "padded (Suc w) n = padded w (n div 10) @ [char_of (48 + n mod 10)]"

fun dec_str :: "nat \<Rightarrow> string" where
  "dec_str n = (if n < 10 then [char_of (48 + n)] else dec_str (n div 10) @ [char_of (48 + n mod 10)])"

declare dec_str.simps [simp del]

text \<open>\<^verbatim>\<open>format!("{:0>width$}", n)\<close>: zeros in front up to the width, no digit cut off.\<close>

definition zero_pad :: "nat \<Rightarrow> nat \<Rightarrow> string" where
  "zero_pad w n = replicate (w - length (dec_str n)) (CHR ''0'') @ dec_str n"

lemma dec_value_append [simp]: "dec_value (s @ [c]) = 10 * dec_value s + (of_char c - 48)"
  by (simp add: dec_value_def)

lemma digit_char [simp]:
  "d < 10 \<Longrightarrow> of_char (char_of (48 + d :: nat)) = 48 + d" "d < 10 \<Longrightarrow> is_digit (char_of (48 + d :: nat))"
  by (simp_all add: is_digit_def)

lemma padded_digits: "length (padded w n) = w" "list_all is_digit (padded w n)"
  by (induction w arbitrary: n) simp_all

lemma padded_value: "n < 10 ^ w \<Longrightarrow> dec_value (padded w n) = n"
proof (induction w arbitrary: n)
  case (Suc w)
  then have "n div 10 < 10 ^ w" by (simp add: less_mult_imp_div_less mult.commute)
  moreover have "n mod 10 < 10" by simp
  ultimately show ?case by (simp add: Suc.IH)
qed (simp add: dec_value_def)

lemmas padded_props = padded_digits padded_value

text \<open>Digits of the same length are determined by their value.\<close>

lemma dec_value_bound: "list_all is_digit s \<Longrightarrow> dec_value s < 10 ^ length s"
proof (induction s rule: rev_induct)
  case (snoc c s)
  then have "dec_value s < 10 ^ length s" "(of_char c :: nat) \<le> 57"
    by (simp_all add: is_digit_def Let_def)
  then show ?case by simp
qed (simp add: dec_value_def)

lemma digits_padded: "list_all is_digit s \<Longrightarrow> s = padded (length s) (dec_value s)"
proof (induction s rule: rev_induct)
  case (snoc c s)
  then have c: "48 \<le> (of_char c :: nat)" "(of_char c :: nat) \<le> 57"
    by (simp_all add: is_digit_def Let_def)
  have "(10 * x + d) mod 10 = d" "(10 * x + d) div 10 = x" if "d < 10" for x d :: nat
    using that by simp_all
  moreover have "of_char c - 48 < (10 :: nat)" using c by linarith
  moreover have "char_of (48 + (of_char c - 48) :: nat) = c" using c(1) by simp
  ultimately show ?case using snoc by simp
qed simp

lemma dec_str_digits: "list_all is_digit (dec_str n)" "dec_value (dec_str n) = n"
proof (induction n rule: dec_str.induct)
  case (1 n)
  have "n mod 10 < 10" by simp
  note d = digit_char [OF this]
  show "list_all is_digit (dec_str n)"
    using 1(1) d digit_char(2) [of n] by (subst dec_str.simps) simp
  show "dec_value (dec_str n) = n"
  proof (cases "n < 10")
    case True
    then have "dec_str n = [] @ [char_of (48 + n)]" by (subst dec_str.simps) simp
    with digit_char(1) [OF True] show ?thesis unfolding dec_value_append by (simp add: dec_value_def)
  next
    case False
    then have "dec_str n = dec_str (n div 10) @ [char_of (48 + n mod 10)]" by (subst dec_str.simps) simp
    with False 1(2) d(1) show ?thesis by simp
  qed
qed

lemma length_dec_str: "n < 10 ^ w \<Longrightarrow> 0 < w \<Longrightarrow> length (dec_str n) \<le> w"
proof (induction w arbitrary: n)
  case (Suc w)
  show ?case
  proof (cases "n < 10")
    case True
    then show ?thesis by (subst dec_str.simps) simp
  next
    case False
    then have "w \<noteq> 0" using Suc.prems(1) by (cases w) simp_all
    moreover have "n div 10 < 10 ^ w" using Suc.prems(1) by (simp add: less_mult_imp_div_less mult.commute)
    ultimately have "length (dec_str (n div 10)) \<le> w" by (simp add: Suc.IH)
    with False show ?thesis by (subst dec_str.simps) simp
  qed
qed simp

lemma dec_value_zeros: "dec_value (replicate k (CHR ''0'') @ s) = dec_value s"
proof -
  have "foldl (\<lambda>acc c. 10 * acc + (of_char c - 48)) (0 :: nat) (replicate k (CHR ''0'')) = 0"
    by (induction k) simp_all
  then show ?thesis by (simp add: dec_value_def)
qed

lemma zero_pad_padded:
  assumes "n < 10 ^ w" "0 < w"
  shows "zero_pad w n = padded w n"
proof -
  have "is_digit (CHR ''0'')" by (simp add: is_digit_def)
  then have "list_all is_digit (zero_pad w n)" 
    using dec_str_digits(1) [of n] by (auto simp: zero_pad_def list_all_iff)
  moreover have "length (zero_pad w n) = w" using length_dec_str [OF assms] by (simp add: zero_pad_def)
  moreover have "dec_value (zero_pad w n) = n" by (simp add: zero_pad_def dec_value_zeros dec_str_digits(2))
  ultimately show ?thesis using digits_padded [of "zero_pad w n"] by simp
qed

text \<open>Text of digits is its own trim.\<close>

lemma digit_not_white:
  "is_digit a \<Longrightarrow> \<not> is_whitespace a" "is_digit a \<Longrightarrow> \<not> white2 a b" "is_digit a \<Longrightarrow> \<not> white3 a b c"
  "is_digit b \<Longrightarrow> \<not> white2 a b" "is_digit c \<Longrightarrow> \<not> white3 a b c"
  by (auto simp: is_digit_def is_whitespace_def white2_def white3_def Let_def)

lemma trim_digits: "list_all is_digit s \<Longrightarrow> trim_text s = s"
proof -
  have pre: "white_prefix s = 0" if "list_all is_digit s" for s
    using that by (cases s rule: white_prefix.cases) (simp_all add: digit_not_white)
  have suf: "white_suffix s = 0" if "list_all is_digit s" for s
    using that by (cases s rule: white_suffix.cases) (simp_all add: digit_not_white)
  assume "list_all is_digit s"
  then show ?thesis by (simp add: trim_text_def drop_white.simps pre suf)
qed

subsection \<open>The code of RFC 4226\<close>

datatype hotp_algorithm = HotpSha1 | HotpSha256 | HotpSha512

record otp_crypto =
  mac :: "hotp_algorithm \<Rightarrow> bytes \<Rightarrow> bytes \<Rightarrow> bytes"
  base32_decode :: "bool \<Rightarrow> string \<Rightarrow> bytes option"

text \<open>What is relied on of the keyed hash: the length of its digest.\<close>

fun digest_length :: "hotp_algorithm \<Rightarrow> nat" where
  "digest_length HotpSha1 = 20"
| "digest_length HotpSha256 = 32"
| "digest_length HotpSha512 = 64"

definition otp_laws :: "otp_crypto \<Rightarrow> bool" where
  "otp_laws c \<longleftrightarrow> (\<forall>a k m. length (mac c a k m) = digest_length a)"

definition be_bytes :: "u64 \<Rightarrow> bytes" where
  "be_bytes n = map (\<lambda>i. char_of (unat n div 256 ^ (7 - i))) [0..<8]"

definition byte_at :: "bytes \<Rightarrow> nat \<Rightarrow> u8" where
  "byte_at d i = of_nat (of_char (d ! i))"

definition truncate_digest :: "bytes \<Rightarrow> u32" where
  "truncate_digest d =
     (let offset = unat (byte_at d (length d - 1) AND 0x0f)
      in push_bit 24 (ucast (byte_at d offset AND 0x7f)) OR push_bit 16 (ucast (byte_at d (offset + 1)))
         OR push_bit 8 (ucast (byte_at d (offset + 2))) OR ucast (byte_at d (offset + 3)))"

definition hotp_value :: "otp_crypto \<Rightarrow> bytes \<Rightarrow> u64 \<Rightarrow> nat \<Rightarrow> hotp_algorithm \<Rightarrow> u64" where
  "hotp_value c secret counter digits algorithm =
     ucast (truncate_digest (mac c algorithm secret (be_bytes counter))) mod 10 ^ digits"

text \<open>Every index of the truncation is in range, and its value has 31 bits.\<close>

lemma truncation_in_range:
  assumes "otp_laws c"
  shows "unat (byte_at d i AND 0x0f) + 3 < length (mac c a k m)"
proof -
  have "byte_at d i AND 0x0f \<le> 0x0f" by (rule word_and_le1)
  then have "unat (byte_at d i AND 0x0f) \<le> unat (0x0f :: u8)" by (rule word_le_nat_alt [THEN iffD1])
  also have "\<dots> = 15" by simp
  finally have "unat (byte_at d i AND 0x0f) \<le> 15" .
  moreover have "20 \<le> length (mac c a k m)" using assms by (cases a) (simp_all add: otp_laws_def)
  ultimately show ?thesis by linarith
qed

lemma truncate_bound: "unat (truncate_digest d) < 2 ^ 31"
proof -
  have high: "\<not> bit (x :: u8) n" if "8 \<le> n" for x n
    using bit_imp_le_length [of x n] that by auto
  have "\<not> bit (truncate_digest d) n" if "31 \<le> n" for n
  proof (cases "n = 31")
    case True
    then show ?thesis by (simp add: truncate_digest_def Let_def bit_simps high)
  next
    case False
    with that show ?thesis using bit_imp_le_length [of "truncate_digest d" n] by auto
  qed
  then have "take_bit 31 (truncate_digest d) = truncate_digest d"
    by (intro bit_eqI) (auto simp: bit_simps, metis not_less)
  then have "unat (take_bit 31 (truncate_digest d)) = unat (truncate_digest d)" by simp
  then show ?thesis by (metis unsigned_take_bit_eq take_bit_nat_less_exp)
qed

lemma unat_ten_power: "w \<le> 19 \<Longrightarrow> unat ((10 :: u64) ^ w) = 10 ^ w"
proof -
  assume "w \<le> 19"
  then have "(10 :: nat) ^ w \<le> 10 ^ 19" by (rule power_increasing) simp
  also have "(10 :: nat) ^ 19 < 2 ^ 64" by simp
  finally have "(10 :: nat) ^ w < 2 ^ 64" .
  with unat_of_nat [of "10 ^ w", where ?'a = 64] show ?thesis by simp
qed

text \<open>The code as a number, without the words.\<close>

definition code_number :: "otp_crypto \<Rightarrow> bytes \<Rightarrow> u64 \<Rightarrow> nat \<Rightarrow> hotp_algorithm \<Rightarrow> nat" where
  "code_number c secret counter digits algorithm =
     unat (truncate_digest (mac c algorithm secret (be_bytes counter))) mod 10 ^ digits"

lemma hotp_value_number:
  "digits \<le> 19 \<Longrightarrow> unat (hotp_value c secret counter digits algorithm) = code_number c secret counter digits algorithm"
proof -
  assume "digits \<le> 19"
  moreover have "unat (ucast x :: u64) = unat x" for x :: u32
    using unsigned_less [of x, where ?'a = nat] by (simp add: unsigned_ucast_eq take_bit_nat_eq_self_iff)
  ultimately show ?thesis by (simp add: hotp_value_def code_number_def unat_mod unat_ten_power)
qed

lemma code_number_bound: "code_number c secret counter digits algorithm < 10 ^ digits"
  by (simp add: code_number_def)

subsection \<open>Verifying an HOTP code\<close>

abbreviation MIN_OTP_DIGITS :: nat where "MIN_OTP_DIGITS \<equiv> 6"
abbreviation MAX_HOTP_DIGITS :: nat where "MAX_HOTP_DIGITS \<equiv> 10"
abbreviation MAX_TOTP_DIGITS :: nat where "MAX_TOTP_DIGITS \<equiv> 8"
abbreviation MIN_OTP_SECRET_BYTES :: nat where "MIN_OTP_SECRET_BYTES \<equiv> 16"

definition u64_checked_add :: "u64 \<Rightarrow> u64 \<Rightarrow> u64 option" where
  "u64_checked_add a b = (if unat a + unat b < 2 ^ 64 then Some (a + b) else None)"

definition u64_checked_sub :: "u64 \<Rightarrow> u64 \<Rightarrow> u64 option" where
  "u64_checked_sub a b = (if b \<le> a then Some (a - b) else None)"

definition u64_saturating_add :: "u64 \<Rightarrow> u64 \<Rightarrow> u64" where
  "u64_saturating_add a b = (if unat a + unat b < 2 ^ 64 then a + b else - 1)"

definition u64_saturating_mul :: "u64 \<Rightarrow> u64 \<Rightarrow> u64" where
  "u64_saturating_mul a b = (if unat a * unat b < 2 ^ 64 then a * b else - 1)"

text \<open>\<^verbatim>\<open>str::parse::<u64>\<close> on digits.\<close>

definition parse_u64 :: "string \<Rightarrow> u64 option" where
  "parse_u64 s = (if s \<noteq> [] \<and> list_all is_digit s \<and> dec_value s < 2 ^ 64 then Some (of_nat (dec_value s)) else None)"

definition decode_secret :: "otp_crypto \<Rightarrow> string \<Rightarrow> bytes option" where
  "decode_secret c secret =
     (let upper = map ascii_upper (trim_text secret)
      in case base32_decode c False upper of Some b \<Rightarrow> Some b | None \<Rightarrow> base32_decode c True upper)"

text \<open>The scan of the window goes on after a match and keeps the first one.\<close>

fun hotp_scan :: "(u64 \<Rightarrow> bool) \<Rightarrow> u64 \<Rightarrow> nat list \<Rightarrow> u64 option \<Rightarrow> u64 option" where
  "hotp_scan is_match counter [] matched = matched"
| "hotp_scan is_match counter (offset # offsets) matched =
     (case u64_checked_add counter (of_nat offset) of
        None \<Rightarrow> matched
      | Some candidate \<Rightarrow>
          hotp_scan is_match counter offsets
            (if is_match candidate \<and> matched = None then Some candidate else matched))"

definition supplied_code :: "string \<Rightarrow> nat \<Rightarrow> u64 option" where
  "supplied_code code digits =
     (let trimmed = trim_text code
      in if length trimmed = digits \<and> list_all is_digit trimmed then parse_u64 trimmed else None)"

definition verify_hotp ::
  "otp_crypto \<Rightarrow> string \<Rightarrow> string \<Rightarrow> u64 \<Rightarrow> nat \<Rightarrow> u64 \<Rightarrow> hotp_algorithm \<Rightarrow> u64 option" where
  "verify_hotp c secret code counter digits window algorithm =
     (if \<not> (MIN_OTP_DIGITS \<le> digits \<and> digits \<le> MAX_HOTP_DIGITS) then None
      else (case decode_secret c secret of
              None \<Rightarrow> None
            | Some key \<Rightarrow>
                if length key < MIN_OTP_SECRET_BYTES then None
                else (let supplied = supplied_code code digits;
                          supplied_value = (case supplied of Some v \<Rightarrow> v | None \<Rightarrow> - 1)
                      in hotp_scan (\<lambda>candidate. supplied \<noteq> None \<and>
                                      hotp_value c key candidate digits algorithm = supplied_value)
                           counter [0..<Suc (unat window)] None)))"

text \<open>A code is right for a counter when it is the padded number of that counter.\<close>

definition is_code :: "otp_crypto \<Rightarrow> bytes \<Rightarrow> nat \<Rightarrow> hotp_algorithm \<Rightarrow> string \<Rightarrow> u64 \<Rightarrow> bool" where
  "is_code c key digits algorithm code counter \<longleftrightarrow>
     trim_text code = padded digits (code_number c key counter digits algorithm)"

lemma supplied_is_code:
  assumes "MIN_OTP_DIGITS \<le> digits" "digits \<le> MAX_HOTP_DIGITS"
  shows "(supplied_code code digits \<noteq> None \<and>
      hotp_value c key n digits algorithm = (case supplied_code code digits of Some v \<Rightarrow> v | None \<Rightarrow> - 1)) \<longleftrightarrow>
    is_code c key digits algorithm code n"
proof -
  let ?t = "trim_text code" and ?n = "code_number c key n digits algorithm"
  have ten: "(10 :: nat) ^ digits < 2 ^ 64"
  proof -
    have "(10 :: nat) ^ digits \<le> 10 ^ 10" using assms(2) by (intro power_increasing) simp_all
    then show ?thesis by (rule le_less_trans) simp
  qed
  have number: "unat (hotp_value c key n digits algorithm) = ?n" using assms by (intro hotp_value_number) simp
  show ?thesis
  proof (cases "length ?t = digits \<and> list_all is_digit ?t")
    case True
    then have bound: "dec_value ?t < 10 ^ digits" using dec_value_bound by auto
    with True ten assms(1) have supplied: "supplied_code code digits = Some (of_nat (dec_value ?t))"
      by (auto simp: supplied_code_def parse_u64_def Let_def)
    have "hotp_value c key n digits algorithm = of_nat (dec_value ?t) \<longleftrightarrow> ?n = dec_value ?t"
      using number bound ten by (auto simp: word_unat_eq_iff unat_of_nat)
    also have "\<dots> \<longleftrightarrow> ?t = padded digits ?n"
      using True digits_padded [of ?t] padded_value [OF code_number_bound] by metis
    finally show ?thesis by (simp add: supplied is_code_def)
  next
    case False
    then have "supplied_code code digits = None" by (auto simp: supplied_code_def Let_def)
    moreover have "?t \<noteq> padded digits ?n" using False padded_digits by metis
    ultimately show ?thesis by (simp add: is_code_def)
  qed
qed

text \<open>The scan answers the first counter of the window that matches.\<close>

lemma hotp_scan_kept: "hotp_scan ok counter offsets (Some m) = Some m"
  by (induction offsets) (simp_all split: option.split)

lemma u64_checked_add_of_nat:
  assumes "k < 2 ^ 64"
  shows "u64_checked_add a (of_nat k) = (if unat a + k < 2 ^ 64 then Some (a + of_nat k) else None)"
  using assms by (simp add: u64_checked_add_def unat_of_nat)

lemma hotp_scan_first:
  assumes "k + n \<le> 2 ^ 64"
  shows "hotp_scan ok counter [k..<k + n] None =
    find ok (map (\<lambda>i. counter + of_nat i) (filter (\<lambda>i. unat counter + i < 2 ^ 64) [k..<k + n]))"
  using assms
proof (induction n arbitrary: k)
  case (Suc n)
  have upt: "[k..<k + Suc n] = k # [Suc k..<Suc k + n]" by (simp add: upt_conv_Cons)
  show ?case
  proof (cases "unat counter + k < 2 ^ 64")
    case True
    then have add: "u64_checked_add counter (of_nat k) = Some (counter + of_nat k)"
      by (simp add: u64_checked_add_of_nat)
    have "hotp_scan ok counter [Suc k..<Suc k + n] None =
      find ok (map (\<lambda>i. counter + of_nat i) (filter (\<lambda>i. unat counter + i < 2 ^ 64) [Suc k..<Suc k + n]))"
      by (rule Suc.IH) (use Suc.prems True in linarith)
    with True show ?thesis unfolding upt by (simp add: add hotp_scan_kept)
  next
    case False
    then have "filter (\<lambda>i. unat counter + i < 2 ^ 64) (k # [Suc k..<Suc k + n]) = []" by auto
    moreover have "k < 2 ^ 64" using Suc.prems by auto
    ultimately show ?thesis using False unfolding upt by (simp only: hotp_scan.simps u64_checked_add_of_nat if_False option.case list.map find.simps)
  qed
qed simp

lemma filter_upt_below: "filter (\<lambda>i. a + i < b) [0..<n] = [0..<min n (b - a)]"
proof (induction n)
  case (Suc n)
  show ?case
  proof (cases "a + n < b")
    case True
    then have "min n (b - a) = n" "min (Suc n) (b - a) = Suc n" by linarith+
    with Suc True show ?thesis by simp
  next
    case False
    then have "min n (b - a) = b - a" "min (Suc n) (b - a) = b - a" by linarith+
    with Suc False show ?thesis by simp
  qed
qed simp

lemma unat_u64_bound: "unat (m :: u64) < 2 ^ 64"
  using unsigned_less [of m, where ?'a = nat] by simp

lemma hotp_scan_spec:
  fixes window :: u64
  shows "hotp_scan ok counter [0..<Suc (unat window)] None = Some n \<longleftrightarrow>
     ok n \<and> unat counter \<le> unat n \<and> unat n \<le> unat counter + unat window \<and>
     (\<forall>m. unat counter \<le> unat m \<and> unat m < unat n \<longrightarrow> \<not> ok m)"
proof -
  let ?k = "min (Suc (unat window)) (2 ^ 64 - unat counter)"
  let ?f = "\<lambda>i. counter + of_nat i"
  have small: "Suc (unat window) \<le> 2 ^ 64" using unat_u64_bound [of window] by linarith
  have scan: "hotp_scan ok counter [0..<Suc (unat window)] None = find ok (map ?f [0..<?k])"
    using hotp_scan_first [of 0 "Suc (unat window)" ok counter] small by (simp only: filter_upt_below add_0)
  have number: "unat (?f i) = unat counter + i" if "i < 2 ^ 64 - unat counter" for i
    using that by (simp add: unat_add_lem [THEN iffD1] unat_of_nat)
  have inv: "m = ?f (unat m - unat counter)" if "unat counter \<le> unat m" for m
    using that by (simp add: of_nat_diff)
  note top = unat_u64_bound
  show ?thesis
  proof
    assume "hotp_scan ok counter [0..<Suc (unat window)] None = Some n"
    then obtain i where i: "i < ?k" "ok (?f i)" "n = ?f i" "\<And>j. j < i \<Longrightarrow> \<not> ok (?f j)"
      unfolding scan by (auto simp: find_Some_iff)
    have un: "unat n = unat counter + i" using i number by simp
    have "\<not> ok m" if "unat counter \<le> unat m" "unat m < unat n" for m
      using i(4) [of "unat m - unat counter"] inv [OF that(1)] that un by simp
    with i un show "ok n \<and> unat counter \<le> unat n \<and> unat n \<le> unat counter + unat window \<and>
        (\<forall>m. unat counter \<le> unat m \<and> unat m < unat n \<longrightarrow> \<not> ok m)" by simp
  next
    assume n: "ok n \<and> unat counter \<le> unat n \<and> unat n \<le> unat counter + unat window \<and>
        (\<forall>m. unat counter \<le> unat m \<and> unat m < unat n \<longrightarrow> \<not> ok m)"
    let ?i = "unat n - unat counter"
    have "?i < ?k" using n top [of n] by auto
    moreover have "?f ?i = n" using inv n by simp
    moreover have "\<not> ok (?f j)" if "j < ?i" for j
    proof -
      have "unat (?f j) = unat counter + j" using that top [of n] by (intro number) simp
      moreover have "unat counter \<le> unat counter + j" "unat counter + j < unat n" using n that by simp_all
      ultimately show ?thesis using n by metis
    qed
    ultimately show "hotp_scan ok counter [0..<Suc (unat window)] None = Some n"
      unfolding scan find_Some_iff using n by (intro exI [of _ ?i]) simp
  qed
qed

text \<open>
  C33. An HOTP code is accepted exactly at the first counter of the window it is the code of: at or
  after the stored counter, at most \<open>window\<close> ahead of it and never past the largest counter, for a
  code that is the zero-padded decimal text of that counter's value and nothing else. The numeric
  comparison of the code is the comparison of the texts.
\<close>

theorem hotp_accepts_first_in_window:
  assumes "MIN_OTP_DIGITS \<le> digits" "digits \<le> MAX_HOTP_DIGITS"
    and "decode_secret c secret = Some key" "MIN_OTP_SECRET_BYTES \<le> length key"
  shows "verify_hotp c secret code counter digits window algorithm = Some n \<longleftrightarrow>
    is_code c key digits algorithm code n \<and> counter \<le> n \<and> unat n \<le> unat counter + unat window \<and>
    (\<forall>m. counter \<le> m \<and> m < n \<longrightarrow> \<not> is_code c key digits algorithm code m)"
proof -
  have "verify_hotp c secret code counter digits window algorithm =
      hotp_scan (is_code c key digits algorithm code) counter [0..<Suc (unat window)] None"
    unfolding verify_hotp_def Let_def supplied_is_code [OF assms(1,2)] using assms by (simp del: upt_Suc)
  then show ?thesis by (simp only: hotp_scan_spec word_le_nat_alt word_less_nat_alt)
qed

definition example_otp :: otp_crypto where
  "example_otp = \<lparr>mac = (\<lambda>a k m. take (digest_length a) (m @ k @ replicate 64 (CHR 0x00))),
                  base32_decode = (\<lambda>pad s. Some (replicate 16 (CHR ''A'')))\<rparr>"

lemma example_otp_laws: "otp_laws example_otp"
proof -
  have short: "digest_length a \<le> 64" for a by (cases a) simp_all
  have "min (length m + (length k + 64)) (digest_length a) = digest_length a" for a and k m :: string
    using short [of a] by linarith
  then show ?thesis by (simp add: otp_laws_def example_otp_def del: take_append)
qed

lemma padded_is_code:
  "is_code c key digits algorithm (padded digits (code_number c key n digits algorithm)) n"
  by (simp add: is_code_def trim_digits padded_digits)

theorem hotp_accepts_first_in_window_witness:
  "let code = padded 6 (code_number example_otp (replicate 16 (CHR ''A'')) 7 6 HotpSha1)
   in \<exists>n. verify_hotp example_otp ''key'' code 5 6 3 HotpSha1 = Some n \<and> 5 \<le> n \<and> n \<le> 7"
proof -
  let ?key = "replicate 16 (CHR ''A'')"
  let ?code = "padded 6 (code_number example_otp ?key 7 6 HotpSha1)"
  let ?P = "\<lambda>m. 5 \<le> m \<and> is_code example_otp ?key 6 HotpSha1 ?code m"
  have "?P 7" using padded_is_code by simp
  then obtain n where n: "?P n" "\<And>m. ?P m \<Longrightarrow> unat n \<le> unat m" using ex_has_least_nat [of ?P 7 unat] by blast
  have "unat n \<le> 7" using n(2) [OF \<open>?P 7\<close>] by simp
  moreover have "unat (5 :: u64) + unat (3 :: u64) = 8" by simp
  moreover have "\<not> is_code example_otp ?key 6 HotpSha1 ?code m" if "5 \<le> m" "m < n" for m
    using n(2) [of m] that by (auto simp: word_less_nat_alt)
  moreover have "decode_secret example_otp ''key'' = Some ?key" by (simp add: decode_secret_def example_otp_def Let_def)
  ultimately have "verify_hotp example_otp ''key'' ?code 5 6 3 HotpSha1 = Some n"
    using n(1) hotp_accepts_first_in_window [of 6 example_otp "''key''" ?key ?code 5 3 HotpSha1 n] by simp
  moreover have "n \<le> 7" using \<open>unat n \<le> 7\<close> by (simp add: word_le_nat_alt)
  ultimately show ?thesis using n(1) by (auto simp: Let_def)
qed

subsection \<open>Factor secrets and the HOTP configuration\<close>

record sealed_factor_secret =
  sealed_key_id :: string
  sealed_nonce :: string
  sealed_ciphertext :: string

datatype factor_secret = PlainSecret string | SealedSecret sealed_factor_secret

fun plain_secret :: "factor_secret \<Rightarrow> string option" where
  "plain_secret (PlainSecret s) = Some s"
| "plain_secret (SealedSecret s) = None"

datatype otp_algorithm = OtpSha1 | OtpSha256 | OtpSha512

record hotp_throttle =
  locked_until :: "datetime option"
  lockouts :: u8

record hotp_config =
  h_secret :: factor_secret
  h_digits :: u8
  h_algorithm :: otp_algorithm
  h_counter :: u64
  lookahead_window :: u32
  h_attempt_count :: u8
  h_max_attempts :: u8
  h_throttle :: hotp_throttle

abbreviation secs :: "nat \<Rightarrow> duration" where
  "secs n \<equiv> n * 1000000000"

abbreviation HOTP_LOCK_BASE :: duration where "HOTP_LOCK_BASE \<equiv> secs 60"
abbreviation HOTP_LOCK_MAX :: duration where "HOTP_LOCK_MAX \<equiv> secs (60 * 60)"

text \<open>\<^verbatim>\<open>Duration::checked_mul\<close>: a span of more seconds than 64 bits count is refused.\<close>

definition duration_checked_mul :: "duration \<Rightarrow> u32 \<Rightarrow> duration option" where
  "duration_checked_mul d k = (if d * unat k < secs (2 ^ 64) then Some (d * unat k) else None)"

definition lock_duration_after :: "u8 \<Rightarrow> duration" where
  "lock_duration_after n =
     (let doublings = unat (min n 31)
      in case duration_checked_mul HOTP_LOCK_BASE (push_bit doublings 1) of
           Some d \<Rightarrow> min d HOTP_LOCK_MAX
         | None \<Rightarrow> HOTP_LOCK_MAX)"

definition hotp_throttle_default :: hotp_throttle where
  "hotp_throttle_default = \<lparr>locked_until = None, lockouts = 0\<rparr>"

definition hotp_config_default :: hotp_config where
  "hotp_config_default =
     \<lparr>h_secret = PlainSecret [], h_digits = 6, h_algorithm = OtpSha1, h_counter = 0, lookahead_window = 10,
      h_attempt_count = 0, h_max_attempts = 5, h_throttle = hotp_throttle_default\<rparr>"

definition is_locked_at :: "hotp_config \<Rightarrow> datetime \<Rightarrow> bool" where
  "is_locked_at cfg now \<longleftrightarrow> (case locked_until (h_throttle cfg) of Some until \<Rightarrow> now < until | None \<Rightarrow> False)"

definition u8_saturating_add :: "u8 \<Rightarrow> u8 \<Rightarrow> u8" where
  "u8_saturating_add a b = (if unat a + unat b < 2 ^ 8 then a + b else - 1)"

definition lock_at :: "time_limits \<Rightarrow> datetime \<Rightarrow> hotp_config \<Rightarrow> hotp_config" where
  "lock_at lim now cfg =
     (let t = h_throttle cfg;
          span = (case from_std lim (lock_duration_after (lockouts t)) of Some d \<Rightarrow> d | None \<Rightarrow> max_delta lim);
          until = (case checked_add_signed lim now span of Some u \<Rightarrow> u | None \<Rightarrow> max_utc lim)
      in cfg\<lparr>h_throttle := \<lparr>locked_until = Some until, lockouts = u8_saturating_add (lockouts t) 1\<rparr>,
             h_attempt_count := 0\<rparr>)"

definition clear_lock :: "hotp_config \<Rightarrow> hotp_config" where
  "clear_lock cfg = cfg\<lparr>h_throttle := hotp_throttle_default, h_attempt_count := 0\<rparr>"

lemma lock_duration_spec: "lock_duration_after n = min (HOTP_LOCK_BASE * 2 ^ unat n) HOTP_LOCK_MAX"
proof -
  let ?k = "unat (min n 31)"
  have k: "?k \<le> 31" "?k = min (unat n) 31" by (simp_all add: min_def word_le_nat_alt)
  have two: "(2 :: nat) ^ ?k \<le> 2 ^ 31" using k(1) by (rule power_increasing) simp
  then have "unat (push_bit ?k (1 :: u32)) = 2 ^ ?k"
    by (simp add: push_bit_eq_mult) (use unat_of_nat [of "2 ^ ?k", where ?'a = 32] in simp)
  moreover have "HOTP_LOCK_BASE * 2 ^ ?k < secs (2 ^ 64)"
    using mult_le_mono2 [OF two, of "HOTP_LOCK_BASE"] by (rule le_less_trans) simp
  ultimately have "lock_duration_after n = min (HOTP_LOCK_BASE * 2 ^ ?k) HOTP_LOCK_MAX"
    by (simp add: lock_duration_after_def duration_checked_mul_def Let_def)
  also have "\<dots> = min (HOTP_LOCK_BASE * 2 ^ unat n) HOTP_LOCK_MAX"
  proof (cases "unat n \<le> 31")
    case False
    then have "(2 :: nat) ^ 31 \<le> 2 ^ unat n" by (intro power_increasing) simp_all
    with False k show ?thesis by simp
  qed (use k in simp)
  finally show ?thesis .
qed

subsection \<open>Verifying a TOTP code\<close>

datatype totp_algorithm = SHA1 | SHA256 | SHA512

fun totp_algorithm_as_str :: "totp_algorithm \<Rightarrow> string" where
  "totp_algorithm_as_str SHA1 = ''SHA1''"
| "totp_algorithm_as_str SHA256 = ''SHA256''"
| "totp_algorithm_as_str SHA512 = ''SHA512''"

fun totp_hotp :: "totp_algorithm \<Rightarrow> hotp_algorithm" where
  "totp_hotp SHA1 = HotpSha1"
| "totp_hotp SHA256 = HotpSha256"
| "totp_hotp SHA512 = HotpSha512"

definition totp_value :: "otp_crypto \<Rightarrow> bytes \<Rightarrow> u64 \<Rightarrow> u64 \<Rightarrow> nat \<Rightarrow> totp_algorithm \<Rightarrow> u64" where
  "totp_value c secret seconds step digits algorithm =
     hotp_value c secret (seconds div step) digits (totp_hotp algorithm)"

record totp_config =
  t_secret :: factor_secret
  t_digits :: u8
  period_secs :: u32
  t_algorithm :: otp_algorithm
  t_past_window :: u32
  t_future_window :: u32
  last_step :: "u64 option"

definition totp_config_default :: totp_config where
  "totp_config_default =
     \<lparr>t_secret = PlainSecret [], t_digits = 6, period_secs = 30, t_algorithm = OtpSha1, t_past_window = 1,
      t_future_window = 1, last_step = None\<rparr>"

abbreviation TOTP_LENGTH :: nat where "TOTP_LENGTH \<equiv> 6"
abbreviation TOTP_PERIOD :: u64 where "TOTP_PERIOD \<equiv> 30"
abbreviation MAX_TOTP_WINDOW :: u64 where "MAX_TOTP_WINDOW \<equiv> 2"

record totp_verify_params =
  tp_length :: "nat option"
  tp_period :: "u64 option"
  tp_past_window :: "u64 option"
  tp_future_window :: "u64 option"
  tp_algorithm :: totp_algorithm

definition totp_verify_params_default :: totp_verify_params where
  "totp_verify_params_default =
     \<lparr>tp_length = None, tp_period = None, tp_past_window = None, tp_future_window = None, tp_algorithm = SHA1\<rparr>"

definition check_candidate ::
  "otp_crypto \<Rightarrow> bytes \<Rightarrow> string \<Rightarrow> u64 \<Rightarrow> nat \<Rightarrow> totp_algorithm \<Rightarrow> u64 \<Rightarrow> u64 option" where
  "check_candidate c key code time_step digits algorithm step =
     (let timestamp_secs = u64_saturating_mul step time_step;
          expected = zero_pad digits (unat (totp_value c key timestamp_secs time_step digits algorithm))
      in if expected = code then Some step else None)"

text \<open>The first step of the list the code is right for, where the step exists.\<close>

fun first_step :: "(u64 \<Rightarrow> u64 option) \<Rightarrow> (u64 \<Rightarrow> u64 option) \<Rightarrow> nat list \<Rightarrow> u64 option" where
  "first_step step_at check [] = None"
| "first_step step_at check (offset # offsets) =
     (case step_at (of_nat offset) of
        None \<Rightarrow> first_step step_at check offsets
      | Some candidate \<Rightarrow>
          (case check candidate of
             Some step \<Rightarrow> Some step
           | None \<Rightarrow> first_step step_at check offsets))"

definition verify_totp ::
  "otp_crypto \<Rightarrow> string \<Rightarrow> string \<Rightarrow> datetime \<Rightarrow> totp_verify_params \<Rightarrow> u64 option" where
  "verify_totp c secret code now params =
     (let sanitized = trim_text code;
          digits = (case tp_length params of Some l \<Rightarrow> l | None \<Rightarrow> TOTP_LENGTH);
          time_step = (case tp_period params of Some p \<Rightarrow> p | None \<Rightarrow> TOTP_PERIOD);
          past = min (case tp_past_window params of Some w \<Rightarrow> w | None \<Rightarrow> 1) MAX_TOTP_WINDOW;
          future = min (case tp_future_window params of Some w \<Rightarrow> w | None \<Rightarrow> 1) MAX_TOTP_WINDOW
      in if sanitized = [] then None
         else if \<not> (MIN_OTP_DIGITS \<le> digits \<and> digits \<le> MAX_TOTP_DIGITS) then None
         else if time_step = 0 then None
         else (case decode_secret c secret of
                 None \<Rightarrow> None
               | Some key \<Rightarrow>
                   if length key < MIN_OTP_SECRET_BYTES then None
                   else (let timestamp = now div 1000000000
                         in if timestamp < 0 then None
                            else (let seconds = (of_int timestamp :: u64);
                                      current_step = seconds div time_step;
                                      check = check_candidate c key sanitized time_step digits (tp_algorithm params)
                                  in case check current_step of
                                       Some step \<Rightarrow> Some step
                                     | None \<Rightarrow>
                                         (case first_step (u64_checked_add current_step) check [1..<Suc (unat future)] of
                                            Some step \<Rightarrow> Some step
                                          | None \<Rightarrow>
                                              first_step (u64_checked_sub current_step) check [1..<Suc (unat past)])))))"

lemma check_candidate_is_code:
  assumes "MIN_OTP_DIGITS \<le> digits" "digits \<le> MAX_TOTP_DIGITS" "0 < time_step" "unat step * unat time_step < 2 ^ 64"
  shows "check_candidate c key (trim_text code) time_step digits algorithm step =
    (if is_code c key digits (totp_hotp algorithm) code step then Some step else None)"
proof -
  have "unat (step * time_step) = unat step * unat time_step" using assms(4) by (simp add: unat_mult_lem [THEN iffD1])
  moreover have "0 < unat time_step" using assms(3) by (simp add: word_less_nat_alt)
  ultimately have "unat (step * time_step div time_step) = unat step" by (simp add: unat_div)
  then have "step * time_step div time_step = step" by (simp add: word_unat_eq_iff)
  moreover have "zero_pad digits (code_number c key n digits a) = padded digits (code_number c key n digits a)" for n a
    using assms(1) by (intro zero_pad_padded code_number_bound) simp
  moreover have "digits \<le> 19" using assms(2) by simp
  ultimately show ?thesis
    using assms(4) by (auto simp: check_candidate_def u64_saturating_mul_def totp_value_def hotp_value_number is_code_def Let_def)
qed

lemma first_step_Some:
  assumes "first_step step_at check offsets = Some n" "\<And>m k. check m = Some k \<Longrightarrow> k = m"
  shows "\<exists>offset \<in> set offsets. step_at (of_nat offset) = Some n \<and> check n = Some n"
  using assms(1)
proof (induction offsets)
  case (Cons offset offsets)
  show ?case
  proof (cases "step_at (of_nat offset)")
    case None
    with Cons show ?thesis by auto
  next
    case (Some candidate)
    show ?thesis
    proof (cases "check candidate")
      case None
      with Cons Some show ?thesis by auto
    next
      case (Some k)
      with assms(2) have "k = candidate" by blast
      with Cons.prems Some \<open>step_at (of_nat offset) = Some candidate\<close> show ?thesis by auto
    qed
  qed
qed simp

lemma first_step_None:
  "first_step step_at check offsets = None \<Longrightarrow> offset \<in> set offsets \<Longrightarrow> step_at (of_nat offset) = Some n \<Longrightarrow> check n = None"
  by (induction offsets) (auto split: option.splits)

text \<open>A step within the window around a current step.\<close>

definition in_window :: "u64 \<Rightarrow> u64 \<Rightarrow> nat \<Rightarrow> u64 \<Rightarrow> bool" where
  "in_window past future current n \<longleftrightarrow>
     unat n \<le> current + unat (min future MAX_TOTP_WINDOW) \<and> current \<le> unat n + unat (min past MAX_TOTP_WINDOW)"

lemma u64_steps:
  fixes current :: u64
  shows "u64_checked_add current (of_nat k) = Some n \<Longrightarrow> k < 2 ^ 64 \<Longrightarrow> unat n = unat current + k"
    and "u64_checked_sub current (of_nat k) = Some n \<Longrightarrow> k < 2 ^ 64 \<Longrightarrow> unat n + k = unat current"
proof -
  assume add: "u64_checked_add current (of_nat k) = Some n" "k < 2 ^ 64"
  then have "unat current + k < 2 ^ 64" "n = current + of_nat k"
    by (auto simp: u64_checked_add_of_nat split: if_splits)
  with add(2) show "unat n = unat current + k" by (simp add: unat_add_lem [THEN iffD1] unat_of_nat)
next
  assume sub: "u64_checked_sub current (of_nat k) = Some n" "k < 2 ^ 64"
  then have "of_nat k \<le> current" "n = current - of_nat k" by (auto simp: u64_checked_sub_def split: if_splits)
  with sub(2) show "unat n + k = unat current"
    by (simp add: unat_sub word_le_nat_alt unat_of_nat)
qed

lemma step_reached:
  fixes current n :: u64
  assumes "unat n \<noteq> unat current"
  shows "unat current < unat n \<Longrightarrow> u64_checked_add current (of_nat (unat n - unat current)) = Some n"
    and "unat n < unat current \<Longrightarrow> u64_checked_sub current (of_nat (unat current - unat n)) = Some n"
proof -
  assume less: "unat current < unat n"
  have k: "unat n - unat current < 2 ^ 64" "unat current + (unat n - unat current) < 2 ^ 64"
    using less unat_u64_bound [of n] by simp_all
  have "current + of_nat (unat n - unat current) = n" using less by (simp add: of_nat_diff)
  with k(2) show "u64_checked_add current (of_nat (unat n - unat current)) = Some n"
    unfolding u64_checked_add_of_nat [OF k(1)] by simp
next
  assume less: "unat n < unat current"
  have "unat current - unat n < 2 ^ 64" using unat_u64_bound [of current] by simp
  then have "of_nat (unat current - unat n) \<le> current" by (simp add: word_le_nat_alt unat_of_nat)
  with less show "u64_checked_sub current (of_nat (unat current - unat n)) = Some n"
    by (simp add: u64_checked_sub_def of_nat_diff)
qed

text \<open>The order of the checks: the current step, then ahead, then behind.\<close>

lemma steps_scan:
  fixes cur :: u64
  assumes all_same: "\<forall>m k. check m = Some k \<longrightarrow> k = m" and small: "ahead < 2 ^ 64" "behind < 2 ^ 64"
    and res: "res = (case check cur of
        Some n \<Rightarrow> Some n
      | None \<Rightarrow> (case first_step (u64_checked_add cur) check [1..<Suc ahead] of
                 Some n \<Rightarrow> Some n
               | None \<Rightarrow> first_step (u64_checked_sub cur) check [1..<Suc behind]))"
  shows "res = Some n \<Longrightarrow> unat n \<le> unat cur + ahead \<and> unat cur \<le> unat n + behind \<and> check n = Some n"
    and "res = None \<Longrightarrow> unat n \<le> unat cur + ahead \<Longrightarrow> unat cur \<le> unat n + behind \<Longrightarrow> check n = None"
proof -
  have same: "\<And>m k. check m = Some k \<Longrightarrow> k = m" using all_same by blast
  let ?future = "first_step (u64_checked_add cur) check [1..<Suc ahead]"
  let ?past = "first_step (u64_checked_sub cur) check [1..<Suc behind]"
  {
    assume "res = Some n"
    then consider "check cur = Some n" | "?future = Some n" | "?past = Some n"
      using res by (cases "check cur"; cases ?future) simp_all
    then show "unat n \<le> unat cur + ahead \<and> unat cur \<le> unat n + behind \<and> check n = Some n"
    proof cases
      case 1
      with same [OF 1] show ?thesis by simp
    next
      case 2
      from first_step_Some [OF 2 same] obtain k where k: "1 \<le> k" "k \<le> ahead"
        "u64_checked_add cur (of_nat k) = Some n" "check n = Some n" by fastforce
      with u64_steps(1) [OF k(3)] small show ?thesis by simp
    next
      case 3
      from first_step_Some [OF 3 same] obtain k where k: "1 \<le> k" "k \<le> behind"
        "u64_checked_sub cur (of_nat k) = Some n" "check n = Some n" by fastforce
      with u64_steps(2) [OF k(3)] small show ?thesis by simp
    qed
  next
    assume "res = None" and near: "unat n \<le> unat cur + ahead" "unat cur \<le> unat n + behind"
    then have none: "check cur = None" "?future = None" "?past = None"
      using res by (cases "check cur"; cases ?future; simp)+
    consider "n = cur" | "unat cur < unat n" | "unat n < unat cur" by (metis linorder_neqE_nat word_unat_eq_iff)
    then show "check n = None"
    proof cases
      case 2
      with near have k: "unat n - unat cur \<in> set [1..<Suc ahead]" by auto
      show ?thesis by (rule first_step_None [OF none(2) k step_reached(1)]) (use 2 in simp_all)
    next
      case 3
      with near have k: "unat cur - unat n \<in> set [1..<Suc behind]" by auto
      show ?thesis by (rule first_step_None [OF none(3) k step_reached(2)]) (use 3 in simp_all)
    qed (use none(1) in simp)
  }
qed

text \<open>
  C34. A TOTP code is accepted exactly when it is the code of a step in the window: the current step,
  at most two steps ahead and at most two behind (or fewer, as configured), and the step reported
  is one the code is right for. No product or sum of the check wraps for the periods and times the
  service passes.
\<close>

theorem totp_accepts_steps_in_window:
  assumes "MIN_OTP_DIGITS \<le> digits" "digits \<le> MAX_TOTP_DIGITS" "0 < period"
    and "decode_secret c secret = Some key" "MIN_OTP_SECRET_BYTES \<le> length key"
    and "0 \<le> now" "nat (now div 1000000000) + 2 * unat period < 2 ^ 64" "trim_text code \<noteq> []"
    and "verify_totp c secret code now \<lparr>tp_length = Some digits, tp_period = Some period,
           tp_past_window = Some past, tp_future_window = Some future, tp_algorithm = algorithm\<rparr> = res"
  shows "case res of
      Some n \<Rightarrow> in_window past future (nat (now div 1000000000) div unat period) n \<and>
        is_code c key digits (totp_hotp algorithm) code n
    | None \<Rightarrow> \<forall>n. in_window past future (nat (now div 1000000000) div unat period) n \<longrightarrow>
        \<not> is_code c key digits (totp_hotp algorithm) code n"
proof -
  define ts where "ts = nat (now div 1000000000)"
  define cur where "cur = (of_int (now div 1000000000) :: u64) div period"
  have "now div 1000000000 = int ts" using assms(6) by (simp add: ts_def pos_imp_zdiv_nonneg_iff)
  moreover have small: "ts + 2 * unat period < 2 ^ 64" using assms(7) by (simp add: ts_def)
  ultimately have cur: "unat cur = ts div unat period"
    by (simp add: cur_def unat_div unat_of_nat)
  let ?ok = "is_code c key digits (totp_hotp algorithm) code"
  let ?check = "check_candidate c key (trim_text code) period digits algorithm"
  let ?future = "first_step (u64_checked_add cur) ?check [1..<Suc (unat (min future MAX_TOTP_WINDOW))]"
  let ?past = "first_step (u64_checked_sub cur) ?check [1..<Suc (unat (min past MAX_TOTP_WINDOW))]"
  have two: "unat (min w MAX_TOTP_WINDOW) \<le> 2" for w by (simp add: min_def word_le_nat_alt)
  have check: "?check n = (if ?ok n then Some n else None)" if "unat n \<le> unat cur + 2" for n
  proof (rule check_candidate_is_code [OF assms(1-3)])
    have "unat n * unat period \<le> (unat cur + 2) * unat period" using that by (rule mult_le_mono1)
    also have "\<dots> \<le> ts + 2 * unat period" by (simp add: cur distrib_right)
    also note small
    finally show "unat n * unat period < 2 ^ 64" .
  qed
  have same: "\<forall>m k. ?check m = Some k \<longrightarrow> k = m" by (auto simp: check_candidate_def Let_def split: if_splits)
  have run: "res = (case ?check cur of Some n \<Rightarrow> Some n | None \<Rightarrow> (case ?future of Some n \<Rightarrow> Some n | None \<Rightarrow> ?past))"
  proof -
    have "\<not> now div 1000000000 < 0" "period \<noteq> 0" "\<not> length key < MIN_OTP_SECRET_BYTES"
      using assms(3,5,6) by (simp_all add: pos_imp_zdiv_neg_iff word_gt_0)
    then show ?thesis unfolding assms(9) [symmetric] cur_def verify_totp_def Let_def
      using assms(1,2,4,8) by (simp only: totp_verify_params.select_convs option.case if_False simp_thms)
  qed
  note scan = steps_scan [OF same _ _ run]
  have sized: "unat (min w MAX_TOTP_WINDOW) < 2 ^ 64" for w using two [of w] by simp
  show ?thesis unfolding ts_def [symmetric] cur [symmetric]
  proof (cases res)
    case (Some n)
    from scan(1) [OF sized sized Some] have n: "in_window past future (unat cur) n" "?check n = Some n"
      by (simp_all add: in_window_def)
    then have "unat n \<le> unat cur + 2" using two [of future] by (simp add: in_window_def)
    with check n(2) have "?ok n" by (metis option.distinct(1))
    with n(1) Some show "case res of Some n \<Rightarrow> in_window past future (unat cur) n \<and> ?ok n
        | None \<Rightarrow> \<forall>n. in_window past future (unat cur) n \<longrightarrow> \<not> ?ok n" by simp
  next
    case None
    have "\<not> ?ok n" if n: "in_window past future (unat cur) n" for n
    proof -
      have "?check n = None" using n unfolding in_window_def by (intro scan(2) [OF sized sized None]) simp_all
      moreover have "unat n \<le> unat cur + 2" using n two [of future] by (simp add: in_window_def)
      ultimately show ?thesis using check by (metis option.distinct(1))
    qed
    with None show "case res of Some n \<Rightarrow> in_window past future (unat cur) n \<and> ?ok n
        | None \<Rightarrow> \<forall>n. in_window past future (unat cur) n \<longrightarrow> \<not> ?ok n" by simp
  qed
qed

theorem totp_accepts_steps_in_window_witness:
  "let key = replicate 16 (CHR ''A''); code = padded 6 (code_number example_otp key 4 6 HotpSha1)
   in case verify_totp example_otp ''key'' code (100 * 1000000000) \<lparr>tp_length = Some 6, tp_period = Some 30,
             tp_past_window = Some 1, tp_future_window = Some 9, tp_algorithm = SHA1\<rparr> of
        Some n \<Rightarrow> in_window 1 9 3 n \<and> is_code example_otp key 6 HotpSha1 code n
      | None \<Rightarrow> False"
proof -
  let ?key = "replicate 16 (CHR ''A'')"
  let ?code = "padded 6 (code_number example_otp ?key 4 6 HotpSha1)"
  let ?res = "verify_totp example_otp ''key'' ?code (100 * 1000000000) \<lparr>tp_length = Some 6, tp_period = Some 30,
    tp_past_window = Some 1, tp_future_window = Some 9, tp_algorithm = SHA1\<rparr>"
  have three: "nat (100 * 1000000000 div 1000000000) div unat (30 :: u64) = 3" by simp
  have "decode_secret example_otp ''key'' = Some ?key" by (simp add: decode_secret_def example_otp_def Let_def)
  moreover have "trim_text ?code \<noteq> []" using padded_digits [of 6] trim_digits by (metis list.size(3) zero_neq_numeral)
  ultimately have "case ?res of Some n \<Rightarrow> in_window 1 9 3 n \<and> is_code example_otp ?key 6 HotpSha1 ?code n
      | None \<Rightarrow> \<forall>n. in_window 1 9 3 n \<longrightarrow> \<not> is_code example_otp ?key 6 HotpSha1 ?code n"
    using totp_accepts_steps_in_window [of 6 30 example_otp "''key''" ?key "100 * 1000000000" ?code 1 9 SHA1 ?res]
    unfolding three totp_hotp.simps by simp
  moreover have "in_window 1 9 3 4" "is_code example_otp ?key 6 HotpSha1 ?code 4"
    using padded_is_code by (simp_all add: in_window_def min_def)
  ultimately show ?thesis by (simp add: Let_def split: option.splits)
qed

subsection \<open>Enrolment\<close>

definition UNRESERVED :: string where
  "UNRESERVED = ''ABCDEFGHIJKLMNOPQRSTUVWXYZabcdefghijklmnopqrstuvwxyz0123456789-_.~''"

definition upper_hex :: "nat \<Rightarrow> char" where
  "upper_hex n = (if n < 10 then char_of (48 + n) else char_of (55 + n))"

definition percent_encode_component :: "string \<Rightarrow> string" where
  "percent_encode_component input =
     concat (map (\<lambda>b. if b \<in> set UNRESERVED then [b]
                     else [CHR ''%'', upper_hex (of_char b div 16), upper_hex (of_char b mod 16)]) input)"

abbreviation MIN_TOTP_URI_PERIOD :: nat where "MIN_TOTP_URI_PERIOD \<equiv> 5"

definition build_totp_uri_with_algorithm ::
  "string \<Rightarrow> string \<Rightarrow> string \<Rightarrow> nat \<Rightarrow> u64 \<Rightarrow> totp_algorithm \<Rightarrow> string option" where
  "build_totp_uri_with_algorithm label issuer secret digits period algorithm =
     (if \<not> (MIN_OTP_DIGITS \<le> digits \<and> digits \<le> MAX_TOTP_DIGITS) \<or> unat period < MIN_TOTP_URI_PERIOD then None
      else Some (''otpauth://totp/'' @ percent_encode_component issuer @ '':'' @ percent_encode_component label
        @ ''?secret='' @ secret @ ''&issuer='' @ percent_encode_component issuer @ ''&algorithm=''
        @ totp_algorithm_as_str algorithm @ ''&digits='' @ dec_str digits @ ''&period='' @ dec_str (unat period)))"

definition build_totp_uri :: "string \<Rightarrow> string \<Rightarrow> string \<Rightarrow> nat \<Rightarrow> u64 \<Rightarrow> string option" where
  "build_totp_uri label issuer secret digits period =
     build_totp_uri_with_algorithm label issuer secret digits period SHA1"

text \<open>An encoded component is made of unreserved characters and percent signs: it ends no field.\<close>

lemma percent_encoded_safe: "set (percent_encode_component s) \<subseteq> insert (CHR ''%'') (set UNRESERVED)"
proof -
  have "\<forall>n \<in> set [0..<16]. upper_hex n \<in> set UNRESERVED" by code_simp
  then have "upper_hex n \<in> set UNRESERVED" if "n < 16" for n using that by simp
  moreover have "(of_char b :: nat) div 16 < 16" for b
    using nat_of_char_less_256 [of b] by (simp add: less_mult_imp_div_less)
  ultimately show ?thesis by (auto simp: percent_encode_component_def)
qed

end
