(* ===== verification/Recovery_Codes.thy ===== *)
theory Recovery_Codes
  imports One_Time_Codes
begin

section \<open>Recovery codes\<close>

text \<open>
  \<^verbatim>\<open>axess-factors/src/recovery_code.rs\<close> with the hex codec of \<^verbatim>\<open>axess-rng/src/hex.rs\<close>: generating a
  set, reading a code as a person types it, and the scan of a set that examines every row and
  spends the first that matches. The keyed hash and Argon2id are parameters.
\<close>

subsection \<open>The hex codec\<close>

datatype hex_error = OddLength | InvalidDigit | WrongLength

definition HEX_DIGITS :: string where
  "HEX_DIGITS = ''0123456789abcdef''"

definition hex_encode :: "bytes \<Rightarrow> string" where
  "hex_encode bs = concat (map (\<lambda>b. [HEX_DIGITS ! (of_char b div 16), HEX_DIGITS ! (of_char b mod 16)]) bs)"

definition nibble :: "char \<Rightarrow> hex_error + nat" where
  "nibble c =
     (let n = of_char c :: nat
      in if 48 \<le> n \<and> n \<le> 57 then Inr (n - 48)
         else if 97 \<le> n \<and> n \<le> 102 then Inr (n - 97 + 10)
         else if 65 \<le> n \<and> n \<le> 70 then Inr (n - 65 + 10)
         else Inl InvalidDigit)"

fun decode_pairs :: "string \<Rightarrow> hex_error + bytes" where
  "decode_pairs (h # l # r) =
     (case nibble h of
        Inl e \<Rightarrow> Inl e
      | Inr a \<Rightarrow> (case nibble l of
                   Inl e \<Rightarrow> Inl e
                 | Inr b \<Rightarrow> (case decode_pairs r of
                              Inl e \<Rightarrow> Inl e
                            | Inr bs \<Rightarrow> Inr (char_of (16 * a + b) # bs))))"
| "decode_pairs _ = Inr []"

text \<open>\<open>n\<close> is the length of the slice to fill.\<close>

definition decode_to_slice :: "string \<Rightarrow> nat \<Rightarrow> hex_error + bytes" where
  "decode_to_slice hex n =
     (if odd (length hex) then Inl OddLength
      else if length hex div 2 \<noteq> n then Inl WrongLength
      else decode_pairs hex)"

definition hex_decode_vec :: "string \<Rightarrow> hex_error + bytes" where
  "hex_decode_vec hex = decode_to_slice hex (length hex div 2)"

lemma nibble_digit: "n < 16 \<Longrightarrow> nibble (HEX_DIGITS ! n) = Inr n"
proof -
  have "\<forall>n \<in> set [0..<16]. nibble (HEX_DIGITS ! n) = Inr n" by code_simp
  then show "n < 16 \<Longrightarrow> nibble (HEX_DIGITS ! n) = Inr n" by simp
qed

lemma length_hex_encode [simp]: "length (hex_encode bs) = 2 * length bs"
  by (induction bs) (simp_all add: hex_encode_def)

lemma decode_pairs_encode: "decode_pairs (hex_encode bs) = Inr bs"
proof (induction bs)
  case (Cons b bs)
  have "(of_char b :: nat) div 16 < 16" using nat_of_char_less_256 [of b] by (simp add: less_mult_imp_div_less)
  with Cons show ?case by (simp add: hex_encode_def nibble_digit)
qed (simp add: hex_encode_def)

lemma hex_decode_encode: "hex_decode_vec (hex_encode bs) = Inr bs"
  "length bs = n \<Longrightarrow> decode_to_slice (hex_encode bs) n = Inr bs"
  by (simp_all add: hex_decode_vec_def decode_to_slice_def decode_pairs_encode)

subsection \<open>Codes and sets\<close>

record recovery_crypto =
  hmac_sha256 :: "bytes \<Rightarrow> bytes \<Rightarrow> bytes"
  argon_verify :: "string \<Rightarrow> string \<Rightarrow> bool"
  argon_hash :: "string \<Rightarrow> byte_rng \<Rightarrow> string \<times> byte_rng"

abbreviation RECOVERY_CODE_LENGTH :: nat where "RECOVERY_CODE_LENGTH \<equiv> 10"
abbreviation MAC_LEN :: nat where "MAC_LEN \<equiv> 32"

text \<open>What is relied on: the length of the tag, and that a draw fills what is asked for.\<close>

definition recovery_laws :: "recovery_crypto \<Rightarrow> bool" where
  "recovery_laws c \<longleftrightarrow> (\<forall>k m. length (hmac_sha256 c k m) = MAC_LEN)"

definition fills_exactly :: "byte_rng \<Rightarrow> bool" where
  "fills_exactly r \<longleftrightarrow> (\<forall>i n. length (fills r i n) = n)"

definition RECOVERY_CODE_ALPHABET :: string where
  "RECOVERY_CODE_ALPHABET = ''ABCDEFGHJKLMNPQRSTUVWXYZ23456789''"

definition KEYED_CODE_PREFIX :: string where
  "KEYED_CODE_PREFIX = ''hmac-sha256:''"

definition KEYED_CODE_DOMAIN :: bytes where
  "KEYED_CODE_DOMAIN = ''axess/recovery-code/v1'' @ [CHR 0x00]"

datatype recovery_code_pepper = RecoveryCodePepper bytes

definition recovery_pepper_new :: "bytes \<Rightarrow> nat + recovery_code_pepper" where
  "recovery_pepper_new bs = (if length bs < 32 then Inl (length bs) else Inr (RecoveryCodePepper bs))"

fun pepper_mac :: "recovery_crypto \<Rightarrow> recovery_code_pepper \<Rightarrow> string \<Rightarrow> bytes" where
  "pepper_mac c (RecoveryCodePepper k) canonical = hmac_sha256 c k (KEYED_CODE_DOMAIN @ canonical)"

definition stored_form :: "recovery_crypto \<Rightarrow> recovery_code_pepper \<Rightarrow> string \<Rightarrow> string" where
  "stored_form c pep canonical = KEYED_CODE_PREFIX @ hex_encode (pepper_mac c pep canonical)"

record stored_recovery_code =
  code_hash :: string
  used_at :: "datetime option"

definition strip_prefix :: "'a list \<Rightarrow> 'a list \<Rightarrow> 'a list option" where
  "strip_prefix p s = (if starts_with p s then Some (drop (length p) s) else None)"

definition keyed_mac :: "stored_recovery_code \<Rightarrow> bytes option" where
  "keyed_mac code =
     (case strip_prefix KEYED_CODE_PREFIX (code_hash code) of
        None \<Rightarrow> None
      | Some rest \<Rightarrow>
          (case decode_to_slice rest MAC_LEN of
             Inl _ \<Rightarrow> Some (replicate MAC_LEN (CHR 0x00))
           | Inr out \<Rightarrow> Some out))"

record recovery_codes_config =
  codes :: "stored_recovery_code list"
  under_previous_pepper_mark :: bool

definition remaining_codes :: "recovery_codes_config \<Rightarrow> nat" where
  "remaining_codes cfg = length (filter (\<lambda>c. used_at c = None) (codes cfg))"

definition needs_slow_verification :: "recovery_codes_config \<Rightarrow> bool" where
  "needs_slow_verification cfg \<longleftrightarrow> (\<exists>c \<in> set (codes cfg). used_at c = None \<and> keyed_mac c = None)"

definition generate_canonical :: "byte_rng \<Rightarrow> string \<times> byte_rng" where
  "generate_canonical r =
     (let (bs, r') = fill_bytes RECOVERY_CODE_LENGTH r
      in (map (\<lambda>b. RECOVERY_CODE_ALPHABET ! (of_char b mod length RECOVERY_CODE_ALPHABET)) bs, r'))"

definition display_form :: "string \<Rightarrow> string" where
  "display_form canonical =
     (let split = RECOVERY_CODE_LENGTH div 2 in take split canonical @ ''-'' @ drop split canonical)"

text \<open>The codes shown and the rows stored, one after the other.\<close>

primrec generate_with ::
  "(string \<Rightarrow> byte_rng \<Rightarrow> string \<times> byte_rng) \<Rightarrow> nat \<Rightarrow> byte_rng \<Rightarrow> (string list \<times> stored_recovery_code list) \<times> byte_rng" where
  "generate_with store 0 r = (([], []), r)"
| "generate_with store (Suc n) r =
     (let (canonical, r1) = generate_canonical r;
          (hash, r2) = store canonical r1;
          ((display, rows), r3) = generate_with store n r2
      in ((display_form canonical # display, \<lparr>code_hash = hash, used_at = None\<rparr> # rows), r3))"

definition generate_recovery_codes ::
  "recovery_crypto \<Rightarrow> nat \<Rightarrow> byte_rng \<Rightarrow> (string list \<times> recovery_codes_config) \<times> byte_rng" where
  "generate_recovery_codes c n r =
     (let ((display, rows), r') = generate_with (argon_hash c) n r
      in ((display, \<lparr>codes = rows, under_previous_pepper_mark = False\<rparr>), r'))"

definition generate_recovery_codes_peppered ::
  "recovery_crypto \<Rightarrow> recovery_code_pepper \<Rightarrow> nat \<Rightarrow> byte_rng \<Rightarrow> (string list \<times> recovery_codes_config) \<times> byte_rng" where
  "generate_recovery_codes_peppered c pep n r =
     (let ((display, rows), r') = generate_with (\<lambda>canonical r. (stored_form c pep canonical, r)) n r
      in ((display, \<lparr>codes = rows, under_previous_pepper_mark = False\<rparr>), r'))"

function strip_code :: "bytes \<Rightarrow> bytes" where
  "strip_code s =
     (if s = [] then []
      else if 0 < white_prefix s then strip_code (drop (white_prefix s) s)
      else if hd s = CHR ''-'' then strip_code (tl s)
      else hd s # strip_code (tl s))"
  by pat_completeness auto
termination
  by (relation "measure length") auto

declare strip_code.simps [simp del]

definition normalize_recovery_code :: "string \<Rightarrow> string" where
  "normalize_recovery_code raw = map ascii_upper (strip_code raw)"

subsection \<open>Verifying\<close>

record match_state =
  m_found :: bool
  m_via_previous :: bool
  m_index :: nat
  m_examined :: nat

text \<open>One row: both comparisons run, the first hit is kept.\<close>

definition examine ::
  "recovery_crypto \<Rightarrow> string \<Rightarrow> bytes option \<Rightarrow> bytes option \<Rightarrow> match_state \<Rightarrow> nat \<times> stored_recovery_code \<Rightarrow> match_state" where
  "examine c candidate candidate_mac previous_mac st row =
     (let (i, code) = row;
          unspent = (used_at code = None);
          (equal, cur_equal, prev_equal) =
            (case keyed_mac code of
               Some stored \<Rightarrow>
                 (let cur = (case candidate_mac of Some m \<Rightarrow> m = stored | None \<Rightarrow> False);
                      prev = (case previous_mac of Some m \<Rightarrow> m = stored | None \<Rightarrow> False)
                  in (cur \<or> prev, cur, prev))
             | None \<Rightarrow> if unspent then (argon_verify c candidate (code_hash code), False, False) else (False, False, False));
          hit = (equal \<and> unspent);
          take_it = (hit \<and> \<not> m_found st)
      in \<lparr>m_found = m_found st \<or> hit,
          m_via_previous = (if take_it then prev_equal \<and> \<not> cur_equal else m_via_previous st),
          m_index = (if take_it then i else m_index st),
          m_examined = m_examined st + 1\<rparr>)"

definition find_match ::
  "recovery_crypto \<Rightarrow> recovery_codes_config \<Rightarrow> string \<Rightarrow> bytes option \<Rightarrow> bytes option \<Rightarrow> nat option \<times> nat \<times> bool" where
  "find_match c cfg candidate candidate_mac previous_mac =
     (let st = foldl (examine c candidate candidate_mac previous_mac)
                 \<lparr>m_found = False, m_via_previous = False, m_index = 0, m_examined = 0\<rparr>
                 (zip [0..<length (codes cfg)] (codes cfg))
      in (if m_found st then Some (m_index st) else None, m_examined st, m_via_previous st))"

record recovery_match =
  rm_config :: recovery_codes_config
  matched_previous_pepper :: bool

definition verify_recovery_code_rotating ::
  "recovery_crypto \<Rightarrow> recovery_codes_config \<Rightarrow> string \<Rightarrow> datetime \<Rightarrow> recovery_code_pepper option \<Rightarrow>
     recovery_code_pepper option \<Rightarrow> recovery_match option" where
  "verify_recovery_code_rotating c cfg submitted now pep previous =
     (let candidate = normalize_recovery_code submitted
      in if length candidate \<noteq> RECOVERY_CODE_LENGTH \<or> \<not> list_all (\<lambda>b. b \<in> set RECOVERY_CODE_ALPHABET) candidate then None
         else (case find_match c cfg candidate (map_option (\<lambda>p. pepper_mac c p candidate) pep)
                      (map_option (\<lambda>p. pepper_mac c p candidate) previous) of
                 (None, _, _) \<Rightarrow> None
               | (Some i, _, via_previous) \<Rightarrow>
                   Some \<lparr>rm_config = cfg\<lparr>codes := (codes cfg)[i := (codes cfg ! i)\<lparr>used_at := Some now\<rparr>]\<rparr>,
                         matched_previous_pepper = via_previous\<rparr>))"

definition verify_recovery_code ::
  "recovery_crypto \<Rightarrow> recovery_codes_config \<Rightarrow> string \<Rightarrow> datetime \<Rightarrow> recovery_code_pepper option \<Rightarrow> recovery_codes_config option" where
  "verify_recovery_code c cfg submitted now pep =
     map_option rm_config (verify_recovery_code_rotating c cfg submitted now pep None)"

lemma position_first: "position P xs = Some i \<Longrightarrow> j < i \<Longrightarrow> \<not> P (xs ! j)"
  by (induction xs arbitrary: i j) (auto simp: nth_Cons split: if_splits nat.splits)

text \<open>Whether a row is an unspent one the candidate is right for.\<close>

definition row_matches :: "recovery_crypto \<Rightarrow> string \<Rightarrow> bytes option \<Rightarrow> bytes option \<Rightarrow> stored_recovery_code \<Rightarrow> bool" where
  "row_matches c candidate candidate_mac previous_mac code \<longleftrightarrow> used_at code = None \<and>
     (case keyed_mac code of
        Some stored \<Rightarrow> candidate_mac = Some stored \<or> previous_mac = Some stored
      | None \<Rightarrow> argon_verify c candidate (code_hash code))"

lemma examine_row:
  "m_found (examine c cand cm pm st (i, code)) = (m_found st \<or> row_matches c cand cm pm code)"
  "m_index (examine c cand cm pm st (i, code)) =
     (if row_matches c cand cm pm code \<and> \<not> m_found st then i else m_index st)"
  "m_examined (examine c cand cm pm st (i, code)) = m_examined st + 1"
  by (auto simp: examine_def row_matches_def Let_def split: option.splits)

lemma examine_all:
  "m_found (foldl (examine c cand cm pm) st (zip [k..<k + length xs] xs)) =
     (m_found st \<or> position (row_matches c cand cm pm) xs \<noteq> None) \<and>
   m_index (foldl (examine c cand cm pm) st (zip [k..<k + length xs] xs)) =
     (if m_found st then m_index st
      else (case position (row_matches c cand cm pm) xs of Some i \<Rightarrow> k + i | None \<Rightarrow> m_index st)) \<and>
   m_examined (foldl (examine c cand cm pm) st (zip [k..<k + length xs] xs)) = m_examined st + length xs"
proof (induction xs arbitrary: st k)
  case (Cons x xs)
  have "zip [k..<k + length (x # xs)] (x # xs) = (k, x) # zip [Suc k..<Suc k + length xs] xs"
    by (simp add: upt_conv_Cons del: upt_Suc)
  with Cons.IH [of "examine c cand cm pm st (k, x)" "Suc k"] show ?case
    by (auto simp: examine_row split: option.splits)
qed simp

text \<open>Every row is examined, and the row found is the first one that matches.\<close>

lemma find_match_position:
  "fst (find_match c cfg cand cm pm) = position (row_matches c cand cm pm) (codes cfg)"
  "fst (snd (find_match c cfg cand cm pm)) = length (codes cfg)"
proof -
  let ?st = "foldl (examine c cand cm pm) \<lparr>m_found = False, m_via_previous = False, m_index = 0, m_examined = 0\<rparr>
    (zip [0..<length (codes cfg)] (codes cfg))"
  have "m_found ?st = (position (row_matches c cand cm pm) (codes cfg) \<noteq> None)"
    "m_index ?st = (case position (row_matches c cand cm pm) (codes cfg) of Some i \<Rightarrow> i | None \<Rightarrow> 0)"
    "m_examined ?st = length (codes cfg)"
    using examine_all [of c cand cm pm "\<lparr>m_found = False, m_via_previous = False, m_index = 0, m_examined = 0\<rparr>" 0 "codes cfg"]
    by (simp_all only: add_0 match_state.select_convs simp_thms if_False)
  then show "fst (find_match c cfg cand cm pm) = position (row_matches c cand cm pm) (codes cfg)"
    "fst (snd (find_match c cfg cand cm pm)) = length (codes cfg)"
    by (simp_all only: find_match_def Let_def fst_conv snd_conv) (cases "position (row_matches c cand cm pm) (codes cfg)"; simp)
qed

lemma verify_recovery_spec:
  "verify_recovery_code_rotating c cfg submitted now pep previous = Some m \<Longrightarrow>
     \<exists>i < length (codes cfg).
       position (row_matches c (normalize_recovery_code submitted)
         (map_option (\<lambda>p. pepper_mac c p (normalize_recovery_code submitted)) pep)
         (map_option (\<lambda>p. pepper_mac c p (normalize_recovery_code submitted)) previous)) (codes cfg) = Some i \<and>
       rm_config m = cfg\<lparr>codes := (codes cfg)[i := (codes cfg ! i)\<lparr>used_at := Some now\<rparr>]\<rparr>"
  using find_match_position(1) [of c cfg "normalize_recovery_code submitted"
      "map_option (\<lambda>p. pepper_mac c p (normalize_recovery_code submitted)) pep"
      "map_option (\<lambda>p. pepper_mac c p (normalize_recovery_code submitted)) previous"]
  by (auto simp: verify_recovery_code_rotating_def Let_def split: if_splits prod.splits option.splits dest: position_Some)

lemma length_filter_update:
  assumes "i < length xs" "P (xs ! i)" "\<not> P y"
  shows "length (filter P (xs[i := y])) + 1 = length (filter P xs)"
  using assms(1,2)
proof (induction xs arbitrary: i)
  case (Cons x xs)
  with assms(3) show ?case by (cases i) auto
qed simp

text \<open>
  C35. A recovery code is spent by its use. A verification that succeeds marks exactly one row, the
  first unspent one the code is right for under the current or the previous pepper (or by its
  Argon2id hash), and leaves one usable code less: a set of \<open>n\<close> codes lets nobody in more than \<open>n\<close>
  times.
\<close>

theorem recovery_code_spends_one_row:
  assumes "verify_recovery_code_rotating c cfg submitted now pep previous = Some m"
  shows "remaining_codes (rm_config m) + 1 = remaining_codes cfg \<and>
    (\<exists>i < length (codes cfg). used_at (codes cfg ! i) = None \<and>
       codes (rm_config m) = (codes cfg)[i := (codes cfg ! i)\<lparr>used_at := Some now\<rparr>] \<and>
       row_matches c (normalize_recovery_code submitted)
         (map_option (\<lambda>p. pepper_mac c p (normalize_recovery_code submitted)) pep)
         (map_option (\<lambda>p. pepper_mac c p (normalize_recovery_code submitted)) previous) (codes cfg ! i) \<and>
       (\<forall>j < i. \<not> row_matches c (normalize_recovery_code submitted)
         (map_option (\<lambda>p. pepper_mac c p (normalize_recovery_code submitted)) pep)
         (map_option (\<lambda>p. pepper_mac c p (normalize_recovery_code submitted)) previous) (codes cfg ! j)))"
proof -
  let ?P = "row_matches c (normalize_recovery_code submitted)
    (map_option (\<lambda>p. pepper_mac c p (normalize_recovery_code submitted)) pep)
    (map_option (\<lambda>p. pepper_mac c p (normalize_recovery_code submitted)) previous)"
  obtain i where i: "i < length (codes cfg)" "position ?P (codes cfg) = Some i"
    "rm_config m = cfg\<lparr>codes := (codes cfg)[i := (codes cfg ! i)\<lparr>used_at := Some now\<rparr>]\<rparr>"
    using verify_recovery_spec [OF assms] by blast
  have hit: "?P (codes cfg ! i)" using position_Some [OF i(2)] by blast
  then have unspent: "used_at (codes cfg ! i) = None" by (simp add: row_matches_def)
  have first: "\<not> ?P (codes cfg ! j)" if "j < i" for j using position_first [OF i(2) that] .
  have "remaining_codes (rm_config m) + 1 = remaining_codes cfg"
    unfolding remaining_codes_def i(3) using length_filter_update [OF i(1), of "\<lambda>c. used_at c = None"] unspent by simp
  with i(1,3) hit unspent first show ?thesis by auto
qed

subsection \<open>The codes shown to the user\<close>

lemma alphabet_char:
  assumes "b \<in> set RECOVERY_CODE_ALPHABET"
  shows "ascii_upper b = b" "b \<noteq> CHR ''-''" "\<not> is_whitespace b" "\<not> white2 b x" "\<not> white3 b x y"
proof -
  have "\<forall>b \<in> set RECOVERY_CODE_ALPHABET. ascii_upper b = b \<and> b \<noteq> CHR ''-'' \<and> \<not> is_whitespace b \<and> (of_char b :: nat) < 0x80"
    by code_simp
  from bspec [OF this assms] have b: "ascii_upper b = b" "b \<noteq> CHR ''-''" "\<not> is_whitespace b" "(of_char b :: nat) < 0x80"
    by blast+
  then show "ascii_upper b = b" "b \<noteq> CHR ''-''" "\<not> is_whitespace b" by blast+
  have "(of_char b :: nat) \<noteq> 0xC2" "(of_char b :: nat) \<noteq> 0xE1" "(of_char b :: nat) \<noteq> 0xE2" "(of_char b :: nat) \<noteq> 0xE3"
    using b(4) by linarith+
  then show "\<not> white2 b x" "\<not> white3 b x y" unfolding white2_def white3_def Let_def by blast+
qed

lemma white_prefix_head: "\<not> is_whitespace b \<Longrightarrow> (\<And>x. \<not> white2 b x) \<Longrightarrow> (\<And>x y. \<not> white3 b x y) \<Longrightarrow> white_prefix (b # s) = 0"
  by (cases "b # s" rule: white_prefix.cases) simp_all

lemma strip_alphabet:
  "list_all (\<lambda>b. b \<in> set RECOVERY_CODE_ALPHABET) s \<Longrightarrow> strip_code (s @ t) = s @ strip_code t"
proof (induction s)
  case (Cons b s)
  then have b: "b \<in> set RECOVERY_CODE_ALPHABET" by simp
  then have "white_prefix (b # s @ t) = 0" using alphabet_char [OF b] by (intro white_prefix_head)
  with Cons alphabet_char(2) [OF b] show ?case by (simp add: strip_code.simps [of "b # s @ t"])
qed simp

lemma strip_dash: "strip_code (CHR ''-'' # t) = strip_code t"
proof -
  have "white_prefix (CHR ''-'' # t) = 0"
    by (rule white_prefix_head) (simp_all add: is_whitespace_def white2_def white3_def Let_def)
  then show ?thesis by (simp add: strip_code.simps [of "CHR ''-'' # t"])
qed

lemma normalize_display:
  assumes "list_all (\<lambda>b. b \<in> set RECOVERY_CODE_ALPHABET) canonical"
  shows "normalize_recovery_code (display_form canonical) = canonical"
proof -
  let ?n = "5 :: nat"
  have split: "list_all (\<lambda>b. b \<in> set RECOVERY_CODE_ALPHABET) (take ?n canonical)"
    "list_all (\<lambda>b. b \<in> set RECOVERY_CODE_ALPHABET) (drop ?n canonical)"
    using assms by (auto simp: list_all_iff dest: in_set_takeD in_set_dropD)
  have "strip_code (display_form canonical) = take ?n canonical @ strip_code (drop ?n canonical @ [])"
    by (simp add: display_form_def Let_def strip_alphabet [OF split(1)] strip_dash)
  also have "\<dots> = canonical" unfolding strip_alphabet [OF split(2)] by (simp add: strip_code.simps)
  finally have "strip_code (display_form canonical) = canonical" .
  moreover have "map ascii_upper canonical = canonical"
    using assms by (auto simp: list_all_iff alphabet_char(1) intro: map_idI)
  ultimately show ?thesis by (simp add: normalize_recovery_code_def)
qed

lemma generate_canonical_props:
  assumes "fills_exactly r" "generate_canonical r = (canonical, r')"
  shows "length canonical = RECOVERY_CODE_LENGTH" "list_all (\<lambda>b. b \<in> set RECOVERY_CODE_ALPHABET) canonical" "fills_exactly r'"
proof -
  have "0 < length RECOVERY_CODE_ALPHABET" by (simp add: RECOVERY_CODE_ALPHABET_def)
  with assms show "length canonical = RECOVERY_CODE_LENGTH" "list_all (\<lambda>b. b \<in> set RECOVERY_CODE_ALPHABET) canonical" "fills_exactly r'"
    by (auto simp: generate_canonical_def fill_bytes_def fills_exactly_def list_all_iff)
qed

lemma generated_rows:
  assumes "fills_exactly r" "generate_with (\<lambda>canonical r. (stored_form c pep canonical, r)) n r = ((display, rows), r')"
    and "d \<in> set display"
  shows "\<exists>canonical row. d = display_form canonical \<and> length canonical = RECOVERY_CODE_LENGTH \<and>
    list_all (\<lambda>b. b \<in> set RECOVERY_CODE_ALPHABET) canonical \<and>
    row \<in> set rows \<and> row = \<lparr>code_hash = stored_form c pep canonical, used_at = None\<rparr>"
  using assms
proof (induction n arbitrary: r display rows r')
  case (Suc n)
  obtain canonical r1 where g: "generate_canonical r = (canonical, r1)" by fastforce
  obtain ds rs r2 where rest: "generate_with (\<lambda>canonical r. (stored_form c pep canonical, r)) n r1 = ((ds, rs), r2)"
    by (metis prod.collapse)
  from Suc.prems(2) g rest have out: "display = display_form canonical # ds"
    "rows = \<lparr>code_hash = stored_form c pep canonical, used_at = None\<rparr> # rs" by auto
  note props = generate_canonical_props [OF Suc.prems(1) g]
  show ?case
  proof (cases "d \<in> set ds")
    case True
    from Suc.IH [OF props(3) rest True] show ?thesis unfolding out by (metis list.set_intros(2))
  next
    case False
    with Suc.prems(3) out props show ?thesis by auto
  qed
qed simp

lemma keyed_mac_stored:
  "recovery_laws c \<Longrightarrow> keyed_mac \<lparr>code_hash = stored_form c pep s, used_at = u\<rparr> = Some (pepper_mac c pep s)"
  by (cases pep)
     (simp add: keyed_mac_def stored_form_def strip_prefix_def starts_with_def recovery_laws_def hex_decode_encode(2))

text \<open>
  C36. Every code of a fresh set works. Each code shown when a set is generated under a pepper, as it
  is shown (with its dash) and checked under that pepper, current or previous, is accepted, and
  the row spent had not been used.
\<close>

theorem generated_recovery_code_verifies:
  assumes "recovery_laws c" "fills_exactly r"
    and "generate_recovery_codes_peppered c pep n r = ((display, cfg), r')" "d \<in> set display"
    and "current = Some pep \<or> previous = Some pep"
  shows "\<exists>m. verify_recovery_code_rotating c cfg d now current previous = Some m"
proof -
  obtain rows where gen: "generate_with (\<lambda>canonical r. (stored_form c pep canonical, r)) n r = ((display, rows), r')"
    "cfg = \<lparr>codes = rows, under_previous_pepper_mark = False\<rparr>"
    using assms(3) by (auto simp: generate_recovery_codes_peppered_def Let_def split: prod.splits)
  obtain canonical row where d: "d = display_form canonical" "length canonical = RECOVERY_CODE_LENGTH"
    "list_all (\<lambda>b. b \<in> set RECOVERY_CODE_ALPHABET) canonical" "row \<in> set (codes cfg)"
    "row = \<lparr>code_hash = stored_form c pep canonical, used_at = None\<rparr>"
    using generated_rows [OF assms(2) gen(1) assms(4)] gen(2) by auto
  let ?mac = "map_option (\<lambda>p. pepper_mac c p canonical)"
  have "row_matches c canonical (?mac current) (?mac previous) row"
    unfolding row_matches_def d(5) keyed_mac_stored [OF assms(1)] using assms(5) by auto
  with d(4) have "position (row_matches c canonical (?mac current) (?mac previous)) (codes cfg) \<noteq> None"
    by (auto simp: position_None)
  then obtain i where "fst (find_match c cfg canonical (?mac current) (?mac previous)) = Some i"
    unfolding find_match_position(1) by blast
  then show ?thesis
    using d(2,3) normalize_display [OF d(3)]
    by (auto simp: verify_recovery_code_rotating_def d(1) Let_def split: prod.splits)
qed

definition example_recovery :: recovery_crypto where
  "example_recovery =
     \<lparr>hmac_sha256 = (\<lambda>k m. take 32 (rev m @ k @ replicate 32 (CHR 0x00))), argon_verify = (\<lambda>c h. c = h),
      argon_hash = (\<lambda>s r. (s, r))\<rparr>"

definition example_draws :: byte_rng where
  "example_draws = \<lparr>fills = (\<lambda>i n. replicate n (char_of i)), asked = 0\<rparr>"

lemma example_recovery_laws: "recovery_laws example_recovery" "fills_exactly example_draws"
  by (simp_all add: recovery_laws_def example_recovery_def fills_exactly_def example_draws_def del: take_append)

theorem generated_recovery_code_verifies_witness:
  "let pep = RecoveryCodePepper (replicate 32 (CHR ''p''));
       ((display, cfg), r') = generate_recovery_codes_peppered example_recovery pep 2 example_draws
   in length display = 2 \<and> (\<exists>m. verify_recovery_code_rotating example_recovery cfg (hd display) 7 (Some pep) None = Some m)"
proof -
  let ?pep = "RecoveryCodePepper (replicate 32 (CHR ''p''))"
  obtain display cfg r' where gen: "generate_recovery_codes_peppered example_recovery ?pep 2 example_draws = ((display, cfg), r')"
    by (metis prod.collapse)
  then have two: "length display = 2"
    by (auto simp: generate_recovery_codes_peppered_def numeral_2_eq_2 Let_def split: prod.splits)
  then have "hd display \<in> set display" by (intro hd_in_set) auto
  from generated_recovery_code_verifies [OF example_recovery_laws gen this, of "Some ?pep" None 7] two gen
  show ?thesis by (simp add: Let_def)
qed

theorem recovery_code_spends_one_row_witness:
  "let cfg = \<lparr>codes = [\<lparr>code_hash = ''ABCDEFGHJK'', used_at = None\<rparr>, \<lparr>code_hash = ''x'', used_at = Some 3\<rparr>],
              under_previous_pepper_mark = False\<rparr>
   in case verify_recovery_code_rotating example_recovery cfg ''ABCDE-FGHJK'' 7 None None of
        Some m \<Rightarrow> remaining_codes (rm_config m) + 1 = remaining_codes cfg
      | None \<Rightarrow> False"
proof -
  let ?cfg = "\<lparr>codes = [\<lparr>code_hash = ''ABCDEFGHJK'', used_at = None\<rparr>, \<lparr>code_hash = ''x'', used_at = Some 3\<rparr>],
    under_previous_pepper_mark = False\<rparr>"
  have canonical: "list_all (\<lambda>b. b \<in> set RECOVERY_CODE_ALPHABET) ''ABCDEFGHJK''" by code_simp
  have "display_form ''ABCDEFGHJK'' = ''ABCDE-FGHJK''" by (simp add: display_form_def)
  with normalize_display [OF canonical] have norm: "normalize_recovery_code ''ABCDE-FGHJK'' = ''ABCDEFGHJK''" by simp
  have "keyed_mac \<lparr>code_hash = ''ABCDEFGHJK'', used_at = None\<rparr> = None" by code_simp
  then have "row_matches example_recovery ''ABCDEFGHJK'' None None \<lparr>code_hash = ''ABCDEFGHJK'', used_at = None\<rparr>"
    by (simp add: row_matches_def example_recovery_def)
  then have "fst (find_match example_recovery ?cfg ''ABCDEFGHJK'' None None) = Some 0"
    unfolding find_match_position(1) by simp
  then obtain via where "find_match example_recovery ?cfg ''ABCDEFGHJK'' None None = (Some 0, via)"
    by (metis prod.collapse)
  moreover have "\<not> length ''ABCDEFGHJK'' \<noteq> RECOVERY_CODE_LENGTH" by simp
  ultimately obtain m where "verify_recovery_code_rotating example_recovery ?cfg ''ABCDE-FGHJK'' 7 None None = Some m"
    using canonical unfolding verify_recovery_code_rotating_def norm Let_def by (cases via) auto
  with recovery_code_spends_one_row [OF this] show ?thesis unfolding Let_def by simp
qed

end
