(* ===== verification/Credential_Check.thy ===== *)
theory Credential_Check
  imports Factors Recovery_Codes
begin

section \<open>Checking a credential against its factor\<close>

text \<open>
  \<^verbatim>\<open>axess-core/src/authn/service/verification.rs\<close>: the check of a password, a TOTP, HOTP or e-mailed
  code and a recovery code against the stored factor, with the successor of the factor the caller
  has to store, the failure counters, and the drawing of e-mailed codes. A passkey is a type
  parameter: its check runs in the WebAuthn library.
\<close>

subsection \<open>Factor configurations\<close>

record password_rules =
  min_length :: nat
  require_uppercase :: bool
  require_lowercase :: bool
  require_digit :: bool
  require_special :: bool
  history_count :: nat
  breached_check :: bool

record password_config =
  password_hash :: string
  password_rules_of :: password_rules
  password_id :: "string option"

record email_otp_config =
  otp_email :: string
  code_length :: u8
  ttl_secs :: u32
  pending_hash :: "string option"
  pending_until :: "datetime option"
  e_attempt_count :: u8
  e_max_attempts :: u8

definition email_otp_config_default :: email_otp_config where
  "email_otp_config_default =
     \<lparr>otp_email = [], code_length = 8, ttl_secs = 300, pending_hash = None, pending_until = None,
      e_attempt_count = 0, e_max_attempts = 5\<rparr>"

record ldap_bind_factor_config =
  bind_dn :: "string option"

record 'p fido2_config =
  fido2_credentials :: "'p list"

datatype 'p factor_config =
    PasswordConfig password_config
  | TotpConfig totp_config
  | HotpConfig hotp_config
  | EmailOtpConfig email_otp_config
  | Fido2Config "'p fido2_config"
  | LdapBindConfig ldap_bind_factor_config
  | RecoveryCodesConfig recovery_codes_config

fun config_kind :: "'p factor_config \<Rightarrow> factor_kind" where
  "config_kind (PasswordConfig _) = Password"
| "config_kind (TotpConfig _) = Totp"
| "config_kind (HotpConfig _) = Hotp"
| "config_kind (EmailOtpConfig _) = EmailOtp"
| "config_kind (Fido2Config _) = Fido2"
| "config_kind (LdapBindConfig _) = LdapBind"
| "config_kind (RecoveryCodesConfig _) = RecoveryCode"

subsection \<open>Failure counters\<close>

abbreviation DEFAULT_MAX_OTP_ATTEMPTS :: u8 where "DEFAULT_MAX_OTP_ATTEMPTS \<equiv> 5"
abbreviation MAX_OTP_CODE_BYTES :: nat where "MAX_OTP_CODE_BYTES \<equiv> 64"
abbreviation MAX_PASSWORD_BYTES :: nat where "MAX_PASSWORD_BYTES \<equiv> 1024"

definition effective_max_attempts :: "u8 \<Rightarrow> u8" where
  "effective_max_attempts configured = (if configured = 0 then DEFAULT_MAX_OTP_ATTEMPTS else configured)"

definition apply_hotp_failure :: "time_limits \<Rightarrow> hotp_config \<Rightarrow> datetime \<Rightarrow> hotp_config" where
  "apply_hotp_failure lim prior now =
     (if is_locked_at prior now then prior
      else (let next = prior\<lparr>h_attempt_count := u8_saturating_add (h_attempt_count prior) 1\<rparr>
            in if effective_max_attempts (h_max_attempts prior) \<le> h_attempt_count next then lock_at lim now next else next))"

definition apply_email_otp_failure :: "email_otp_config \<Rightarrow> email_otp_config" where
  "apply_email_otp_failure prior =
     (if effective_max_attempts (e_max_attempts prior) \<le> e_attempt_count prior
      then prior\<lparr>pending_hash := None, e_attempt_count := 0\<rparr>
      else prior\<lparr>e_attempt_count := u8_saturating_add (e_attempt_count prior) 1\<rparr>)"

subsection \<open>The checks\<close>

record recovery_peppers =
  current_pepper :: "recovery_code_pepper option"
  previous_pepper :: "recovery_code_pepper option"

datatype 'p verify_outcome =
    Fail
  | FailWithUpdate "'p factor_config"
  | Pass
  | PassWithUpdate "'p factor_config"

text \<open>The libraries the checks call.\<close>

record check_libs =
  otp_lib :: otp_crypto
  recovery_lib :: recovery_crypto
  time_lib :: time_limits

definition verify_password_factor :: "check_libs \<Rightarrow> string \<Rightarrow> password_config \<Rightarrow> 'p verify_outcome" where
  "verify_password_factor L pwd cfg =
     (if MAX_PASSWORD_BYTES < length pwd then Fail
      else if argon_verify (recovery_lib L) pwd (password_hash cfg) then Pass else Fail)"

fun totp_algorithm_of :: "otp_algorithm \<Rightarrow> totp_algorithm" where
  "totp_algorithm_of OtpSha1 = SHA1"
| "totp_algorithm_of OtpSha256 = SHA256"
| "totp_algorithm_of OtpSha512 = SHA512"

fun hotp_algorithm_of :: "otp_algorithm \<Rightarrow> hotp_algorithm" where
  "hotp_algorithm_of OtpSha1 = HotpSha1"
| "hotp_algorithm_of OtpSha256 = HotpSha256"
| "hotp_algorithm_of OtpSha512 = HotpSha512"

definition verify_totp_factor :: "check_libs \<Rightarrow> string \<Rightarrow> totp_config \<Rightarrow> datetime \<Rightarrow> 'p verify_outcome" where
  "verify_totp_factor L code cfg now =
     (if MAX_OTP_CODE_BYTES < length code then Fail
      else (case plain_secret (t_secret cfg) of
              None \<Rightarrow> Fail
            | Some secret \<Rightarrow>
                (case verify_totp (otp_lib L) secret code now
                        \<lparr>tp_length = Some (unat (t_digits cfg)), tp_period = Some (ucast (period_secs cfg)),
                         tp_past_window = Some (ucast (t_past_window cfg)),
                         tp_future_window = Some (ucast (t_future_window cfg)),
                         tp_algorithm = totp_algorithm_of (t_algorithm cfg)\<rparr> of
                   None \<Rightarrow> Fail
                 | Some step \<Rightarrow>
                     if (case last_step cfg of Some ls \<Rightarrow> step \<le> ls | None \<Rightarrow> False) then Fail
                     else PassWithUpdate (TotpConfig (cfg\<lparr>last_step := Some step\<rparr>)))))"

definition verify_hotp_factor :: "check_libs \<Rightarrow> string \<Rightarrow> hotp_config \<Rightarrow> datetime \<Rightarrow> 'p verify_outcome" where
  "verify_hotp_factor L code cfg now =
     (if MAX_OTP_CODE_BYTES < length code then Fail
      else if is_locked_at cfg now then Fail
      else if effective_max_attempts (h_max_attempts cfg) \<le> h_attempt_count cfg
      then FailWithUpdate (HotpConfig (apply_hotp_failure (time_lib L) cfg now))
      else (case plain_secret (h_secret cfg) of
              None \<Rightarrow> Fail
            | Some secret \<Rightarrow>
                (case verify_hotp (otp_lib L) secret code (h_counter cfg) (unat (h_digits cfg))
                        (ucast (lookahead_window cfg)) (hotp_algorithm_of (h_algorithm cfg)) of
                   None \<Rightarrow> FailWithUpdate (HotpConfig (apply_hotp_failure (time_lib L) cfg now))
                 | Some counter \<Rightarrow>
                     PassWithUpdate (HotpConfig (clear_lock (cfg\<lparr>h_counter := u64_saturating_add counter 1\<rparr>))))))"

definition verify_email_otp_factor :: "check_libs \<Rightarrow> string \<Rightarrow> email_otp_config \<Rightarrow> datetime \<Rightarrow> 'p verify_outcome" where
  "verify_email_otp_factor L code cfg now =
     (if MAX_OTP_CODE_BYTES < length code then Fail
      else if \<not> list_all is_digit code then Fail
      else (case pending_hash cfg of
              None \<Rightarrow> Fail
            | Some hash \<Rightarrow>
                (case pending_until cfg of
                   None \<Rightarrow> Fail
                 | Some until \<Rightarrow>
                     if \<not> now \<le> until then Fail
                     else if effective_max_attempts (e_max_attempts cfg) \<le> e_attempt_count cfg
                     then FailWithUpdate (EmailOtpConfig (cfg\<lparr>pending_hash := None, e_attempt_count := 0\<rparr>))
                     else if \<not> argon_verify (recovery_lib L) code hash
                     then FailWithUpdate (EmailOtpConfig (cfg\<lparr>e_attempt_count := u8_saturating_add (e_attempt_count cfg) 1\<rparr>))
                     else PassWithUpdate (EmailOtpConfig
                            (cfg\<lparr>pending_hash := None, pending_until := None, e_attempt_count := 0\<rparr>)))))"

definition verify_recovery_code_factor ::
  "check_libs \<Rightarrow> string \<Rightarrow> recovery_codes_config \<Rightarrow> datetime \<Rightarrow> recovery_peppers \<Rightarrow> 'p verify_outcome" where
  "verify_recovery_code_factor L code cfg now peppers =
     (if MAX_OTP_CODE_BYTES < length code then Fail
      else (case verify_recovery_code_rotating (recovery_lib L) cfg code now (current_pepper peppers) (previous_pepper peppers) of
              Some m \<Rightarrow>
                PassWithUpdate (RecoveryCodesConfig ((rm_config m)\<lparr>under_previous_pepper_mark :=
                  under_previous_pepper_mark (rm_config m) \<or> matched_previous_pepper m\<rparr>))
            | None \<Rightarrow> Fail))"

definition verify_credential ::
  "check_libs \<Rightarrow> factor_credential \<Rightarrow> 'p factor_config \<Rightarrow> factor_kind \<Rightarrow> datetime \<Rightarrow> recovery_peppers \<Rightarrow> 'p verify_outcome" where
  "verify_credential L credential config kind now peppers =
     (case credential of
        PasswordCredential pwd \<Rightarrow>
          (case config of
             PasswordConfig cfg \<Rightarrow> if kind = Password then verify_password_factor L pwd cfg else Fail
           | _ \<Rightarrow> Fail)
      | OtpCode code \<Rightarrow>
          (case config of
             TotpConfig cfg \<Rightarrow> if kind = Totp then verify_totp_factor L code cfg now else Fail
           | HotpConfig cfg \<Rightarrow> if kind = Hotp then verify_hotp_factor L code cfg now else Fail
           | EmailOtpConfig cfg \<Rightarrow> if kind = EmailOtp then verify_email_otp_factor L code cfg now else Fail
           | _ \<Rightarrow> Fail)
      | RecoveryCodeCredential code \<Rightarrow>
          (case config of
             RecoveryCodesConfig cfg \<Rightarrow>
               if kind = RecoveryCode then verify_recovery_code_factor L code cfg now peppers else Fail
           | _ \<Rightarrow> Fail)
      | Fido2Assertion _ \<Rightarrow> Fail)"

fun runs_kdf :: "factor_credential \<Rightarrow> 'p factor_config \<Rightarrow> bool" where
  "runs_kdf (PasswordCredential _) (PasswordConfig _) = True"
| "runs_kdf (OtpCode _) (EmailOtpConfig _) = True"
| "runs_kdf (RecoveryCodeCredential _) (RecoveryCodesConfig cfg) = needs_slow_verification cfg"
| "runs_kdf _ _ = False"

subsection \<open>What a check leaves\<close>

lemma verify_credential_kind:
  "verify_credential L cred config kind now peppers = PassWithUpdate config' \<Longrightarrow> config_kind config' = kind \<and> config_kind config = kind"
  "verify_credential L cred config kind now peppers = FailWithUpdate config' \<Longrightarrow> config_kind config' = kind \<and> config_kind config = kind"
  by (auto simp: verify_credential_def verify_password_factor_def verify_totp_factor_def verify_hotp_factor_def
      verify_email_otp_factor_def verify_recovery_code_factor_def
      split: factor_credential.splits factor_config.splits if_splits option.splits)

text \<open>What a check stores; a plain refusal or acceptance stores nothing.\<close>

fun stored_after :: "'p factor_config \<Rightarrow> 'p verify_outcome \<Rightarrow> 'p factor_config" where
  "stored_after config (FailWithUpdate config') = config'"
| "stored_after config (PassWithUpdate config') = config'"
| "stored_after config _ = config"

text \<open>Credentials checked one after the other, each against what the one before left.\<close>

fun run_checks ::
  "check_libs \<Rightarrow> recovery_peppers \<Rightarrow> factor_kind \<Rightarrow> (factor_credential \<times> datetime) list \<Rightarrow> 'p factor_config \<Rightarrow>
     'p verify_outcome list \<times> 'p factor_config" where
  "run_checks L peppers kind [] config = ([], config)"
| "run_checks L peppers kind ((cred, now) # rest) config =
     (let outcome = verify_credential L cred config kind now peppers;
          (outcomes, final) = run_checks L peppers kind rest (stored_after config outcome)
      in (outcome # outcomes, final))"

lemma run_checks_fst [simp]:
  "fst (run_checks L peppers kind ((cred, now) # rest) config) =
     verify_credential L cred config kind now peppers #
       fst (run_checks L peppers kind rest (stored_after config (verify_credential L cred config kind now peppers)))"
  by (simp add: Let_def split: prod.splits)

lemma run_checks_snd [simp]:
  "snd (run_checks L peppers kind ((cred, now) # rest) config) =
     snd (run_checks L peppers kind rest (stored_after config (verify_credential L cred config kind now peppers)))"
  by (simp add: Let_def split: prod.splits)

declare run_checks.simps(2) [simp del]

lemma run_checks_length: "length (fst (run_checks L peppers kind attempts config)) = length attempts"
  by (induction L peppers kind attempts config rule: run_checks.induct) simp_all

fun accepted :: "'p verify_outcome \<Rightarrow> bool" where
  "accepted Pass = True"
| "accepted (PassWithUpdate _) = True"
| "accepted _ = False"

fun counted :: "'p verify_outcome \<Rightarrow> bool" where
  "counted (FailWithUpdate _) = True"
| "counted _ = False"

lemma effective_max_positive: "0 < unat (effective_max_attempts m)"
  by (auto simp: effective_max_attempts_def unat_gt_0)

lemma u8_saturating_add_1: "unat (u8_saturating_add n 1) = min (unat n + 1) 255"
proof (cases "unat n + 1 < 2 ^ 8")
  case True
  then show ?thesis using unat_add_lem [of n 1] by (auto simp: u8_saturating_add_def)
next
  case False
  then show ?thesis using unsigned_less [where ?'a = nat, of n]
    by (simp add: u8_saturating_add_def unsigned_minus_1_eq_mask mask_eq_exp_minus_1)
qed

lemma u8_below: "unat (n :: u8) \<le> 255"
  using unsigned_less [where ?'a = nat, of n] by simp

subsection \<open>Wrong HOTP codes\<close>

lemma lock_at_until:
  assumes "int HOTP_LOCK_MAX \<le> max_delta lim" "min_utc lim \<le> now" "now + int HOTP_LOCK_BASE \<le> max_utc lim"
  shows "\<exists>until. locked_until (h_throttle (lock_at lim now cfg)) = Some until \<and> now + int HOTP_LOCK_BASE \<le> until"
proof -
  let ?d = "lock_duration_after (lockouts (h_throttle cfg))"
  have d: "HOTP_LOCK_BASE \<le> ?d" "?d \<le> HOTP_LOCK_MAX" by (simp_all add: lock_duration_spec)
  then have "from_std lim ?d = Some (int ?d)" using assms(1) by (simp add: from_std_def)
  moreover have "min_utc lim \<le> now + int ?d" using assms(2) by simp
  ultimately show ?thesis using assms(3) d(1) by (simp add: lock_at_def Let_def checked_add_signed_def)
qed

text \<open>A factor that takes no more codes before the instant \<open>limit\<close>, or has \<open>n\<close> left.\<close>

definition hotp_left :: "hotp_config \<Rightarrow> nat" where
  "hotp_left cfg = unat (effective_max_attempts (h_max_attempts cfg)) - unat (h_attempt_count cfg)"

definition locked_through :: "hotp_config \<Rightarrow> datetime \<Rightarrow> bool" where
  "locked_through cfg limit \<longleftrightarrow> (\<exists>until. locked_until (h_throttle cfg) = Some until \<and> limit \<le> until)"

lemma apply_hotp_failure_step:
  assumes lim: "int HOTP_LOCK_MAX \<le> max_delta lim" "min_utc lim \<le> now" "now + int HOTP_LOCK_BASE \<le> max_utc lim"
    and open_at: "\<not> is_locked_at cfg now" and limit: "limit \<le> now + int HOTP_LOCK_BASE"
  shows "locked_through (apply_hotp_failure lim cfg now) limit \<or>
     (Suc (hotp_left (apply_hotp_failure lim cfg now)) \<le> hotp_left cfg \<and> 0 < hotp_left (apply_hotp_failure lim cfg now))"
proof -
  let ?next = "cfg\<lparr>h_attempt_count := u8_saturating_add (h_attempt_count cfg) 1\<rparr>"
  show ?thesis
  proof (cases "effective_max_attempts (h_max_attempts cfg) \<le> u8_saturating_add (h_attempt_count cfg) 1")
    case True
    then have "apply_hotp_failure lim cfg now = lock_at lim now ?next" using open_at by (simp add: apply_hotp_failure_def)
    with lock_at_until [OF lim, of ?next] limit show ?thesis unfolding locked_through_def by fastforce
  next
    case False
    then have "apply_hotp_failure lim cfg now = ?next" using open_at by (simp add: apply_hotp_failure_def)
    moreover have "unat (u8_saturating_add (h_attempt_count cfg) 1) < unat (effective_max_attempts (h_max_attempts cfg))"
      using False by (simp add: word_le_nat_alt)
    ultimately show ?thesis
      using u8_below [of "effective_max_attempts (h_max_attempts cfg)"] by (auto simp: hotp_left_def u8_saturating_add_1)
  qed
qed

lemma locked_through_refuses:
  assumes "locked_through cfg limit" "now < limit"
  shows "verify_credential L cred (HotpConfig cfg) Hotp now peppers = Fail"
  using assms
  by (auto simp: locked_through_def verify_credential_def verify_hotp_factor_def is_locked_at_def split: factor_credential.splits)

lemma locked_run:
  "locked_through cfg limit \<Longrightarrow> \<forall>(cred, now) \<in> set attempts. now < limit \<Longrightarrow>
     filter counted (fst (run_checks L peppers Hotp attempts (HotpConfig cfg :: 'p factor_config))) = []"
proof (induction attempts)
  case (Cons a attempts)
  obtain cred now where a: "a = (cred, now)" by fastforce
  with Cons.prems have "verify_credential L cred (HotpConfig cfg :: 'p factor_config) Hotp now peppers = Fail"
    by (intro locked_through_refuses [of _ limit]) auto
  with Cons a show ?case by simp
qed simp


definition example_check_libs :: check_libs where
  "example_check_libs =
     \<lparr>otp_lib = example_otp, recovery_lib = example_recovery,
      time_lib = \<lparr>min_utc = 0, max_utc = 10 ^ 18, max_delta = 10 ^ 16\<rparr>\<rparr>"

definition no_peppers :: recovery_peppers where
  "no_peppers = \<lparr>current_pepper = None, previous_pepper = None\<rparr>"


subsection \<open>E-mailed codes\<close>

text \<open>The codes that are still compared with the pending one.\<close>

fun email_left :: "'p factor_config \<Rightarrow> nat" where
  "email_left (EmailOtpConfig cfg) =
     (if pending_hash cfg = None then 0
      else unat (effective_max_attempts (e_max_attempts cfg)) - unat (e_attempt_count cfg))"
| "email_left _ = 0"

lemma email_check:
  fixes config :: "'p factor_config"
  assumes out_def: "out = verify_credential L cred config EmailOtp now peppers"
  shows "accepted out \<Longrightarrow> 0 < email_left config \<and> email_left (stored_after config out) = 0"
    and "counted out \<Longrightarrow> email_left (stored_after config out) \<le> email_left config - 1"
    and "\<not> counted out \<Longrightarrow> email_left (stored_after config out) \<le> email_left config"
proof -
  have "out = Fail" if "\<nexists>cfg. config = EmailOtpConfig cfg"
    using that by (auto simp: out_def verify_credential_def split: factor_credential.splits factor_config.splits)
  moreover have "(accepted out \<longrightarrow> 0 < email_left config \<and> email_left (stored_after config out) = 0) \<and>
      (counted out \<longrightarrow> email_left (stored_after config out) \<le> email_left config - 1) \<and>
      (\<not> counted out \<longrightarrow> email_left (stored_after config out) \<le> email_left config)"
    if cfg: "config = EmailOtpConfig cfg" for cfg
  proof (cases "out")
    case (FailWithUpdate c)
    then have "c = EmailOtpConfig (cfg\<lparr>pending_hash := None, e_attempt_count := 0\<rparr>) \<or>
      c = EmailOtpConfig (cfg\<lparr>e_attempt_count := u8_saturating_add (e_attempt_count cfg) 1\<rparr>) \<and>
        unat (e_attempt_count cfg) < unat (effective_max_attempts (e_max_attempts cfg))"
      by (auto simp: out_def verify_credential_def verify_email_otp_factor_def cfg word_le_nat_alt
          split: factor_credential.splits if_splits option.splits)
    with FailWithUpdate cfg show ?thesis
      using u8_below [of "effective_max_attempts (e_max_attempts cfg)"] by (auto simp: u8_saturating_add_1)
  qed (auto simp: out_def verify_credential_def verify_email_otp_factor_def cfg word_le_nat_alt
      split: factor_credential.splits if_splits option.splits)
  ultimately show "accepted out \<Longrightarrow> 0 < email_left config \<and> email_left (stored_after config out) = 0"
    and "counted out \<Longrightarrow> email_left (stored_after config out) \<le> email_left config - 1"
    and "\<not> counted out \<Longrightarrow> email_left (stored_after config out) \<le> email_left config"
    by (cases "\<exists>cfg. config = EmailOtpConfig cfg"; auto)+
qed

lemma email_run:
  fixes config :: "'p factor_config"
  shows "email_left (snd (run_checks L peppers EmailOtp attempts config))
      \<le> email_left config - length (filter counted (fst (run_checks L peppers EmailOtp attempts config))) \<and>
    (list_ex accepted (fst (run_checks L peppers EmailOtp attempts config)) \<longrightarrow>
      0 < email_left config \<and> email_left (snd (run_checks L peppers EmailOtp attempts config)) = 0)"
proof (induction attempts arbitrary: config)
  case (Cons a attempts)
  obtain cred now where a: "a = (cred, now)" by fastforce
  define out where "out = verify_credential L cred config EmailOtp now peppers"
  note check = email_check [OF out_def]
  have run: "fst (run_checks L peppers EmailOtp (a # attempts) config) =
      out # fst (run_checks L peppers EmailOtp attempts (stored_after config out))"
    "snd (run_checks L peppers EmailOtp (a # attempts) config) = snd (run_checks L peppers EmailOtp attempts (stored_after config out))"
    by (simp_all add: a out_def)
  show ?case
  proof (cases "counted out")
    case True
    then have "\<not> accepted out" by (cases out) simp_all
    with Cons [of "stored_after config out"] check(2) [OF True] True show ?thesis unfolding run by auto
  next
    case False
    with Cons [of "stored_after config out"] check(1) check(3) [OF False] show ?thesis unfolding run
      by (cases "accepted out") auto
  qed
qed simp

text \<open>
  C38. An e-mailed code is spent: once it was accepted, or once as many wrong codes were presented as
  its limit allows (five when the stored limit is zero), no code at all is accepted until a new one
  is issued, whatever is presented and whenever.
\<close>

theorem email_code_is_spent:
  assumes "run_checks L peppers EmailOtp before (EmailOtpConfig cfg :: 'p factor_config) = (outcomes, config)"
    and "list_ex accepted outcomes \<or>
      unat (effective_max_attempts (e_max_attempts cfg)) \<le> unat (e_attempt_count cfg) + length (filter counted outcomes)"
  shows "\<not> list_ex accepted (fst (run_checks L peppers EmailOtp later config))"
proof
  assume "list_ex accepted (fst (run_checks L peppers EmailOtp later config))"
  then have "0 < email_left config" using email_run by blast
  moreover have "email_left config = 0"
    using assms email_run [of L peppers before "EmailOtpConfig cfg :: 'p factor_config"]
    by (auto split: if_splits)
  ultimately show False by simp
qed

theorem email_code_is_spent_witness:
  "let cfg = email_otp_config_default\<lparr>pending_hash := Some ''123456'', pending_until := Some 100, e_max_attempts := 1\<rparr>;
       (outcomes, config) = run_checks example_check_libs no_peppers EmailOtp [(OtpCode ''000000'', 5)]
                              (EmailOtpConfig cfg :: unit factor_config)
   in length (filter counted outcomes) = 1 \<and>
      \<not> list_ex accepted (fst (run_checks example_check_libs no_peppers EmailOtp [(OtpCode ''123456'', 6)] config))"
proof -
  let ?cfg = "email_otp_config_default\<lparr>pending_hash := Some ''123456'', pending_until := Some 100, e_max_attempts := 1\<rparr>"
  obtain outcomes config where run: "run_checks example_check_libs no_peppers EmailOtp [(OtpCode ''000000'', 5)]
      (EmailOtpConfig ?cfg :: unit factor_config) = (outcomes, config)" by fastforce
  have "verify_credential example_check_libs (OtpCode ''000000'') (EmailOtpConfig ?cfg :: unit factor_config) EmailOtp 5 no_peppers =
      FailWithUpdate (EmailOtpConfig (?cfg\<lparr>e_attempt_count := 1\<rparr>))"
    by (simp add: verify_credential_def verify_email_otp_factor_def email_otp_config_default_def is_digit_def
        effective_max_attempts_def example_check_libs_def example_recovery_def u8_saturating_add_def)
  then have "fst (run_checks example_check_libs no_peppers EmailOtp [(OtpCode ''000000'', 5)]
      (EmailOtpConfig ?cfg :: unit factor_config)) = [FailWithUpdate (EmailOtpConfig (?cfg\<lparr>e_attempt_count := 1\<rparr>))]"
    by (simp only: run_checks_fst run_checks.simps(1) fst_conv)
  then have one: "length (filter counted outcomes) = 1" unfolding run fst_conv by simp
  have "unat (effective_max_attempts (e_max_attempts ?cfg)) = 1" by (simp add: effective_max_attempts_def)
  with email_code_is_spent [OF run, of "[(OtpCode ''123456'', 6)]"] run one show ?thesis by (simp add: Let_def)
qed

subsection \<open>Drawing a code\<close>

definition u64_from_le_bytes :: "bytes \<Rightarrow> u64" where
  "u64_from_le_bytes bs = of_nat (foldr (\<lambda>b n. of_char b + 256 * n) bs 0)"

definition max_fair :: "nat \<Rightarrow> u64" where
  "max_fair width = - 1 - (- 1 mod 10 ^ width)"

text \<open>What one drawn value gives: its last digits, or nothing above the last full bucket.\<close>

definition digits_of_draw :: "nat \<Rightarrow> u64 \<Rightarrow> string option" where
  "digits_of_draw width draw =
     (if draw < max_fair width then Some (zero_pad width (unat (draw mod 10 ^ width))) else None)"

partial_function (option) random_digits :: "nat \<Rightarrow> byte_rng \<Rightarrow> (string \<times> byte_rng) option" where
  "random_digits width r =
     (case digits_of_draw width (u64_from_le_bytes (fst (fill_bytes 8 r))) of
        Some digits \<Rightarrow> Some (digits, snd (fill_bytes 8 r))
      | None \<Rightarrow> random_digits width (snd (fill_bytes 8 r)))"

abbreviation CHUNK :: nat where "CHUNK \<equiv> 18"

function otp_chunks :: "nat \<Rightarrow> string \<Rightarrow> byte_rng \<Rightarrow> (string \<times> byte_rng) option" where
  "otp_chunks remaining code r =
     (if remaining = 0 then Some (code, r)
      else (case random_digits (min remaining CHUNK) r of
              None \<Rightarrow> None
            | Some (digits, r') \<Rightarrow> otp_chunks (remaining - min remaining CHUNK) (code @ digits) r'))"
  by pat_completeness auto
termination
  by (relation "measure (\<lambda>(remaining, _, _). remaining)") auto

declare otp_chunks.simps [simp del]

definition generate_otp_code :: "nat \<Rightarrow> byte_rng \<Rightarrow> (string \<times> byte_rng) option" where
  "generate_otp_code n r = otp_chunks n [] r"

lemma ten_power_u64:
  assumes "width \<le> CHUNK"
  shows "(10 :: nat) ^ width \<le> 10 ^ 18" "unat ((10 :: u64) ^ width) = 10 ^ width"
proof -
  show le: "(10 :: nat) ^ width \<le> 10 ^ 18" using assms by (intro power_increasing) simp_all
  then have "(10 :: nat) ^ width < 2 ^ 64" by (rule le_less_trans) simp
  then have "unat (of_nat (10 ^ width) :: u64) = 10 ^ width" by (simp only: unat_of_nat) simp
  then show "unat ((10 :: u64) ^ width) = 10 ^ width" by simp
qed

lemma max_fair_unat:
  assumes "width \<le> CHUNK"
  shows "unat (max_fair width) = (2 ^ 64 - 1) div 10 ^ width * 10 ^ width"
proof -
  let ?m = "10 ^ width :: u64"
  have top: "unat (- 1 :: u64) = 2 ^ 64 - 1" by (simp add: unsigned_minus_1_eq_mask mask_eq_exp_minus_1)
  have "- 1 mod ?m \<le> - 1" by simp
  then have "unat (max_fair width) = 2 ^ 64 - 1 - (2 ^ 64 - 1) mod 10 ^ width"
    unfolding max_fair_def by (simp only: unat_sub top unat_mod ten_power_u64(2) [OF assms])
  then show ?thesis by (simp only: minus_mod_eq_div_mult)
qed

lemma digits_of_draw_digits:
  assumes "0 < width" "width \<le> CHUNK" "digits_of_draw width draw = Some s"
  shows "s = padded width (unat draw mod 10 ^ width)"
  using assms ten_power_u64(2) [OF assms(2)]
  by (auto simp: digits_of_draw_def unat_mod intro!: zero_pad_padded split: if_splits)

lemma digits_of_draw_Some:
  assumes "width \<le> CHUNK" "unat draw < 2 ^ 64 - 10 ^ 18"
  shows "digits_of_draw width draw \<noteq> None"
proof -
  let ?m = "10 ^ width :: nat"
  have "(2 ^ 64 - 1) mod ?m < ?m" by simp
  then have "2 ^ 64 - ?m \<le> (2 ^ 64 - 1) div ?m * ?m" unfolding minus_mod_eq_div_mult [symmetric] by linarith
  with ten_power_u64(1) [OF assms(1)] assms(2) have "unat draw < (2 ^ 64 - 1) div ?m * ?m" by linarith
  then show ?thesis unfolding max_fair_unat [OF assms(1), symmetric] by (simp add: digits_of_draw_def word_less_nat_alt)
qed

text \<open>The source gives a fair draw again and again.\<close>

definition keeps_drawing :: "byte_rng \<Rightarrow> bool" where
  "keeps_drawing r \<longleftrightarrow> (\<forall>k. \<exists>j \<ge> k. unat (u64_from_le_bytes (fills r j 8)) < 2 ^ 64 - 10 ^ 18)"

lemma keeps_drawing_fill: "keeps_drawing r \<Longrightarrow> keeps_drawing (snd (fill_bytes n r))"
  by (simp add: keeps_drawing_def fill_bytes_def)

lemma random_digits_returns:
  assumes "0 < width" "width \<le> CHUNK" "keeps_drawing r"
  shows "\<exists>s r'. random_digits width r = Some (s, r') \<and> length s = width \<and> list_all is_digit s \<and> keeps_drawing r'"
proof -
  obtain j where j: "asked r \<le> j" "unat (u64_from_le_bytes (fills r j 8)) < 2 ^ 64 - 10 ^ 18"
    using assms(3) unfolding keeps_drawing_def by blast
  define k where "k = j - asked r"
  have "unat (u64_from_le_bytes (fills r (asked r + k) 8)) < 2 ^ 64 - 10 ^ 18" using j by (simp add: k_def)
  then show ?thesis using assms(3)
  proof (induction k arbitrary: r)
    case 0
    then obtain s where s: "digits_of_draw width (u64_from_le_bytes (fst (fill_bytes 8 r))) = Some s"
      using digits_of_draw_Some [OF assms(2)] by (auto simp: fill_bytes_def)
    then have "random_digits width r = Some (s, snd (fill_bytes 8 r))" by (subst random_digits.simps) simp
    with digits_of_draw_digits [OF assms(1,2) s] 0 show ?case
      by (simp add: padded_digits keeps_drawing_fill)
  next
    case (Suc k)
    let ?r = "snd (fill_bytes 8 r)"
    show ?case
    proof (cases "digits_of_draw width (u64_from_le_bytes (fst (fill_bytes 8 r)))")
      case None
      then have "random_digits width r = random_digits width ?r" by (subst random_digits.simps) simp
      moreover have "unat (u64_from_le_bytes (fills ?r (asked ?r + k) 8)) < 2 ^ 64 - 10 ^ 18"
        using Suc.prems(1) by (simp add: fill_bytes_def)
      ultimately show ?thesis using Suc.IH [OF _ keeps_drawing_fill [OF Suc.prems(2)]] by simp
    next
      case (Some s)
      then have "random_digits width r = Some (s, ?r)" by (subst random_digits.simps) simp
      with digits_of_draw_digits [OF assms(1,2) Some] Suc.prems(2) show ?thesis
        by (simp add: padded_digits keeps_drawing_fill)
    qed
  qed
qed

text \<open>
  C39. Drawing a code ends: with a random source that keeps giving a value below the last ten to the
  eighteenth (a uniform source does, all but surely), the rejection loop of every chunk ends and
  the code has exactly the digits asked for, whatever its length.
\<close>

theorem generate_otp_code_returns:
  assumes "keeps_drawing r"
  shows "\<exists>code r'. generate_otp_code n r = Some (code, r') \<and> length code = n \<and> list_all is_digit code"
proof -
  have "\<exists>code' r'. otp_chunks n code r = Some (code', r') \<and> length code' = length code + n \<and> list_all is_digit code'"
    if "keeps_drawing r" "list_all is_digit code" for code
    using that
  proof (induction n code r rule: otp_chunks.induct)
    case (1 remaining code r)
    show ?case
    proof (cases "remaining = 0")
      case True
      with 1 show ?thesis by (simp add: otp_chunks.simps)
    next
      case False
      then obtain s r' where s: "random_digits (min remaining CHUNK) r = Some (s, r')" "length s = min remaining CHUNK"
        "list_all is_digit s" "keeps_drawing r'"
        using random_digits_returns [of "min remaining CHUNK" r] 1(2) by auto
      then have "otp_chunks remaining code r = otp_chunks (remaining - min remaining CHUNK) (code @ s) r'"
        using False by (subst otp_chunks.simps) simp
      with 1(1) [OF False s(1) refl s(4)] 1(3) s(2,3) show ?thesis by fastforce
    qed
  qed
  from this [OF assms, of "[]"] show ?thesis by (simp add: generate_otp_code_def)
qed

theorem generate_otp_code_returns_witness:
  "\<exists>code r'. generate_otp_code 20 \<lparr>fills = (\<lambda>i n. replicate n (if even i then CHR 0xFF else CHR 0x00)), asked = 0\<rparr> =
     Some (code, r') \<and> length code = 20"
proof -
  let ?r = "\<lparr>fills = (\<lambda>i n. replicate n (if even i then CHR 0xFF else CHR 0x00)), asked = 0\<rparr>"
  have small: "unat (u64_from_le_bytes (replicate 8 (CHR 0x00))) < 2 ^ 64 - 10 ^ 18"
  proof -
    have "foldr (\<lambda>b n. of_char b + 256 * n) (replicate k (CHR 0x00)) (0 :: nat) = 0" for k by (induction k) simp_all
    then show ?thesis by (simp add: u64_from_le_bytes_def)
  qed
  have "keeps_drawing ?r" unfolding keeps_drawing_def
  proof
    fix k
    show "\<exists>j \<ge> k. unat (u64_from_le_bytes (fills ?r j 8)) < 2 ^ 64 - 10 ^ 18"
      using small by (intro exI [of _ "2 * k + 1"]) simp
  qed
  from generate_otp_code_returns [OF this, of 20] show ?thesis by blast
qed

lemma card_residue:
  fixes m :: nat
  assumes "d < m"
  shows "card {n. n < q * m \<and> n mod m = d} = q"
proof -
  have "bij_betw (\<lambda>k. k * m + d) {..<q} {n. n < q * m \<and> n mod m = d}"
  proof (rule bij_betw_byWitness [where f' = "\<lambda>n. n div m"])
    have "k * m + d < q * m" if "k < q" for k
    proof -
      have "Suc k * m \<le> q * m" using that by (intro mult_le_mono1) simp
      with assms show ?thesis by simp
    qed
    then show "(\<lambda>k. k * m + d) ` {..<q} \<subseteq> {n. n < q * m \<and> n mod m = d}" using assms by auto
    show "(\<lambda>n. n div m) ` {n. n < q * m \<and> n mod m = d} \<subseteq> {..<q}" by (auto intro: less_mult_imp_div_less)
  qed (use assms in auto)
  from bij_betw_same_card [OF this] show ?thesis by simp
qed

text \<open>
  C40. The digits are drawn without bias: of the 64-bit values a draw can have, exactly as many give one
  code of the width as give any other, so a uniform value makes every code equally likely.
\<close>

theorem random_digits_unbiased:
  assumes "0 < width" "width \<le> CHUNK" "length code = width" "list_all is_digit code"
  shows "card {draw. digits_of_draw width draw = Some code} = (2 ^ 64 - 1) div 10 ^ width"
proof -
  let ?m = "10 ^ width :: nat" and ?d = "dec_value code"
  let ?q = "(2 ^ 64 - 1) div ?m"
  have d: "?d < ?m" using dec_value_bound [OF assms(4)] assms(3) by simp
  have code: "code = padded width ?d" using digits_padded [OF assms(4)] assms(3) by simp
  have same: "digits_of_draw width draw = Some code \<longleftrightarrow> unat draw < ?q * ?m \<and> unat draw mod ?m = ?d" for draw
  proof -
    have fair: "digits_of_draw width draw \<noteq> None \<longleftrightarrow> unat draw < ?q * ?m"
      unfolding max_fair_unat [OF assms(2), symmetric] by (simp add: digits_of_draw_def word_less_nat_alt)
    have "padded width (unat draw mod ?m) = code \<longleftrightarrow> unat draw mod ?m = ?d"
      using code padded_value [of "unat draw mod ?m" width] by auto
    with fair digits_of_draw_digits [OF assms(1,2)] show ?thesis by (metis not_None_eq)
  qed
  have all: "unat ` {draw :: u64. digits_of_draw width draw = Some code} = {n. n < ?q * ?m \<and> n mod ?m = ?d}"
  proof
    show "{n. n < ?q * ?m \<and> n mod ?m = ?d} \<subseteq> unat ` {draw :: u64. digits_of_draw width draw = Some code}"
    proof
      fix n assume n: "n \<in> {n. n < ?q * ?m \<and> n mod ?m = ?d}"
      have "?q * ?m \<le> 2 ^ 64 - 1" by (rule div_times_less_eq_dividend)
      with n have "n < 2 ^ 64" by (simp only: mem_Collect_eq) linarith
      then have "unat (of_nat n :: u64) = n" by (simp add: unat_of_nat)
      with n same show "n \<in> unat ` {draw :: u64. digits_of_draw width draw = Some code}"
        by (intro image_eqI [of _ _ "of_nat n"]) auto
    qed
  qed (auto simp: same)
  have "inj_on unat {draw :: u64. digits_of_draw width draw = Some code}"
    by (auto intro: inj_onI simp: word_unat_eq_iff)
  from card_image [OF this, unfolded all card_residue [OF d]] show ?thesis by (rule sym)
qed

theorem random_digits_unbiased_witness:
  "card {draw. digits_of_draw 6 draw = Some ''042817''} = card {draw. digits_of_draw 6 draw = Some ''999999''}"
  using random_digits_unbiased [of 6 "''042817''"] random_digits_unbiased [of 6 "''999999''"]
  by (simp add: is_digit_def)

end
