(* ===== verification/Spec2Isabelle.thy ===== *)
theory Spec2Isabelle
  imports Session_Requests Refresh_Guarantees Credential_Check
begin

text \<open>
  A verification development of axess, the authentication and session library under
  \<^verbatim>\<open>src/\<close>. Paths below are relative to \<^verbatim>\<open>src/axess-core/src/\<close> unless another crate is named.

  \<^bold>\<open>The parts and how they interact.\<close> A request arrives with a cookie. The session layer verifies the
  cookie, loads the stored row, asks the registry whether the session still counts, checks the
  client binding, and hands the request a handle on its session. The handler drives the
  authentication state machine through that handle: it begins a login, checks one credential per
  step against the stored factor, and advances. When the response leaves, the layer merges what
  concurrent requests wrote, writes or rotates the row, moves the registry entry and sets the
  cookie. Beside the cookie a login can hold a refresh token, which is exchanged for a new session
  and rotated at each use.

  \<^bold>\<open>Conventions.\<close> A Rust struct is a record, an enum a datatype, a fallible call a sum whose left
  side is the error, and an integer whose width matters a word. Strings are lists of UTF-8 bytes.
  An asynchronous trait is a record of operations on a state (\<^verbatim>\<open>Effects\<close>); the concurrency of the
  program is an explicit list of what other requests do to the state, and which calls fail,
  between any two calls of the operation studied (\<open>disturbance\<close>, \<open>world\<close>, \<open>disturbed\<close>), so a claim
  "under any interleaving and failures" quantifies over that list. Code that is not in the
  repository (HMAC, HKDF, SHA-256, Argon2id, base32, the JSON serializer, the limits of the time
  library, the source of random bytes) is a parameter, with the documented behaviour a property
  needs as a named hypothesis (\<open>otp_laws\<close>, \<open>recovery_laws\<close>, \<open>fills_exactly\<close>, \<open>keeps_drawing\<close> and those
  of the cookie and refresh theories), each shown to hold of a concrete function by a witness.

  \<^bold>\<open>The theories.\<close>
  \<^item> \<^verbatim>\<open>Axess_Prelude\<close>: the types and time arithmetic, sorted association lists for \<^verbatim>\<open>BTreeMap\<close>, shared
    lemmas and the collections of simplification rules. \<^verbatim>\<open>Effects\<close>: calls, interference, and the
    rules that carry a fact through disturbed calls.
  \<^item> \<^verbatim>\<open>Factors\<close> (\<^verbatim>\<open>authn/factor.rs\<close>) and \<^verbatim>\<open>Auth_State\<close> (\<^verbatim>\<open>session/data.rs\<close>, \<^verbatim>\<open>session/data/wire.rs\<close>): the factor
    kinds and the authentication state machine. A login ends authenticated only after one accepted
    factor per step, a step-up keeps the session it steps up, an impersonation is never lost, and
    a stored state reads back as written.
  \<^item> \<^verbatim>\<open>Session_Data\<close> (\<^verbatim>\<open>session/data.rs\<close>, \<^verbatim>\<open>session/data/merge.rs\<close>): the payload and the three-way merge of
    concurrent writes, key by key, and what a rotation refuses to take over.
  \<^item> \<^verbatim>\<open>Kv_Store\<close> (\<^verbatim>\<open>store/memory.rs\<close>), \<^verbatim>\<open>Session_Store\<close> (\<^verbatim>\<open>session/store.rs\<close>, \<^verbatim>\<open>session/store/cas.rs\<close>),
    \<^verbatim>\<open>Session_Registry\<close> (\<^verbatim>\<open>session/store/memory_registry.rs\<close>) and \<^verbatim>\<open>Session_Services\<close>: the stores. The
    locales \<open>conditional_store\<close>, \<open>session_store_contract\<close>, \<open>registry_contract\<close> and \<open>session_services\<close>
    state what a client may rely on, and are interpreted on the in-memory stores; the
    compare-and-swap on a revision is one atomic step under interference.
  \<^item> \<^verbatim>\<open>Session_Handle\<close> (\<^verbatim>\<open>session/layer/handle.rs\<close>, \<^verbatim>\<open>session/layer/swap.rs\<close>, \<^verbatim>\<open>session/extractor.rs\<close>): every
    operation of a request on its session. A login never keeps the arriving id, and a one-shot
    value is handed out at most once.
  \<^item> \<^verbatim>\<open>Text_Codec\<close> and \<^verbatim>\<open>Session_Cookie\<close> (\<^verbatim>\<open>session/config.rs\<close>, \<^verbatim>\<open>session/cookies.rs\<close>,
    \<^verbatim>\<open>session/layer/signing.rs\<close>): the configuration, the scan for the cookie, signing and the key ring.
  \<^item> \<^verbatim>\<open>Session_Load\<close>, \<^verbatim>\<open>Session_Finalize\<close> and \<^verbatim>\<open>Session_Requests\<close> (\<^verbatim>\<open>session/layer/lifecycle.rs\<close> and below):
    the two ends of a request and their composition. Only a vetted session is trusted, a revoked or
    deleted one is neither handed out nor revived, a rotation is one step, and a login reaches the
    next request that brings its cookie.
  \<^item> \<^verbatim>\<open>Refresh_Token\<close>, \<^verbatim>\<open>Refresh\<close> and \<^verbatim>\<open>Refresh_Guarantees\<close> (\<^verbatim>\<open>session/refresh/\<close>,
    \<^verbatim>\<open>testing/mock_refresh_store.rs\<close>): the refresh tokens. At most one token of a family is live, reuse
    revokes the family, and no refresh outlives the login; the locale \<open>refresh_store_contract\<close> is
    interpreted on the in-memory store.
  \<^item> \<^verbatim>\<open>One_Time_Codes\<close> (\<^verbatim>\<open>axess-factors/src/otp_core.rs\<close>, \<^verbatim>\<open>hotp.rs\<close>, \<^verbatim>\<open>totp.rs\<close>), \<^verbatim>\<open>Recovery_Codes\<close>
    (\<^verbatim>\<open>recovery_code.rs\<close>, \<^verbatim>\<open>axess-rng/src/hex.rs\<close>) and \<^verbatim>\<open>Credential_Check\<close>
    (\<^verbatim>\<open>authn/service/verification.rs\<close>): the checks of a credential. A code is accepted exactly within its
    window, a recovery code spends one row, guesses are bounded by locks and burned codes, and
    e-mailed codes are drawn without bias by a loop that ends.

  \<^bold>\<open>Bounds.\<close> The retry loops run as often as in the code: two attempts of a compare-and-swap
  (\<open>CAS_ATTEMPTS\<close>), three of a merging swap (\<open>SWAP_ATTEMPTS\<close>), four rounds of a rotation
  (\<open>CYCLE_ATTEMPTS\<close>); no other fuel is used. The one loop without a bound, the rejection sampling of
  \<open>random_digits\<close>, is a \<^verbatim>\<open>partial_function\<close> and is proved to return. Counters, windows and truncated
  codes keep their widths (8, 32 and 64 bits) with saturation and checked arithmetic written out.

  \<^bold>\<open>Not modelled.\<close> The login service around the credential checks (storing the updated factor,
  lockout counters, throttling, sealing of factor secrets, sign-up, password reset,
  impersonation entry points), devices and their stores, authorization, federation and
  delegated tokens, workload identities, the local identity provider, the middleware other than
  the session layer, client addresses and identifier validation: each is listed, with the reason,
  among the components. Metrics, tracing, audit rows and the wording of errors carry no state
  a modelled operation reads. The SQL and Valkey backends translate the same conditional writes
  into queries of a server that is not in the repository. Memory wiping and constant-time
  comparison have no effect on results and appear as plain equality.
\<close>

end
